(* ===== verification/Prelude.thy ===== *)
theory Prelude
  imports Main "HOL-Library.Word"
begin

text \<open>
  Shared vocabulary of the development: the ways a call of the library can fail to return,
  sequencing of statements that may fail, total-correctness triples for such statements, and
  generic list lemmas. Nothing here models a particular file.
\<close>

section \<open>Failing computations\<close>

text \<open>
  A C++ call either returns or it never does: an \<^verbatim>\<open>assert\<close> fails, \<^verbatim>\<open>LOG(FATAL)\<close> aborts,
  an empty \<^verbatim>\<open>std::function\<close> is called, or memory is used that is not there. The string names
  the function (and condition) at fault. Asserts are live in every build of the repository: the
  root CMakeLists.txt replaces the release flags by \<^verbatim>\<open>-O3\<close> and never defines \<^verbatim>\<open>NDEBUG\<close>.
\<close>

datatype fault =
    AssertFailed string
  | FatalLog
  | BadFunctionCall string
  | NullDeref string
  | UseAfterFree string
  | OutOfBounds string
  | Terminate string

type_synonym 'a outcome = "fault + 'a"

type_synonym byte = "8 word"

fun andThen :: "'a outcome \<Rightarrow> ('a \<Rightarrow> 'b outcome) \<Rightarrow> 'b outcome" where
  "andThen (Inl e) k = Inl e"
| "andThen (Inr x) k = k x"

text \<open>A statement maps the state to its outcome; a block runs statements in order.\<close>

type_synonym 's stmt = "'s \<Rightarrow> 's outcome"

fun block :: "'s stmt list \<Rightarrow> 's stmt" where
  "block [] s = Inr s"
| "block (f # fs) s = andThen (f s) (block fs)"

definition upd :: "('s \<Rightarrow> 's) \<Rightarrow> 's stmt" where
  "upd f s = Inr (f s)"

definition doIf :: "('s \<Rightarrow> bool) \<Rightarrow> 's stmt \<Rightarrow> 's stmt" where
  "doIf c f s = (if c s then f s else Inr s)"

definition ifElse :: "('s \<Rightarrow> bool) \<Rightarrow> 's stmt \<Rightarrow> 's stmt \<Rightarrow> 's stmt" where
  "ifElse c f g s = (if c s then f s else g s)"

definition assertThat :: "string \<Rightarrow> ('s \<Rightarrow> bool) \<Rightarrow> 's stmt" where
  "assertThat msg c s = (if c s then Inr s else Inl (AssertFailed msg))"

text \<open>
  A call with a result is a function to the result and the new state; it may fail too. The
  continuations below are statements or such functions: \<open>letIn\<close> reads a local variable off the
  state, \<open>call\<close> and \<open>callE\<close> hand on the result of a call, \<open>thenDo\<close> runs a statement first,
  \<open>retF\<close> is \<^verbatim>\<open>return\<close>.
\<close>

type_synonym ('s, 'a) func = "'s \<Rightarrow> ('a \<times> 's) outcome"

definition letIn :: "('s \<Rightarrow> 'a) \<Rightarrow> ('a \<Rightarrow> 's \<Rightarrow> 'b) \<Rightarrow> 's \<Rightarrow> 'b" where
  "letIn f k s = k (f s) s"

definition call :: "('s \<Rightarrow> 'a \<times> 's) \<Rightarrow> ('a \<Rightarrow> 's \<Rightarrow> 'b) \<Rightarrow> 's \<Rightarrow> 'b" where
  "call f k s = (case f s of (a, s') \<Rightarrow> k a s')"

definition callE :: "('s, 'a) func \<Rightarrow> ('a \<Rightarrow> 's \<Rightarrow> 'b outcome) \<Rightarrow> 's \<Rightarrow> 'b outcome" where
  "callE f k s = andThen (f s) (\<lambda>(a, s'). k a s')"

definition thenDo :: "'s stmt \<Rightarrow> ('s \<Rightarrow> 'b outcome) \<Rightarrow> 's \<Rightarrow> 'b outcome" where
  "thenDo f k s = andThen (f s) k"

definition retF :: "'a \<Rightarrow> ('s, 'a) func" where
  "retF a s = Inr (a, s)"

named_theorems stmt_defs \<open>the statement combinators, unfolded\<close>

declare upd_def [stmt_defs] doIf_def [stmt_defs] ifElse_def [stmt_defs]
  assertThat_def [stmt_defs] letIn_def [stmt_defs] call_def [stmt_defs]
  callE_def [stmt_defs] thenDo_def [stmt_defs] retF_def [stmt_defs]

lemma andThen_Inr_iff: "andThen m k = Inr y \<longleftrightarrow> (\<exists>x. m = Inr x \<and> k x = Inr y)"
  by (cases m) auto

lemma andThen_Inl_iff: "andThen m k = Inl e \<longleftrightarrow> m = Inl e \<or> (\<exists>x. m = Inr x \<and> k x = Inl e)"
  by (cases m) auto

lemma andThen_cong [fundef_cong]:
  "m = m' \<Longrightarrow> (\<And>x. m' = Inr x \<Longrightarrow> k x = k' x) \<Longrightarrow> andThen m k = andThen m' k'"
  by (cases m') auto

lemma andThen_assoc: "andThen (andThen m f) g = andThen m (\<lambda>x. andThen (f x) g)"
  by (cases m) auto

lemma andThen_Inr [simp]: "andThen m Inr = m"
  by (cases m) auto

lemma block_Nil [simp]: "block [] = Inr"
  by (simp add: fun_eq_iff)

lemma block_one [simp]: "block [f] = f"
  by (simp add: fun_eq_iff)

lemma block_append: "block (fs @ gs) s = andThen (block fs s) (block gs)"
proof (induction fs arbitrary: s)
  case Nil
  then show ?case by simp
next
  case (Cons f fs)
  then show ?case by (cases "f s") simp_all
qed

section \<open>Total correctness and preservation\<close>

text \<open>
  \<open>ensures P f Q\<close>: from every state with \<open>P\<close> the statement returns, in a state with \<open>Q\<close>.
  \<open>keeps P f\<close>: if the statement returns, \<open>P\<close> is kept; it may still fail.
\<close>

definition ensures :: "('s \<Rightarrow> bool) \<Rightarrow> 's stmt \<Rightarrow> ('s \<Rightarrow> bool) \<Rightarrow> bool" where
  "ensures P f Q \<longleftrightarrow> (\<forall>s. P s \<longrightarrow> (\<exists>s'. f s = Inr s' \<and> Q s'))"

definition keeps :: "('s \<Rightarrow> bool) \<Rightarrow> 's stmt \<Rightarrow> bool" where
  "keeps P f \<longleftrightarrow> (\<forall>s s'. P s \<longrightarrow> f s = Inr s' \<longrightarrow> P s')"

named_theorems keeps_intros \<open>introduction rules for \<open>keeps\<close>\<close>

lemma ensuresD: "ensures P f Q \<Longrightarrow> P s \<Longrightarrow> \<exists>s'. f s = Inr s' \<and> Q s'"
  by (simp add: ensures_def)

lemma keepsD: "keeps P f \<Longrightarrow> f s = Inr s' \<Longrightarrow> P s \<Longrightarrow> P s'"
  by (simp add: keeps_def)

lemma keeps_block [keeps_intros]:
  assumes "\<And>f. f \<in> set fs \<Longrightarrow> keeps P f"
  shows "keeps P (block fs)"
proof -
  have "P s'" if "block gs s = Inr s'" "P s" "set gs \<subseteq> set fs" for gs s s'
    using that
  proof (induction gs arbitrary: s)
    case Nil
    then show ?case by simp
  next
    case (Cons g gs)
    then obtain t where "g s = Inr t" "block gs t = Inr s'"
      by (auto simp: andThen_Inr_iff)
    with Cons show ?case using assms keepsD[of P g s t] by simp
  qed
  then show ?thesis by (auto simp: keeps_def)
qed

text \<open>A block step by step, and one whose statements all ensure the same.\<close>

lemma ensures_seq: "ensures P f R \<Longrightarrow> ensures R (block fs) Q \<Longrightarrow> ensures P (block (f # fs)) Q"
  unfolding ensures_def by fastforce

lemma ensures_last: "ensures P f Q \<Longrightarrow> ensures P (block [f]) Q"
  unfolding ensures_def by fastforce

lemma ensures_block: "(\<And>f. f \<in> set fs \<Longrightarrow> ensures P f P) \<Longrightarrow> ensures P (block fs) P"
proof (induction fs)
  case Nil
  then show ?case by (simp add: ensures_def)
next
  case (Cons f fs)
  then show ?case by (intro ensures_seq[of P f P]) simp_all
qed

lemma keeps_upd [keeps_intros]: "(\<And>s. P s \<Longrightarrow> P (f s)) \<Longrightarrow> keeps P (upd f)"
  by (simp add: keeps_def upd_def)

lemma keeps_doIf [keeps_intros]: "keeps P f \<Longrightarrow> keeps P (doIf c f)"
  unfolding keeps_def doIf_def by (metis sum.inject(2))

lemma keeps_ifElse [keeps_intros]: "keeps P f \<Longrightarrow> keeps P g \<Longrightarrow> keeps P (ifElse c f g)"
  unfolding keeps_def ifElse_def by metis

lemma keeps_assertThat [keeps_intros]: "keeps P (assertThat m c)"
  by (simp add: keeps_def assertThat_def)

lemma keeps_letIn [keeps_intros]: "(\<And>a. keeps P (k a)) \<Longrightarrow> keeps P (letIn f k)"
  unfolding keeps_def letIn_def by blast

lemma keeps_Inr [keeps_intros]: "keeps P Inr"
  by (simp add: keeps_def)

text \<open>A block one of whose statements fails whenever an invariant of all of them holds fails.\<close>

lemma block_fails:
  assumes "\<And>f. f \<in> set fs \<Longrightarrow> keeps P f" "g \<in> set fs" "\<And>s. P s \<Longrightarrow> \<exists>e. g s = Inl e" "P s"
  shows "\<exists>e. block fs s = Inl e"
  using assms(1,2,4)
proof (induction fs arbitrary: s)
  case Nil
  then show ?case by simp
next
  case (Cons f fs)
  show ?case
  proof (cases "f s")
    case (Inl e)
    then show ?thesis by simp
  next
    case (Inr t)
    have "f \<noteq> g" using assms(3)[OF Cons.prems(3)] Inr by auto
    moreover have "P t" using keepsD[of P f s t] Inr Cons.prems by auto
    ultimately show ?thesis using Cons Inr by simp
  qed
qed

section \<open>Lists\<close>

lemma take_drop_Suc: "f < length xs \<Longrightarrow> take (Suc n) (drop f xs) = xs ! f # take n (drop (Suc f) xs)"
  by (metis Cons_nth_drop_Suc take_Suc_Cons)

lemma take_Suc_update: "i < length xs \<Longrightarrow> take (Suc i) (xs[i := x]) = take i xs @ [x]"
  by (simp add: take_Suc_conv_app_nth)

lemma drop_update_less: "i < n \<Longrightarrow> drop n (xs[i := x]) = drop n xs"
  by simp

end
