(* ===== verification/ByteOrder.thy ===== *)
theory ByteOrder
  imports Prelude
begin

unbundle bit_operations_syntax

text \<open>
  Object representations of unsigned integers and the conversions \<^verbatim>\<open>htobe*\<close> / \<^verbatim>\<open>be*toh\<close> of
  \<^verbatim>\<open>endian.h\<close>, for every width that is a whole number of bytes. The host is little-endian
  (x86-64 Linux): \<open>mem_bytes\<close> lists the bytes of a value at increasing addresses, least
  significant first, and \<open>htobe\<close> reverses the bytes of the value.
\<close>

definition sizeof :: "'a::len word \<Rightarrow> nat" where
  "sizeof w = LENGTH('a) div 8"

definition mem_bytes :: "'a::len word \<Rightarrow> byte list" where
  "mem_bytes w = map (\<lambda>i. ucast (drop_bit (8 * i) w)) [0..<sizeof w]"

fun of_mem :: "byte list \<Rightarrow> 'a::len word" where
  "of_mem [] = 0"
| "of_mem (b # bs) = ucast b OR push_bit 8 (of_mem bs)"

definition htobe :: "'a::len word \<Rightarrow> 'a word" where
  "htobe w = of_mem (rev (mem_bytes w))"

definition betoh :: "'a::len word \<Rightarrow> 'a word" where
  "betoh w = of_mem (rev (mem_bytes w))"

lemma length_mem_bytes [simp]: "length (mem_bytes w) = sizeof w"
  by (simp add: mem_bytes_def)

lemma bit_of_mem:
  "bit (of_mem bs :: 'a::len word) n \<longleftrightarrow>
     n < LENGTH('a) \<and> n div 8 < length bs \<and> bit (bs ! (n div 8)) (n mod 8)"
proof (induction bs arbitrary: n)
  case Nil
  then show ?case by simp
next
  case (Cons b bs)
  show ?case
  proof (cases "n < 8")
    case True
    then show ?thesis
      by (auto simp: bit_simps)
  next
    case False
    then obtain m where n: "n = m + 8" by (metis le_add_diff_inverse2 not_less)
    have b: "\<not> bit b (m + 8)" by (auto dest: bit_imp_le_length)
    have d: "(m + 8) div 8 = Suc (m div 8)" "(m + 8) mod 8 = m mod 8" by simp_all
    show ?thesis
      unfolding n of_mem.simps bit_or_iff bit_push_bit_iff d using Cons.IH[of m] b
      by (auto simp: bit_simps)
  qed
qed

lemma bit_mem_bytes:
  "i < sizeof w \<Longrightarrow> bit (mem_bytes (w :: 'a::len word) ! i) j \<longleftrightarrow> j < 8 \<and> bit w (8 * i + j)"
  by (auto simp: mem_bytes_def bit_simps dest: bit_imp_le_length)

text \<open>Reading the object representation back gives the value.\<close>

lemma of_mem_mem_bytes [simp]:
  assumes "8 dvd LENGTH('a)"
  shows "of_mem (mem_bytes (w :: 'a::len word)) = w"
proof (rule bit_word_eqI)
  fix n assume n: "n < LENGTH('a)"
  have "n div 8 < sizeof w"
    using n assms by (auto simp: sizeof_def elim!: dvdE)
  then show "bit (of_mem (mem_bytes w) :: 'a word) n = bit w n"
    using n by (simp add: bit_of_mem bit_mem_bytes)
qed

lemma mem_bytes_of_mem [simp]:
  assumes "8 dvd LENGTH('a)" and "length bs = LENGTH('a) div 8"
  shows "mem_bytes (of_mem bs :: 'a::len word) = bs"
proof (rule nth_equalityI)
  show l: "length (mem_bytes (of_mem bs :: 'a word)) = length bs"
    using assms by (simp add: sizeof_def)
  fix i assume i: "i < length (mem_bytes (of_mem bs :: 'a word))"
  then have i': "i < sizeof (of_mem bs :: 'a word)" "i < length bs" using l by simp_all
  show "mem_bytes (of_mem bs :: 'a word) ! i = bs ! i"
  proof (rule bit_word_eqI)
    fix n assume n: "n < LENGTH(8)"
    then have "8 * i + n < LENGTH('a)" using i' assms by (auto elim!: dvdE)
    then show "bit (mem_bytes (of_mem bs :: 'a word) ! i) n = bit (bs ! i) n"
      using i' n by (simp add: bit_mem_bytes bit_of_mem)
  qed
qed

text \<open>The bytes of a converted value are in network order; converting twice is the identity.\<close>

lemma mem_bytes_htobe [simp]:
  "8 dvd LENGTH('a) \<Longrightarrow> mem_bytes (htobe (w :: 'a::len word)) = rev (mem_bytes w)"
  by (simp add: htobe_def sizeof_def)

lemma betoh_htobe [simp]: "8 dvd LENGTH('a) \<Longrightarrow> betoh (htobe (w :: 'a::len word)) = w"
  by (simp add: betoh_def)

lemma htobe_eq_betoh: "htobe = betoh"
  by (simp add: fun_eq_iff htobe_def betoh_def)

lemma betoh_of_mem_rev:
  "8 dvd LENGTH('a) \<Longrightarrow> betoh (of_mem (rev (mem_bytes w)) :: 'a::len word) = w"
  by (simp add: betoh_def sizeof_def)

end
