(* ===== verification/ByteQueue.thy ===== *)
theory ByteQueue
  imports Prelude
begin

text \<open>
  The contract a byte queue offers its users: bytes go in at the back, come out at the front,
  nothing is lost, duplicated or reordered, and no call fails as long as no more is taken than
  is there. TcpConnection uses its two buffers through this contract; \<open>Buffer\<close> discharges it.
\<close>

datatype qop = Put "byte list" | Get nat

text \<open>A run of operations, with the bytes that were taken out in order.\<close>

fun runQ ::
  "(byte list \<Rightarrow> 'q \<Rightarrow> 'q outcome) \<Rightarrow> (nat \<Rightarrow> 'q \<Rightarrow> 'q outcome) \<Rightarrow> ('q \<Rightarrow> byte list) \<Rightarrow>
   qop list \<Rightarrow> 'q \<Rightarrow> (byte list \<times> 'q) outcome" where
  "runQ put get cont [] q = Inr ([], q)"
| "runQ put get cont (Put xs # ops) q = andThen (put xs q) (runQ put get cont ops)"
| "runQ put get cont (Get n # ops) q = andThen (get n q) (\<lambda>q'.
     andThen (runQ put get cont ops q') (\<lambda>(out, q''). Inr (take n (cont q) @ out, q'')))"

fun puts :: "qop list \<Rightarrow> byte list" where
  "puts [] = []"
| "puts (Put xs # ops) = xs @ puts ops"
| "puts (Get n # ops) = puts ops"

text \<open>No operation takes more than is queued when it starts from \<open>k\<close> queued bytes.\<close>

fun fits :: "qop list \<Rightarrow> nat \<Rightarrow> bool" where
  "fits [] k = True"
| "fits (Put xs # ops) k = fits ops (k + length xs)"
| "fits (Get n # ops) k = (n \<le> k \<and> fits ops (k - n))"

locale byte_queue =
  fixes inv :: "'q \<Rightarrow> bool"
    and cont :: "'q \<Rightarrow> byte list"
    and put :: "byte list \<Rightarrow> 'q \<Rightarrow> 'q outcome"
    and get :: "nat \<Rightarrow> 'q \<Rightarrow> 'q outcome"
  assumes put_ok: "inv q \<Longrightarrow> \<exists>q'. put xs q = Inr q' \<and> inv q' \<and> cont q' = cont q @ xs"
    and get_ok: "inv q \<Longrightarrow> n \<le> length (cont q) \<Longrightarrow>
      \<exists>q'. get n q = Inr q' \<and> inv q' \<and> cont q' = drop n (cont q)"
    and get_fails: "inv q \<Longrightarrow> length (cont q) < n \<Longrightarrow> \<exists>e. get n q = Inl e"
begin

lemma put_Inr: "inv q \<Longrightarrow> put xs q = Inr q' \<Longrightarrow> inv q' \<and> cont q' = cont q @ xs"
  using put_ok[of q xs] by auto

lemma get_Inr:
  "inv q \<Longrightarrow> get n q = Inr q' \<Longrightarrow> n \<le> length (cont q) \<and> inv q' \<and> cont q' = drop n (cont q)"
  using get_ok[of q n] get_fails[of q n] by (cases "n \<le> length (cont q)") auto

lemma run_fifo:
  "inv q \<Longrightarrow> runQ put get cont ops q = Inr (out, q') \<Longrightarrow>
     inv q' \<and> cont q @ puts ops = out @ cont q'"
proof (induction ops arbitrary: q out)
  case Nil
  then show ?case by simp
next
  case (Cons op ops)
  show ?case
  proof (cases op)
    case (Put xs)
    with Cons.prems obtain r where "put xs q = Inr r" "runQ put get cont ops r = Inr (out, q')"
      by (auto simp: andThen_Inr_iff)
    with Cons.IH[of r out] put_Inr[of q xs r] Cons.prems(1) Put show ?thesis by auto
  next
    case (Get n)
    with Cons.prems obtain r o' where r: "get n q = Inr r" "runQ put get cont ops r = Inr (o', q')"
      "out = take n (cont q) @ o'"
      by (auto simp: andThen_Inr_iff)
    with get_Inr[of q n r] Cons.prems(1) have "inv r" "cont r = drop n (cont q)" by auto
    with Cons.IH[of r o'] r have "inv q'" "drop n (cont q) @ puts ops = o' @ cont q'" by auto
    with r Get show ?thesis by (metis append.assoc append_take_drop_id puts.simps(3))
  qed
qed

lemma run_ok: "inv q \<Longrightarrow> fits ops (length (cont q)) \<Longrightarrow> \<exists>out q'. runQ put get cont ops q = Inr (out, q')"
proof (induction ops arbitrary: q)
  case Nil
  then show ?case by simp
next
  case (Cons op ops)
  show ?case
  proof (cases op)
    case (Put xs)
    with Cons.prems put_ok[of q xs] obtain r where
      "put xs q = Inr r" "inv r" "fits ops (length (cont r))" by auto
    with Cons.IH Put show ?thesis by auto
  next
    case (Get n)
    with Cons.prems get_ok[of q n] obtain r where
      r: "get n q = Inr r" "inv r" "fits ops (length (cont r))" by auto
    then obtain out q' where "runQ put get cont ops r = Inr (out, q')" using Cons.IH by blast
    with r Get show ?thesis by auto
  qed
qed

text \<open>A run in which every \<open>Get\<close> finds enough bytes succeeds, first in first out.\<close>

lemma run_total:
  "inv q \<Longrightarrow> fits ops (length (cont q)) \<Longrightarrow>
     \<exists>out q'. runQ put get cont ops q = Inr (out, q') \<and> inv q' \<and> cont q @ puts ops = out @ cont q'"
  using run_ok run_fifo by blast

end

end
