(* ===== verification/Process.thy ===== *)
theory Process
  imports Prelude
begin

text \<open>
  The process the library runs in, as far as the library reads or writes it: \<^verbatim>\<open>errno\<close>, the
  global log level \<^verbatim>\<open>g_logLevel\<close>, the identity of the running thread, and the kernel.
  The kernel is code outside the repository: what it answers is a parameter. Every system call
  appends itself to \<open>trace\<close> and takes the next answer of the stream \<open>env\<close>; every reading of
  \<^verbatim>\<open>gettimeofday\<close> takes the next pair of \<open>clock\<close>. \<open>addrStorage\<close> is the function-local
  static of \<^verbatim>\<open>EndPoint::getSockAddr\<close>. A theorem about a state therefore holds for
  every sequence of answers the kernel may give. What is built in is the convention of the
  system-call interface: a negative result means failure and sets \<^verbatim>\<open>errno\<close>.
\<close>

section \<open>Log levels\<close>

datatype level = DEBUG | INFO | WARN | ERROR | FATAL | EnumSize

fun level_rank :: "level \<Rightarrow> nat" where
  "level_rank DEBUG = 0"
| "level_rank INFO = 1"
| "level_rank WARN = 2"
| "level_rank ERROR = 3"
| "level_rank FATAL = 4"
| "level_rank EnumSize = 5"

instantiation level :: linorder
begin

definition less_eq_level :: "level \<Rightarrow> level \<Rightarrow> bool" where
  "less_eq_level a b \<longleftrightarrow> level_rank a \<le> level_rank b"

definition less_level :: "level \<Rightarrow> level \<Rightarrow> bool" where
  "less_level a b \<longleftrightarrow> level_rank a < level_rank b"

instance
proof
  fix x y z :: level
  show "(x < y) = (x \<le> y \<and> \<not> y \<le> x)" by (auto simp: less_eq_level_def less_level_def)
  show "x \<le> x" by (simp add: less_eq_level_def)
  show "x \<le> y \<Longrightarrow> y \<le> z \<Longrightarrow> x \<le> z" by (simp add: less_eq_level_def)
  show "x \<le> y \<Longrightarrow> y \<le> x \<Longrightarrow> x = y" by (cases x; cases y) (simp_all add: less_eq_level_def)
  show "x \<le> y \<or> y \<le> x" by (auto simp: less_eq_level_def)
qed

end

lemmas level_order = less_eq_level_def less_level_def

section \<open>System calls\<close>

datatype epoll_op = EPOLL_CTL_ADD | EPOLL_CTL_MOD | EPOLL_CTL_DEL

datatype syscall =
    SysSocket int int
  | SysBind int "byte list"
  | SysListen int
  | SysAccept int int
  | SysConnect int "byte list"
  | SysGetsockname int
  | SysGetpeername int
  | SysSoError int
  | SysSetsockopt int string int
  | SysReadv int nat "byte list option"
  | SysRead int nat
  | SysWrite int "byte list" int
  | SysWriteFd int nat
  | SysShutdownWr int
  | SysClose int
  | SysFcntlGetFl int
  | SysOpenNull
  | SysEpollCreate
  | SysEpollWait int nat int
  | SysEpollCtl epoll_op int "32 word" nat
  | SysEventfd
  | SysTimerfdCreate
  | SysTimerfdSettime int int int

record answer =
  a_ret :: int
  a_err :: int
  a_payload :: "byte list"
  a_events :: "(nat \<times> 32 word) list"

record process =
  errno :: int
  g_logLevel :: level
  logOut :: "level list"
  curTid :: int
  trace :: "syscall list"
  env :: "nat \<Rightarrow> answer"
  envIx :: nat
  clock :: "nat \<Rightarrow> int \<times> int"
  clockIx :: nat
  addrStorage :: "byte list"

text \<open>The process when \<^verbatim>\<open>main\<close> starts: the log level is the initial value of \<^verbatim>\<open>g_logLevel\<close>.\<close>

definition startProcess :: "(nat \<Rightarrow> answer) \<Rightarrow> (nat \<Rightarrow> int \<times> int) \<Rightarrow> process" where
  "startProcess e c = \<lparr>errno = 0, g_logLevel = INFO, logOut = [], curTid = 1, trace = [],
     env = e, envIx = 0, clock = c, clockIx = 0, addrStorage = replicate 128 0\<rparr>"

text \<open>What the trace records of a call may depend on the answer (bytes moved, descriptors handed out).\<close>

definition sys :: "(answer \<Rightarrow> syscall) \<Rightarrow> 'z process_scheme \<Rightarrow> answer \<times> 'z process_scheme" where
  "sys c s = (let a = env s (envIx s) in
     (a, s\<lparr>trace := trace s @ [c a], envIx := Suc (envIx s),
           errno := (if a_ret a < 0 then a_err a else errno s)\<rparr>))"

text \<open>The calls of which the library uses the result only.\<close>

definition sysRet :: "syscall \<Rightarrow> 'z process_scheme \<Rightarrow> int \<times> 'z process_scheme" where
  "sysRet c s = (case sys (\<lambda>_. c) s of (a, s') \<Rightarrow> (a_ret a, s'))"

text \<open>The answer the kernel gives next, and the state after a plain call.\<close>

definition nextAns :: "'z process_scheme \<Rightarrow> answer" where
  "nextAns s = env s (envIx s)"

definition afterSys :: "syscall \<Rightarrow> 'z process_scheme \<Rightarrow> 'z process_scheme" where
  "afterSys c s = s\<lparr>trace := trace s @ [c], envIx := Suc (envIx s),
     errno := (if a_ret (nextAns s) < 0 then a_err (nextAns s) else errno s)\<rparr>"

lemma sys_eq: "sys c s = (nextAns s, afterSys (c (nextAns s)) s)"
  by (simp add: sys_def Let_def afterSys_def nextAns_def)

lemma sysRet_eq: "sysRet c s = (a_ret (nextAns s), afterSys c s)"
  by (simp add: sysRet_def sys_eq)

lemma afterSys_frame [simp]:
  "trace (afterSys c s) = trace s @ [c]"
  "g_logLevel (afterSys c s) = g_logLevel s"
  "logOut (afterSys c s) = logOut s"
  "curTid (afterSys c s) = curTid s"
  "env (afterSys c s) = env s"
  "envIx (afterSys c s) = Suc (envIx s)"
  "clock (afterSys c s) = clock s"
  "clockIx (afterSys c s) = clockIx s"
  "addrStorage (afterSys c s) = addrStorage s"
  by (simp_all add: afterSys_def)

text \<open>
  \<open>kernelStep s s'\<close>: only the part of the process a system call or a log line can change
  differs; an extension of the process record is untouched.
\<close>

definition kernelStep :: "'z process_scheme \<Rightarrow> 'z process_scheme \<Rightarrow> bool" where
  "kernelStep s s' \<longleftrightarrow> (\<exists>t. trace s' = trace s @ t) \<and>
     s' = s\<lparr>trace := trace s', envIx := envIx s', errno := errno s', logOut := logOut s'\<rparr>"

lemma kernelStep_afterSys [simp]: "kernelStep s (afterSys c s)"
  by (cases s) (simp add: kernelStep_def afterSys_def)

lemma kernelStep_refl [simp]: "kernelStep s s"
  by (cases s) (simp add: kernelStep_def)

lemma kernelStep_trans:
  assumes "kernelStep s t" "kernelStep t u"
  shows "kernelStep s u"
  using assms by (cases s; cases t; cases u) (auto simp: kernelStep_def)

section \<open>Thread identity (CurrentThread.cpp)\<close>

text \<open>
  \<^verbatim>\<open>GetThreadID\<close> caches the result of \<^verbatim>\<open>gettid\<close> in the thread-local \<^verbatim>\<open>t_threadTid\<close>: the result
  and the new value of the cache, from the kernel's number and the old value. Elsewhere
  \<open>curTid\<close> stands for the value the running thread gets.
\<close>

definition GetThreadID :: "int \<Rightarrow> int \<Rightarrow> int \<times> int" where
  "GetThreadID gettid t_threadTid =
     (if t_threadTid = 0 then (gettid, gettid) else (t_threadTid, t_threadTid))"

lemma GetThreadID_stable:
  assumes "t_threadTid = 0 \<or> t_threadTid = gettid"
  shows "GetThreadID gettid t_threadTid = (gettid, gettid)"
  using assms by (auto simp: GetThreadID_def)

end
