(* ===== verification/Logger.thy ===== *)
theory Logger
  imports Process
begin

text \<open>
  src/base/Logger.h: the \<^verbatim>\<open>LOG(level)\<close> macro and the \<^verbatim>\<open>Logger\<close> temporary it creates. The text
  of a message is not modelled; what the rest of the library can observe is: whether a line is
  printed, that the destructor resets \<^verbatim>\<open>errno\<close>, and that a fatal line aborts the process.
\<close>

definition Logger_dtor :: "level \<Rightarrow> ('z) process_scheme stmt" where
  "Logger_dtor lvl = block [
     doIf (\<lambda>s. errno s \<noteq> 0) (upd (\<lambda>s. s\<lparr>errno := 0\<rparr>)),
     doIf (\<lambda>s. lvl \<ge> g_logLevel s) (upd (\<lambda>s. s\<lparr>logOut := logOut s @ [lvl]\<rparr>)),
     (\<lambda>s. if lvl \<ge> FATAL then Inl FatalLog else Inr s)]"

definition LOG :: "level \<Rightarrow> ('z) process_scheme stmt" where
  "LOG lvl = doIf (\<lambda>s. lvl \<ge> g_logLevel s) (Logger_dtor lvl)"

definition setLogLevel :: "level \<Rightarrow> ('z) process_scheme \<Rightarrow> ('z) process_scheme" where
  "setLogLevel lvl s = s\<lparr>g_logLevel := lvl\<rparr>"

text \<open>
  The state after a line that does not abort, as one update of the two fields a line can
  change, so that every other field of the process (and of its extensions) reads through it.
\<close>

definition logged :: "level \<Rightarrow> ('z) process_scheme \<Rightarrow> ('z) process_scheme" where
  "logged lvl s = s\<lparr>errno := (if lvl \<ge> g_logLevel s then 0 else errno s),
     logOut := logOut s @ (if lvl \<ge> g_logLevel s then [lvl] else [])\<rparr>"

lemma LOG_below_fatal: "lvl < FATAL \<Longrightarrow> LOG lvl s = Inr (logged lvl s)"
  by (cases s) (auto simp: LOG_def Logger_dtor_def logged_def stmt_defs not_le)

lemma LOG_simps [simp]:
  "LOG DEBUG s = Inr (logged DEBUG s)"
  "LOG INFO s = Inr (logged INFO s)"
  "LOG WARN s = Inr (logged WARN s)"
  "LOG ERROR s = Inr (logged ERROR s)"
  by (simp_all add: LOG_below_fatal less_level_def)

lemma LOG_FATAL: "LOG FATAL s = (if g_logLevel s \<le> FATAL then Inl FatalLog else Inr s)"
  by (simp add: LOG_def Logger_dtor_def stmt_defs)

lemma errno_logged: "errno (logged l s) = (if l \<ge> g_logLevel s then 0 else errno s)"
  by (simp add: logged_def)

lemma logged_frame [simp]:
  "g_logLevel (logged l s) = g_logLevel s"
  "curTid (logged l s) = curTid s"
  "trace (logged l s) = trace s"
  "env (logged l s) = env s"
  "envIx (logged l s) = envIx s"
  "clock (logged l s) = clock s"
  "clockIx (logged l s) = clockIx s"
  "addrStorage (logged l s) = addrStorage s"
  by (simp_all add: logged_def)

lemma kernelStep_logged [simp]: "kernelStep s (logged l s)"
  by (cases s) (simp add: kernelStep_def logged_def)

end
