(* ===== verification/Format.thy ===== *)
theory Format
  imports Main
begin

text \<open>
  The conversions of \<^verbatim>\<open>snprintf\<close> and \<^verbatim>\<open>std::to_string\<close> the library uses on integers: plain decimal
  and zero-padded decimal, and reading a decimal back.
\<close>

definition digit :: "nat \<Rightarrow> char" where
  "digit d = char_of (48 + d)"

fun dec :: "nat \<Rightarrow> string" where
  "dec n = (if n < 10 then [digit n] else dec (n div 10) @ [digit (n mod 10)])"

declare dec.simps [simp del]

definition decInt :: "int \<Rightarrow> string" where
  "decInt i = (if i < 0 then CHR ''-'' # dec (nat (- i)) else dec (nat i))"

text \<open>\<^verbatim>\<open>%0wd\<close>: zeros between the sign and the digits up to width \<open>w\<close>.\<close>

definition decPad :: "nat \<Rightarrow> int \<Rightarrow> string" where
  "decPad w i = (let ds = dec (nat (abs i)) in
     if i < 0 then CHR ''-'' # replicate (w - 1 - length ds) CHR ''0'' @ ds
     else replicate (w - length ds) CHR ''0'' @ ds)"

definition digitVal :: "char \<Rightarrow> nat" where
  "digitVal c = of_char c - 48"

definition readDec :: "string \<Rightarrow> nat" where
  "readDec = foldl (\<lambda>a c. a * 10 + digitVal c) 0"

definition isDigit :: "char \<Rightarrow> bool" where
  "isDigit c \<longleftrightarrow> 48 \<le> (of_char c :: nat) \<and> (of_char c :: nat) \<le> 57"

lemma digitVal_digit [simp]: "d < 10 \<Longrightarrow> digitVal (digit d) = d"
  by (simp add: digitVal_def digit_def)

lemma isDigit_digit [simp]: "d < 10 \<Longrightarrow> isDigit (digit d)"
  by (simp add: isDigit_def digit_def)

lemma readDec_snoc [simp]: "readDec (s @ [c]) = readDec s * 10 + digitVal c"
  by (simp add: readDec_def)

lemma readDec_dec [simp]: "readDec (dec n) = n"
proof (induction n rule: dec.induct)
  case (1 n)
  show ?case
  proof (cases "n < 10")
    case True
    then show ?thesis by (subst dec.simps) (simp add: readDec_def)
  next
    case False
    with 1 show ?thesis by (subst dec.simps) simp
  qed
qed

lemma dec_less: "n < 10 ^ length (dec n)"
proof (induction n rule: dec.induct)
  case (1 n)
  show ?case
  proof (cases "n < 10")
    case True
    then show ?thesis by (subst dec.simps) simp
  next
    case False
    with 1 have "n div 10 < 10 ^ length (dec (n div 10))" by simp
    with False show ?thesis by (subst dec.simps) (simp, linarith?)
  qed
qed

lemma isDigit_dec: "list_all isDigit (dec n)"
proof (induction n rule: dec.induct)
  case (1 n)
  then show ?case by (subst dec.simps) simp
qed

lemma dec_nonempty [simp]: "dec n \<noteq> []"
  by (subst dec.simps) simp

lemma isDigit_zero [simp]: "isDigit CHR ''0''"
  by (simp add: isDigit_def)

lemma readDec_zeros: "readDec (replicate k CHR ''0'' @ s) = readDec s"
proof (induction k)
  case (Suc k)
  have "foldl (\<lambda>a c. a * 10 + digitVal c) 0 (CHR ''0'' # t) = foldl (\<lambda>a c. a * 10 + digitVal c) 0 t" for t
    by (simp add: digitVal_def)
  with Suc show ?case by (simp add: readDec_def)
qed simp

text \<open>\<open>dec n\<close> has at most \<open>k\<close> digits when \<open>n < 10 ^ k\<close>.\<close>

lemma length_dec: "n < 10 ^ k \<Longrightarrow> 0 < k \<Longrightarrow> length (dec n) \<le> k"
proof (induction n arbitrary: k rule: dec.induct)
  case (1 n)
  show ?case
  proof (cases "n < 10")
    case True
    with 1 show ?thesis by (subst dec.simps) simp
  next
    case False
    with 1(2) obtain j where k: "k = Suc j" "0 < j"
      by (cases k; cases "k - 1") auto
    with False 1 have "n div 10 < 10 ^ j" by (simp add: less_mult_imp_div_less mult.commute)
    with False 1(1) k have "length (dec (n div 10)) \<le> j" by simp
    with False k show ?thesis by (subst dec.simps) simp
  qed
qed

lemma takeWhile_isDigit_append:
  "list_all isDigit s \<Longrightarrow> \<not> isDigit c \<Longrightarrow> takeWhile isDigit (s @ c # t) = s"
  by (induction s) auto

lemma dropWhile_isDigit_append:
  "list_all isDigit s \<Longrightarrow> \<not> isDigit c \<Longrightarrow> dropWhile isDigit (s @ c # t) = c # t"
  by (induction s) auto

end
