(* ===== verification/LogLine.thy ===== *)
theory LogLine
  imports Logger Format
begin

text \<open>
  src/base/Logger.h: the text of a log line, as the constructor and the destructor of \<^verbatim>\<open>Logger\<close> build it.
  The rest of the development only needs which lines are printed (Logger); the local time, the process id and
  the file, line and function of the macro are arguments here.
\<close>

section \<open>The time\<close>

record localTime =
  lt_year :: int
  lt_mon :: nat
  lt_mday :: nat
  lt_hour :: nat
  lt_min :: nat
  lt_sec :: nat

definition two :: "nat \<Rightarrow> string" where
  "two n = decPad 2 (int n)"

text \<open>\<^verbatim>\<open>strftime\<close> with the format \<^verbatim>\<open>%Y-%m-%d %H:%M:%S\<close>.\<close>

definition timeText :: "localTime \<Rightarrow> string" where
  "timeText t = decInt (lt_year t) @ ''-'' @ two (lt_mon t) @ ''-'' @ two (lt_mday t) @ '' '' @
     two (lt_hour t) @ '':'' @ two (lt_min t) @ '':'' @ two (lt_sec t)"

text \<open>
  What the buffer holds after it: the text when it fits with its terminating zero, and otherwise
  whatever it does hold, \<open>junk\<close>.
\<close>

definition strftime :: "string \<Rightarrow> nat \<Rightarrow> localTime \<Rightarrow> string" where
  "strftime junk n t = (if length (timeText t) < n then timeText t else junk)"

section \<open>The line\<close>

definition levelNames :: "string list" where
  "levelNames = [''DEBUG'', ''INFO'', ''WARN'', ''ERROR'', ''FATAL'']"

definition Logger_ctor ::
  "string \<Rightarrow> localTime \<Rightarrow> int \<Rightarrow> level \<Rightarrow> string \<Rightarrow> 32 word \<Rightarrow> string \<Rightarrow> string option" where
  "Logger_ctor junk t pid lvl srcFile line functionName =
     (let fileInfo = srcFile @ '':'' @ dec (unat line) in
      if level_rank lvl < length levelNames then
        Some (''['' @ strftime junk 20 t @ '' - '' @ decInt pid @ '' - '' @
          levelNames ! level_rank lvl @ '' - '' @ fileInfo @ '' '' @ functionName @ ''()] '')
      else None)"

text \<open>
  What the destructor appends. \<open>strerror_r\<close> gives a text when it returns 0. (The GNU function of that name
  returns the text and never 0.)
\<close>

definition errnoText :: "(int \<Rightarrow> string option) \<Rightarrow> int \<Rightarrow> string" where
  "errnoText strerror_r e = (if e \<noteq> 0 then
       (case strerror_r e of None \<Rightarrow> [] | Some buf \<Rightarrow> '' - errno: '' @ decInt e @ '' - '' @ buf)
     else [])"

definition logLine :: "(int \<Rightarrow> string option) \<Rightarrow> string \<Rightarrow> string \<Rightarrow> int \<Rightarrow> string" where
  "logLine strerror_r start message e = start @ message @ errnoText strerror_r e @ [CHR 0x0A]"

section \<open>What a line says\<close>

lemma length_two: "n < 100 \<Longrightarrow> length (two n) = 2"
  using length_dec[of n 2] by (simp add: two_def decPad_def Let_def)

definition validTime :: "localTime \<Rightarrow> bool" where
  "validTime t \<longleftrightarrow> lt_mon t < 100 \<and> lt_mday t < 100 \<and> lt_hour t < 100 \<and> lt_min t < 100 \<and> lt_sec t < 100"

lemma length_year:
  assumes "1000 \<le> y" "y < 10000"
  shows "length (decInt y) = 4"
proof -
  have "3 < length (dec (nat y))"
  proof (rule ccontr)
    assume "\<not> 3 < length (dec (nat y))"
    then have "nat y < 10 ^ 3" using dec_less[of "nat y"] power_increasing[of "length (dec (nat y))" 3 "10 :: nat"]
      by linarith
    then show False using assms(1) by simp
  qed
  moreover have "length (dec (nat y)) \<le> 4" by (rule length_dec) (use assms in simp_all)
  ultimately show ?thesis using assms(1) by (simp add: decInt_def)
qed

text \<open>The text of a time up to the year 9999 fits exactly into the buffer of 20 characters.\<close>

lemma time_fits:
  assumes "validTime t" "1000 \<le> lt_year t" "lt_year t < 10000"
  shows "length (timeText t) = 19" "strftime junk 20 t = timeText t"
  using assms length_year[OF assms(2,3)] by (simp_all add: timeText_def strftime_def validTime_def length_two)

text \<open>Every level has its name.\<close>

lemma line_start:
  assumes "validTime t" "1000 \<le> lt_year t" "lt_year t < 10000" "lvl \<noteq> EnumSize"
  shows "Logger_ctor junk t pid lvl srcFile line functionName = Some (''['' @ timeText t @ '' - '' @ decInt pid @
    '' - '' @ levelNames ! level_rank lvl @ '' - '' @ srcFile @ '':'' @ dec (unat line) @ '' '' @ functionName @ ''()] '')"
proof -
  have "level_rank lvl < length levelNames" using assms(4) by (cases lvl) (simp_all add: levelNames_def)
  then show ?thesis by (simp add: Logger_ctor_def time_fits[OF assms(1-3)])
qed

text \<open>With the GNU \<^verbatim>\<open>strerror_r\<close>, which never returns 0, no line says anything about \<^verbatim>\<open>errno\<close>.\<close>

lemma gnu_errno_silent: "logLine (\<lambda>_. None) start message e = start @ message @ [CHR 0x0A]"
  by (simp add: logLine_def errnoText_def)

end
