(* ===== verification/ISocket.thy ===== *)
theory ISocket
  imports Logger
begin

text \<open>
  src/net/ISocket.cpp: the thin layer over the socket system calls, with its error handling.
  The calls that fill in an address are in \<open>EndPoint\<close>.
\<close>

definition ISocket_createTcpSocket :: "int \<Rightarrow> ('z process_scheme, int) func" where
  "ISocket_createTcpSocket family =
     call (sys (\<lambda>a. SysSocket family (a_ret a))) (\<lambda>a.
     thenDo (doIf (\<lambda>_. a_ret a < 0) (LOG FATAL))
     (retF (a_ret a)))"

definition ISocket_close :: "int \<Rightarrow> ('z process_scheme, int) func" where
  "ISocket_close sockfd s =
     (if sockfd < 0 then thenDo (LOG WARN) (retF (- 1)) s
      else call (sysRet (SysClose sockfd)) (\<lambda>r.
        if r = 0 then retF 0 else thenDo (LOG ERROR) (retF (- 1))) s)"

definition ISocket_listen :: "int \<Rightarrow> 'z process_scheme stmt" where
  "ISocket_listen sockfd =
     call (sysRet (SysListen sockfd)) (\<lambda>ret. doIf (\<lambda>_. ret < 0) (LOG FATAL))"

definition ISocket_bind :: "int \<Rightarrow> byte list \<Rightarrow> 'z process_scheme stmt" where
  "ISocket_bind sockfd addr =
     call (sysRet (SysBind sockfd addr)) (\<lambda>ret. doIf (\<lambda>_. ret < 0) (LOG FATAL))"

text \<open>
  \<^verbatim>\<open>write\<close> answers with the number of bytes taken, at most as many as offered, or \<open>-1\<close>; the
  minimum states that bound for every answer of the stream.
\<close>

definition ISocket_write :: "int \<Rightarrow> byte list \<Rightarrow> 'z process_scheme \<Rightarrow> int \<times> 'z process_scheme" where
  "ISocket_write fd xs s =
     (let n = (\<lambda>a. if a_ret a < 0 then - 1 else min (a_ret a) (int (length xs))) in
      case sys (\<lambda>a. SysWrite fd xs (n a)) s of (a, s') \<Rightarrow> (n a, s'))"

definition ISocket_getSocketError :: "int \<Rightarrow> 'z process_scheme \<Rightarrow> int \<times> 'z process_scheme" where
  "ISocket_getSocketError sockfd =
     call (sys (\<lambda>_. SysSoError sockfd)) (\<lambda>a s'.
       if a_ret a < 0 then (errno s', s') else (a_err a, s'))"

text \<open>
  \<^verbatim>\<open>readv\<close> over buffers of \<open>cap\<close> bytes in all answers with the bytes it stored, at most \<open>cap\<close> of
  them, or fails; the result is their number or \<open>-1\<close>.
\<close>

definition ISocket_readv ::
  "int \<Rightarrow> nat \<Rightarrow> 'z process_scheme \<Rightarrow> (int \<times> byte list) \<times> 'z process_scheme" where
  "ISocket_readv fd cap s =
     (let got = (\<lambda>a. if a_ret a < 0 then None else Some (take cap (a_payload a))) in
      case sys (\<lambda>a. SysReadv fd cap (got a)) s of (a, s') \<Rightarrow>
        (case got a of None \<Rightarrow> (- 1, []) | Some xs \<Rightarrow> (int (length xs), xs), s'))"

definition ISocket_shutdownWrite :: "int \<Rightarrow> 'z process_scheme stmt" where
  "ISocket_shutdownWrite sockfd =
     call (sysRet (SysShutdownWr sockfd)) (\<lambda>r. doIf (\<lambda>_. r < 0) (LOG ERROR))"

definition ISocket_connect :: "int \<Rightarrow> byte list \<Rightarrow> 'z process_scheme \<Rightarrow> int \<times> 'z process_scheme" where
  "ISocket_connect sockfd addr = sysRet (SysConnect sockfd addr)"

section \<open>What the calls do\<close>

text \<open>The result of the next \<^verbatim>\<open>write\<close> or \<^verbatim>\<open>readv\<close>, read off the answer stream.\<close>

definition writeResult :: "nat \<Rightarrow> answer \<Rightarrow> int" where
  "writeResult len a = (if a_ret a < 0 then - 1 else min (a_ret a) (int len))"

definition readResult :: "nat \<Rightarrow> answer \<Rightarrow> byte list option" where
  "readResult cap a = (if a_ret a < 0 then None else Some (take cap (a_payload a)))"

lemma ISocket_write_eq:
  "ISocket_write fd xs s =
     (writeResult (length xs) (nextAns s),
      afterSys (SysWrite fd xs (writeResult (length xs) (nextAns s))) s)"
  by (simp add: ISocket_write_def sys_eq writeResult_def Let_def)

lemma ISocket_readv_eq:
  "ISocket_readv fd cap s =
     (case readResult cap (nextAns s) of None \<Rightarrow> (- 1, []) | Some xs \<Rightarrow> (int (length xs), xs),
      afterSys (SysReadv fd cap (readResult cap (nextAns s))) s)"
  by (simp add: ISocket_readv_def sys_eq readResult_def Let_def)

lemma writeResult_bounds: "- 1 \<le> writeResult n a" "writeResult n a \<le> int n"
  by (auto simp: writeResult_def)

lemma readResult_bound: "readResult cap a = Some xs \<Longrightarrow> length xs \<le> cap"
  by (auto simp: readResult_def split: if_splits)

text \<open>
  \<^verbatim>\<open>ISocket::close\<close> never aborts; its result is \<open>0\<close> exactly when the kernel closed the
  descriptor, and it makes one system call, none for a negative descriptor.
\<close>

definition closeResult :: "int \<Rightarrow> answer \<Rightarrow> int" where
  "closeResult fd a = (if fd < 0 \<or> a_ret a \<noteq> 0 then - 1 else 0)"

definition closeLogs :: "int \<Rightarrow> 'z process_scheme \<Rightarrow> bool" where
  "closeLogs fd s \<longleftrightarrow> closeResult fd (nextAns s) \<noteq> 0 \<and> g_logLevel s \<le> (if fd < 0 then WARN else ERROR)"

definition afterClose :: "int \<Rightarrow> 'z process_scheme \<Rightarrow> 'z process_scheme" where
  "afterClose fd s = s\<lparr>
     trace := trace s @ (if fd < 0 then [] else [SysClose fd]),
     envIx := (if fd < 0 then envIx s else Suc (envIx s)),
     errno := (if closeLogs fd s then 0
               else if fd < 0 then errno s
               else if a_ret (nextAns s) < 0 then a_err (nextAns s) else errno s),
     logOut := logOut s @ (if closeLogs fd s then [if fd < 0 then WARN else ERROR] else [])\<rparr>"

lemma ISocket_close_eq: "ISocket_close fd s = Inr (closeResult fd (nextAns s), afterClose fd s)"
  by (cases s) (simp add: ISocket_close_def stmt_defs sysRet_eq closeResult_def afterClose_def
    closeLogs_def logged_def afterSys_def nextAns_def)

lemma afterClose_frame [simp]:
  "trace (afterClose fd s) = trace s @ (if fd < 0 then [] else [SysClose fd])"
  "g_logLevel (afterClose fd s) = g_logLevel s"
  "curTid (afterClose fd s) = curTid s"
  "env (afterClose fd s) = env s"
  by (simp_all add: afterClose_def)

lemma ISocket_shutdownWrite_eq:
  "ISocket_shutdownWrite fd s = Inr (if a_ret (nextAns s) < 0
     then logged ERROR (afterSys (SysShutdownWr fd) s) else afterSys (SysShutdownWr fd) s)"
  by (simp add: ISocket_shutdownWrite_def stmt_defs sysRet_eq)

lemma kernelStep_afterClose [simp]: "kernelStep s (afterClose fd s)"
  by (cases s) (simp add: kernelStep_def afterClose_def)

section \<open>The sockets of the process\<close>

text \<open>The sockets that are open after a trace: those \<^verbatim>\<open>socket\<close> or \<^verbatim>\<open>accept\<close> returned and \<^verbatim>\<open>close\<close> has not taken.\<close>

fun socketStep :: "int set \<Rightarrow> syscall \<Rightarrow> int set" where
  "socketStep S (SysSocket d fd) = (if fd < 0 then S else insert fd S)"
| "socketStep S (SysAccept d fd) = (if fd < 0 then S else insert fd S)"
| "socketStep S (SysClose fd) = S - {fd}"
| "socketStep S c = S"

definition sockets :: "syscall list \<Rightarrow> int set" where
  "sockets = foldl socketStep {}"

lemma sockets_simps [simp]: "sockets [] = {}" "sockets (tr @ [c]) = socketStep (sockets tr) c"
  by (simp_all add: sockets_def)

text \<open>Calls that neither register nor open nor close anything.\<close>

fun plain :: "syscall \<Rightarrow> bool" where
  "plain (SysEpollCtl op fd ev p) = False"
| "plain (SysSocket d fd) = False"
| "plain (SysAccept d fd) = False"
| "plain (SysClose fd) = False"
| "plain c = True"

fun isCtl :: "syscall \<Rightarrow> bool" where
  "isCtl (SysEpollCtl op fd ev p) = True"
| "isCtl c = False"

lemma plain_noCtl: "plain c \<Longrightarrow> \<not> isCtl c"
  by (cases c) simp_all

lemma sockets_same: "\<forall>c \<in> set tr. plain c \<or> isCtl c \<Longrightarrow> sockets (tr0 @ tr) = sockets tr0"
proof (induction tr rule: rev_induct)
  case (snoc c tr)
  then have "sockets ((tr0 @ tr) @ [c]) = sockets (tr0 @ tr)"
    unfolding sockets_simps by (cases c) simp_all
  with snoc show ?case by simp
qed simp

text \<open>A step of the process through plain calls only.\<close>

definition plainStep :: "'z process_scheme \<Rightarrow> 'z process_scheme \<Rightarrow> bool" where
  "plainStep s s' \<longleftrightarrow> kernelStep s s' \<and> (\<exists>tr. trace s' = trace s @ tr \<and> (\<forall>c \<in> set tr. plain c))"

lemma plainStepE:
  assumes "plainStep s s'"
  obtains tr ix e lo where "s' = s\<lparr>trace := trace s @ tr, envIx := ix, errno := e, logOut := lo\<rparr>" "\<forall>c \<in> set tr. plain c"
  using assms by (cases s; cases s') (auto simp: plainStep_def kernelStep_def)

lemma plainStep_kernel: "plainStep s s' \<Longrightarrow> kernelStep s s'"
  by (simp add: plainStep_def)

lemma plainStep_more:
  assumes "plainStep s t"
  shows "plain c \<Longrightarrow> plainStep s (afterSys c t)" "plainStep s (logged l t)"
proof -
  obtain tr where tr: "trace t = trace s @ tr" "\<forall>c \<in> set tr. plain c" "kernelStep s t" using assms by (auto simp: plainStep_def)
  show "plain c \<Longrightarrow> plainStep s (afterSys c t)"
    using tr kernelStep_trans[OF tr(3) kernelStep_afterSys] by (auto simp: plainStep_def intro: exI[of _ "tr @ [c]"])
  show "plainStep s (logged l t)" using tr kernelStep_trans[OF tr(3) kernelStep_logged] by (auto simp: plainStep_def)
qed

lemma plainStep_refl [simp]: "plainStep s s"
  by (simp add: plainStep_def)

end
