(* ===== verification/Buffer.thy ===== *)
theory Buffer
  imports ByteOrder ByteQueue ISocket
begin

text \<open>
  src/net/Buffer.h and Buffer.cpp: the growing byte queue every connection reads into and
  writes from. \<open>bdata\<close> is the array behind \<^verbatim>\<open>_data\<close>, \<open>bsize\<close>, \<open>bwriter\<close>, \<open>breader\<close> are \<^verbatim>\<open>_size\<close>,
  \<^verbatim>\<open>_writerIndex\<close>, \<^verbatim>\<open>_readerIndex\<close>. Sizes are natural numbers: an array is never larger than the
  address space, so no sum of sizes here reaches \<open>2 ^ 64\<close>. The indeterminate bytes of a fresh
  array are zeros; \<open>content\<close> and the refinement lemmas below show that they are never visible.
  \<^verbatim>\<open>std::copy\<close> is the element loop, which fails when an index leaves its array.
\<close>

section \<open>std::copy\<close>

text \<open>\<open>copyTo src f l dst k\<close>: copy \<open>src[f..<l]\<close> to \<open>dst\<close> from index \<open>k\<close> on.\<close>

function copyTo :: "byte list \<Rightarrow> nat \<Rightarrow> nat \<Rightarrow> byte list \<Rightarrow> nat \<Rightarrow> byte list outcome" where
  "copyTo src f l dst k =
     (if f < l then
        if f < length src \<and> k < length dst then copyTo src (Suc f) l (dst[k := src ! f]) (Suc k)
        else Inl (OutOfBounds ''std::copy'')
      else Inr dst)"
  by pat_completeness auto
termination
  by (relation "measure (\<lambda>(src, f, l, dst, k). l - f)") auto

text \<open>The same loop within one array.\<close>

function copyWithin :: "byte list \<Rightarrow> nat \<Rightarrow> nat \<Rightarrow> nat \<Rightarrow> byte list outcome" where
  "copyWithin arr f l k =
     (if f < l then
        if f < length arr \<and> k < length arr then copyWithin (arr[k := arr ! f]) (Suc f) l (Suc k)
        else Inl (OutOfBounds ''std::copy'')
      else Inr arr)"
  by pat_completeness auto
termination
  by (relation "measure (\<lambda>(arr, f, l, k). l - f)") auto

declare copyTo.simps [simp del] copyWithin.simps [simp del]

lemma copyTo_eq:
  assumes "f \<le> l" "l \<le> length src" "k + (l - f) \<le> length dst"
  shows "copyTo src f l dst k =
    Inr (take k dst @ take (l - f) (drop f src) @ drop (k + (l - f)) dst)"
  using assms
proof (induction src f l dst k rule: copyTo.induct)
  case (1 src f l dst k)
  show ?case
  proof (cases "f < l")
    case True
    then have "l - f = Suc (l - Suc f)" by simp
    with True 1 show ?thesis
      by (subst copyTo.simps) (simp add: take_drop_Suc take_Suc_update)
  next
    case False
    with 1 show ?thesis by (subst copyTo.simps) simp
  qed
qed

text \<open>Moving to the front of the same array is a block move, although the regions overlap.\<close>

lemma copyWithin_eq:
  assumes "f \<le> l" "l \<le> length arr" "k \<le> f"
  shows "copyWithin arr f l k =
    Inr (take k arr @ take (l - f) (drop f arr) @ drop (k + (l - f)) arr)"
  using assms
proof (induction arr f l k rule: copyWithin.induct)
  case (1 arr f l k)
  show ?case
  proof (cases "f < l")
    case True
    then have "l - f = Suc (l - Suc f)" by simp
    with True 1 show ?thesis
      by (subst copyWithin.simps) (simp add: take_drop_Suc take_Suc_update)
  next
    case False
    with 1 show ?thesis by (subst copyWithin.simps) simp
  qed
qed

section \<open>The class\<close>

record buffer =
  bdata :: "byte list"
  bsize :: nat
  bwriter :: nat
  breader :: nat

definition kInitSize :: nat where
  "kInitSize = 1024"

definition mkBuffer :: "nat \<Rightarrow> buffer" where
  "mkBuffer initSize =
     \<lparr>bdata = replicate initSize 0, bsize = initSize, bwriter = 0, breader = 0\<rparr>"

text \<open>The bytes from the pointer that \<^verbatim>\<open>peek()\<close> returns to the end of the array.\<close>

definition peek :: "buffer \<Rightarrow> byte list" where
  "peek b = drop (breader b) (bdata b)"

definition readableBytes :: "buffer \<Rightarrow> nat outcome" where
  "readableBytes b =
     (if breader b \<le> bwriter b then Inr (bwriter b - breader b)
      else Inl (AssertFailed ''readableBytes''))"

definition retrieveAll :: "buffer \<Rightarrow> buffer" where
  "retrieveAll b = b\<lparr>breader := 0, bwriter := 0\<rparr>"

definition retrieveAllAsString :: "buffer \<Rightarrow> (byte list \<times> buffer) outcome" where
  "retrieveAllAsString b = andThen (readableBytes b) (\<lambda>n.
     Inr (take n (peek b), retrieveAll b))"

definition retrieve :: "nat \<Rightarrow> buffer \<Rightarrow> buffer outcome" where
  "retrieve n b = andThen (readableBytes b) (\<lambda>m.
     if \<not> n \<le> m then Inl (AssertFailed ''retrieve'')
     else if n < m then Inr (b\<lparr>breader := breader b + n\<rparr>)
     else Inr (retrieveAll b))"

definition writableBytes :: "buffer \<Rightarrow> nat outcome" where
  "writableBytes b =
     (if bwriter b \<le> bsize b then Inr (bsize b - bwriter b)
      else Inl (AssertFailed ''writableBytes''))"

definition alreadyReadBytes :: "buffer \<Rightarrow> nat" where
  "alreadyReadBytes b = breader b"

definition ensureWritableBytes :: "nat \<Rightarrow> buffer \<Rightarrow> buffer outcome" where
  "ensureWritableBytes len b = andThen (writableBytes b) (\<lambda>writable.
     if len \<le> writable then Inr b
     else andThen (readableBytes b) (\<lambda>readable.
       if alreadyReadBytes b + writable \<ge> len then
         andThen (copyWithin (bdata b) (breader b) (bwriter b) 0) (\<lambda>d.
           Inr (b\<lparr>bdata := d, breader := 0, bwriter := readable\<rparr>))
       else
         (let newSize = max (bsize b * 2) (readable + len) in
          andThen (copyTo (bdata b) (breader b) (bwriter b) (replicate newSize 0) 0) (\<lambda>newData.
            Inr (b\<lparr>bwriter := readable, breader := 0, bdata := newData, bsize := newSize\<rparr>)))))"

definition append_bytes :: "byte list \<Rightarrow> buffer \<Rightarrow> buffer outcome" where
  "append_bytes xs b = andThen (ensureWritableBytes (length xs) b) (\<lambda>b.
     andThen (copyTo xs 0 (length xs) (bdata b) (bwriter b)) (\<lambda>d.
       Inr (b\<lparr>bdata := d, bwriter := bwriter b + length xs\<rparr>)))"

section \<open>Invariant and abstraction\<close>

definition buf_wf :: "buffer \<Rightarrow> bool" where
  "buf_wf b \<longleftrightarrow> breader b \<le> bwriter b \<and> bwriter b \<le> bsize b \<and> length (bdata b) = bsize b"

text \<open>The readable bytes, oldest first: all that a user of the class can see.\<close>

definition content :: "buffer \<Rightarrow> byte list" where
  "content b = take (bwriter b - breader b) (drop (breader b) (bdata b))"

named_theorems buf_simps \<open>the operations on well-formed buffers\<close>

lemma length_content: "buf_wf b \<Longrightarrow> length (content b) = bwriter b - breader b"
  by (auto simp: buf_wf_def content_def)

lemma buf_wf_mkBuffer [simp, intro]: "buf_wf (mkBuffer n)"
  by (simp add: buf_wf_def mkBuffer_def)

lemma content_mkBuffer [simp]: "content (mkBuffer n) = []"
  by (simp add: content_def mkBuffer_def)

lemma readableBytes_eq [buf_simps]: "buf_wf b \<Longrightarrow> readableBytes b = Inr (length (content b))"
  by (auto simp: readableBytes_def length_content buf_wf_def)

lemma writableBytes_eq [buf_simps]: "buf_wf b \<Longrightarrow> writableBytes b = Inr (bsize b - bwriter b)"
  by (auto simp: writableBytes_def buf_wf_def)

lemma take_peek: "buf_wf b \<Longrightarrow> take (length (content b)) (peek b) = content b"
  by (simp add: length_content) (simp add: peek_def content_def)

lemma take_peek_le: "buf_wf b \<Longrightarrow> n \<le> length (content b) \<Longrightarrow> take n (peek b) = take n (content b)"
  by (simp add: length_content) (simp add: peek_def content_def)

text \<open>Both ways of making room put the readable bytes at the front of the array.\<close>

lemma content_front:
  "content (b\<lparr>bdata := c @ r, breader := 0, bwriter := length c\<rparr>) = c"
  "content (b\<lparr>bwriter := length c, breader := 0, bdata := c @ r, bsize := n\<rparr>) = c"
  by (simp_all add: content_def)

lemma retrieveAll_wf [simp, intro]: "buf_wf b \<Longrightarrow> buf_wf (retrieveAll b)"
  by (simp add: buf_wf_def retrieveAll_def)

lemma content_retrieveAll [simp]: "content (retrieveAll b) = []"
  by (simp add: content_def retrieveAll_def)

lemma retrieve_ok:
  assumes "buf_wf b" "n \<le> length (content b)"
  obtains b' where "retrieve n b = Inr b'" "buf_wf b'" "content b' = drop n (content b)"
    "bsize b' = bsize b"
proof (cases "n < length (content b)")
  case True
  let ?b = "b\<lparr>breader := breader b + n\<rparr>"
  have n: "n < bwriter b - breader b" using True assms(1) by (simp add: length_content)
  have "retrieve n b = Inr ?b"
    using True assms by (simp add: retrieve_def buf_simps)
  moreover have "buf_wf ?b" using assms n by (auto simp: buf_wf_def)
  moreover have "content ?b = drop n (content b)"
    by (simp add: content_def drop_take add.commute)
  ultimately show thesis using that by simp
next
  case False
  with assms have "retrieve n b = Inr (retrieveAll b)" "drop n (content b) = []"
    by (simp_all add: retrieve_def buf_simps)
  then show thesis using that[of "retrieveAll b"] assms by (simp add: retrieveAll_def buf_wf_def content_def)
qed

lemma retrieve_too_much:
  "buf_wf b \<Longrightarrow> length (content b) < n \<Longrightarrow> retrieve n b = Inl (AssertFailed ''retrieve'')"
  by (simp add: retrieve_def buf_simps)

lemma ensureWritableBytes_ok:
  assumes wf: "buf_wf b"
  obtains b' where "ensureWritableBytes len b = Inr b'" "buf_wf b'" "content b' = content b"
    "len \<le> bsize b' - bwriter b'"
    "bsize b' = (if breader b + (bsize b - bwriter b) \<ge> len then bsize b
                 else max (bsize b * 2) (length (content b) + len))"
proof -
  let ?r = "breader b" and ?w = "bwriter b"
  have le: "?r \<le> ?w" "?w \<le> bsize b" "length (bdata b) = bsize b"
    using wf by (auto simp: buf_wf_def)
  have lc: "length (content b) = ?w - ?r" using wf by (rule length_content)
  consider (fits) "len \<le> bsize b - ?w"
    | (move) "\<not> len \<le> bsize b - ?w" "?r + (bsize b - ?w) \<ge> len"
    | (grow) "\<not> ?r + (bsize b - ?w) \<ge> len" by linarith
  then show thesis
  proof cases
    case fits
    then show thesis using that[of b] wf by (simp add: ensureWritableBytes_def buf_simps)
  next
    case move
    let ?d = "content b @ drop (?w - ?r) (bdata b)"
    have "copyWithin (bdata b) ?r ?w 0 = Inr ?d"
      using le by (simp add: copyWithin_eq content_def)
    with move wf have "ensureWritableBytes len b =
        Inr (b\<lparr>bdata := ?d, breader := 0, bwriter := length (content b)\<rparr>)"
      by (simp add: ensureWritableBytes_def buf_simps alreadyReadBytes_def)
    moreover have "buf_wf (b\<lparr>bdata := ?d, breader := 0, bwriter := length (content b)\<rparr>)"
      using le lc by (simp add: buf_wf_def)
    moreover have "len \<le> bsize b - length (content b)" using move le lc by linarith
    ultimately show thesis using that[OF _ _ content_front(1)] move(2) by simp
  next
    case grow
    let ?n = "max (bsize b * 2) (length (content b) + len)"
    let ?d = "content b @ drop (length (content b)) (replicate ?n 0)"
    let ?b = "b\<lparr>bwriter := length (content b), breader := 0, bdata := ?d, bsize := ?n\<rparr>"
    have "copyTo (bdata b) ?r ?w (replicate ?n 0) 0 = Inr ?d"
      using le by (simp add: copyTo_eq content_def)
    with grow wf have "ensureWritableBytes len b = Inr ?b"
      by (simp add: ensureWritableBytes_def buf_simps alreadyReadBytes_def Let_def)
    moreover have "buf_wf ?b" by (simp add: buf_wf_def)
    moreover have "content ?b = content b" by (simp only: content_front)
    moreover have "len \<le> bsize ?b - bwriter ?b" by simp
    moreover have "bsize ?b = (if ?r + (bsize b - ?w) \<ge> len then bsize b else ?n)"
      using grow by simp
    ultimately show thesis by (rule that)
  qed
qed

lemma append_bytes_ok:
  assumes wf: "buf_wf b"
  obtains b' where "append_bytes xs b = Inr b'" "buf_wf b'" "content b' = content b @ xs"
    "bsize b' = (if breader b + (bsize b - bwriter b) \<ge> length xs then bsize b
                 else max (bsize b * 2) (length (content b) + length xs))"
proof -
  from wf obtain c where c: "ensureWritableBytes (length xs) b = Inr c" "buf_wf c"
    "content c = content b" "length xs \<le> bsize c - bwriter c"
    "bsize c = (if breader b + (bsize b - bwriter b) \<ge> length xs then bsize b
                 else max (bsize b * 2) (length (content b) + length xs))"
    by (rule ensureWritableBytes_ok)
  let ?w = "bwriter c"
  have le: "breader c \<le> ?w" "?w \<le> bsize c" "length (bdata c) = bsize c"
    using c(2) by (auto simp: buf_wf_def)
  let ?d = "take ?w (bdata c) @ xs @ drop (?w + length xs) (bdata c)"
  let ?b = "c\<lparr>bdata := ?d, bwriter := ?w + length xs\<rparr>"
  have "copyTo xs 0 (length xs) (bdata c) ?w = Inr ?d"
    using le c(4) by (simp add: copyTo_eq)
  with c(1) have "append_bytes xs b = Inr ?b" by (simp add: append_bytes_def)
  moreover have "buf_wf ?b" using le c(4) by (auto simp: buf_wf_def)
  moreover have "content ?b = content c @ xs"
    using le c(4) by (simp add: content_def drop_take)
  ultimately show thesis using that c(3,5) by simp
qed

section \<open>Integers in network byte order\<close>

text \<open>
  Signed values are the integers they denote; the conversions between \<^verbatim>\<open>intN_t\<close> and \<^verbatim>\<open>uintN_t\<close>
  are \<open>word_of_int\<close> and \<open>sint\<close>. The parameter of \<^verbatim>\<open>appendInt32\<close> and \<^verbatim>\<open>appendInt64\<close> is unsigned
  in the source.
\<close>

definition appendUint8 :: "8 word \<Rightarrow> buffer \<Rightarrow> buffer outcome" where
  "appendUint8 val = append_bytes (mem_bytes val)"

definition appendInt8 :: "int \<Rightarrow> buffer \<Rightarrow> buffer outcome" where
  "appendInt8 val = appendUint8 (word_of_int val)"

definition appendUint16 :: "16 word \<Rightarrow> buffer \<Rightarrow> buffer outcome" where
  "appendUint16 val = append_bytes (mem_bytes (htobe val))"

definition appendInt16 :: "int \<Rightarrow> buffer \<Rightarrow> buffer outcome" where
  "appendInt16 val = append_bytes (mem_bytes (htobe (word_of_int val :: 16 word)))"

definition appendUint32 :: "32 word \<Rightarrow> buffer \<Rightarrow> buffer outcome" where
  "appendUint32 val = append_bytes (mem_bytes (htobe val))"

definition appendInt32 :: "32 word \<Rightarrow> buffer \<Rightarrow> buffer outcome" where
  "appendInt32 val = append_bytes (mem_bytes (htobe val))"

definition appendUint64 :: "64 word \<Rightarrow> buffer \<Rightarrow> buffer outcome" where
  "appendUint64 val = append_bytes (mem_bytes (htobe val))"

definition appendInt64 :: "64 word \<Rightarrow> buffer \<Rightarrow> buffer outcome" where
  "appendInt64 val = append_bytes (mem_bytes (htobe val))"

text \<open>The common part of the readers: assert that the bytes are there and copy them out.\<close>

definition peekRaw :: "buffer \<Rightarrow> 'a::len word outcome" where
  "peekRaw b = andThen (readableBytes b) (\<lambda>m.
     if sizeof (0 :: 'a word) \<le> m then Inr (of_mem (take (sizeof (0 :: 'a word)) (peek b)))
     else Inl (AssertFailed ''peek''))"

definition peekUint8 :: "buffer \<Rightarrow> 8 word outcome" where
  "peekUint8 b = peekRaw b"

definition peekInt8 :: "buffer \<Rightarrow> int outcome" where
  "peekInt8 b = andThen (peekUint8 b) (\<lambda>v. Inr (sint v))"

definition peekUint16 :: "buffer \<Rightarrow> 16 word outcome" where
  "peekUint16 b = andThen (peekRaw b) (\<lambda>v. Inr (betoh v))"

text \<open>\<^verbatim>\<open>peekInt16\<close> calls itself: \<open>None\<close> is a call that does not return.\<close>

partial_function (option) peekInt16 :: "buffer \<Rightarrow> int outcome option" where
  "peekInt16 b = peekInt16 b"

definition peekUint32 :: "buffer \<Rightarrow> 32 word outcome" where
  "peekUint32 b = andThen (peekRaw b) (\<lambda>v. Inr (betoh v))"

definition peekInt32 :: "buffer \<Rightarrow> int outcome" where
  "peekInt32 b = andThen (peekUint32 b) (\<lambda>v. Inr (sint v))"

definition peekUint64 :: "buffer \<Rightarrow> 64 word outcome" where
  "peekUint64 b = andThen (peekRaw b) (\<lambda>v. Inr (betoh v))"

definition peekInt64 :: "buffer \<Rightarrow> int outcome" where
  "peekInt64 b = andThen (peekUint64 b) (\<lambda>v. Inr (sint v))"

definition readUint8 :: "buffer \<Rightarrow> (8 word \<times> buffer) outcome" where
  "readUint8 b = andThen (peekUint8 b) (\<lambda>val.
     andThen (retrieve (sizeof val) b) (\<lambda>b'. Inr (val, b')))"

definition readInt8 :: "buffer \<Rightarrow> (int \<times> buffer) outcome" where
  "readInt8 b = andThen (readUint8 b) (\<lambda>(v, b'). Inr (sint v, b'))"

definition readUint16 :: "buffer \<Rightarrow> (16 word \<times> buffer) outcome" where
  "readUint16 b = andThen (peekUint16 b) (\<lambda>val.
     andThen (retrieve (sizeof val) b) (\<lambda>b'. Inr (val, b')))"

definition readInt16 :: "buffer \<Rightarrow> (int \<times> buffer) outcome" where
  "readInt16 b = andThen (readUint16 b) (\<lambda>(v, b'). Inr (sint v, b'))"

definition readUint32 :: "buffer \<Rightarrow> (32 word \<times> buffer) outcome" where
  "readUint32 b = andThen (peekUint32 b) (\<lambda>val.
     andThen (retrieve (sizeof val) b) (\<lambda>b'. Inr (val, b')))"

definition readInt32 :: "buffer \<Rightarrow> (int \<times> buffer) outcome" where
  "readInt32 b = andThen (readUint32 b) (\<lambda>(v, b'). Inr (sint v, b'))"

definition readUint64 :: "buffer \<Rightarrow> (64 word \<times> buffer) outcome" where
  "readUint64 b = andThen (peekUint64 b) (\<lambda>val.
     andThen (retrieve (sizeof val) b) (\<lambda>b'. Inr (val, b')))"

definition readInt64 :: "buffer \<Rightarrow> (int \<times> buffer) outcome" where
  "readInt64 b = andThen (readUint64 b) (\<lambda>(v, b'). Inr (sint v, b'))"

named_theorems int_defs \<open>the integer readers and writers\<close>

declare appendUint8_def [int_defs] appendInt8_def [int_defs] appendUint16_def [int_defs]
  appendInt16_def [int_defs] appendUint32_def [int_defs] appendInt32_def [int_defs]
  appendUint64_def [int_defs] appendInt64_def [int_defs]
  peekUint8_def [int_defs] peekUint16_def [int_defs] peekUint32_def [int_defs]
  peekUint64_def [int_defs] readUint8_def [int_defs] readUint16_def [int_defs]
  readUint32_def [int_defs] readUint64_def [int_defs] readInt8_def [int_defs]
  readInt16_def [int_defs] readInt32_def [int_defs] readInt64_def [int_defs]

lemma peekInt16_diverges: "peekInt16 b = None"
proof (cases "peekInt16 b")
  case (Some r)
  have False
    by (rule peekInt16.raw_induct[where P = "\<lambda>_ _. False", OF _ Some]) blast
  then show ?thesis ..
qed simp

lemma peekRaw_eq:
  assumes "buf_wf b" "8 dvd LENGTH('a)" "content b = mem_bytes (w :: 'a::len word) @ rest"
  shows "peekRaw b = Inr w"
proof -
  have "sizeof w \<le> length (content b)" using assms(3) by simp
  then have "take (sizeof w) (peek b) = mem_bytes w"
    using assms by (simp add: take_peek_le)
  with assms show ?thesis by (simp add: peekRaw_def buf_simps sizeof_def)
qed

lemma peekRaw_short:
  "buf_wf b \<Longrightarrow> length (content b) < sizeof (0 :: 'a::len word) \<Longrightarrow>
     (peekRaw b :: 'a word outcome) = Inl (AssertFailed ''peek'')"
  by (simp add: peekRaw_def buf_simps)

text \<open>One reader after its writer, for every width: the value comes back and its bytes go.\<close>

lemma retrieve_prefix:
  assumes "buf_wf b" "content b = xs @ rest"
  obtains b' where "retrieve (length xs) b = Inr b'" "buf_wf b'" "content b' = rest"
  using retrieve_ok[OF assms(1), of "length xs"] assms(2) by auto

lemma read_be_eq:
  assumes "buf_wf b" "8 dvd LENGTH('a)"
    and "content b = mem_bytes (htobe (v :: 'a::len word)) @ rest"
  obtains b' where "peekRaw b = Inr (htobe v)" "retrieve (sizeof v) b = Inr b'"
    "buf_wf b'" "content b' = rest"
proof -
  obtain b' where "retrieve (length (mem_bytes (htobe v))) b = Inr b'" "buf_wf b'" "content b' = rest"
    by (rule retrieve_prefix[OF assms(1,3)])
  then show thesis using that peekRaw_eq[OF assms] by (simp add: sizeof_def)
qed

lemma readUint8_ok:
  assumes "buf_wf b" "content b = mem_bytes (v :: 8 word) @ rest"
  obtains b' where "readUint8 b = Inr (v, b')" "buf_wf b'" "content b' = rest"
proof -
  obtain b' where b': "retrieve (length (mem_bytes v)) b = Inr b'" "buf_wf b'" "content b' = rest"
    by (rule retrieve_prefix[OF assms])
  have "peekUint8 b = Inr v"
    using assms by (auto simp: peekUint8_def intro!: peekRaw_eq)
  then show thesis using that b' by (simp add: readUint8_def)
qed

lemma readUint16_ok:
  assumes "buf_wf b" "content b = mem_bytes (htobe (v :: 16 word)) @ rest"
  obtains b' where "readUint16 b = Inr (v, b')" "buf_wf b'" "content b' = rest"
  by (rule read_be_eq[OF assms(1) _ assms(2)])
    (auto simp: int_defs intro: that)

lemma readUint32_ok:
  assumes "buf_wf b" "content b = mem_bytes (htobe (v :: 32 word)) @ rest"
  obtains b' where "readUint32 b = Inr (v, b')" "buf_wf b'" "content b' = rest"
  by (rule read_be_eq[OF assms(1) _ assms(2)])
    (auto simp: int_defs intro: that)

lemma readUint64_ok:
  assumes "buf_wf b" "content b = mem_bytes (htobe (v :: 64 word)) @ rest"
  obtains b' where "readUint64 b = Inr (v, b')" "buf_wf b'" "content b' = rest"
  by (rule read_be_eq[OF assms(1) _ assms(2)])
    (auto simp: int_defs intro: that)

lemma sint_of_int_range:
  assumes "- (2 ^ (LENGTH('a) - 1)) \<le> v" "v < 2 ^ (LENGTH('a) - 1)"
  shows "sint (word_of_int v :: 'a::len word) = v"
  using assms by (simp add: sint_sbintrunc' signed_take_bit_int_eq_self)

section \<open>Reading from a descriptor (Buffer.cpp)\<close>

text \<open>
  \<^verbatim>\<open>readv\<close> fills the writable part of the array first and the stack buffer \<^verbatim>\<open>extraBuffer\<close> of 65536
  bytes after it. The second buffer is passed only when the first is smaller than it.
\<close>

definition extraSize :: nat where
  "extraSize = 65536"

definition readCap :: "nat \<Rightarrow> nat" where
  "readCap writable =
     (let iovcnt = (if writable < extraSize then 2 else 1 :: nat) in
      writable + (if iovcnt = 2 then extraSize else 0))"

definition scatter :: "nat \<Rightarrow> byte list \<Rightarrow> buffer \<Rightarrow> buffer" where
  "scatter writable xs b =
     (let ys = take writable xs in
      b\<lparr>bdata := take (bwriter b) (bdata b) @ ys @ drop (bwriter b + length ys) (bdata b)\<rparr>)"

definition advance :: "nat \<Rightarrow> byte list \<Rightarrow> buffer \<Rightarrow> buffer outcome" where
  "advance writable xs b =
     (if length xs \<le> writable then Inr (b\<lparr>bwriter := bwriter b + length xs\<rparr>)
      else append_bytes (drop writable xs) (b\<lparr>bwriter := bsize b\<rparr>))"

definition readFd ::
  "int \<Rightarrow> buffer \<Rightarrow> 'z process_scheme \<Rightarrow> (int \<times> buffer \<times> 'z process_scheme) outcome" where
  "readFd fd b s = andThen (writableBytes b) (\<lambda>writable.
     (let cap = readCap writable in
      case ISocket_readv fd cap s of ((n, xs), s1) \<Rightarrow>
      (let b1 = scatter writable xs b in
       if n < 0 then
         andThen (LOG ERROR s1) (\<lambda>s2.
           case ISocket_readv fd cap s2 of ((m, ys), s3) \<Rightarrow>
           (let b2 = scatter writable ys b1 in
            if m \<ge> 0 then andThen (advance writable ys b2) (\<lambda>b3. Inr (n, b3, s3))
            else andThen (LOG ERROR s3) (\<lambda>s4. Inr (n, b2, s4))))
       else andThen (advance writable xs b1) (\<lambda>b2. Inr (n, b2, s1)))))"

lemma scatter_Nil [simp]: "scatter k [] b = b"
  by (simp add: scatter_def)

lemma scatter_advance_ok:
  assumes wf: "buf_wf b"
  obtains b' where "advance (bsize b - bwriter b) xs (scatter (bsize b - bwriter b) xs b) = Inr b'"
    "buf_wf b'" "content b' = content b @ xs"
proof -
  let ?k = "bsize b - bwriter b" and ?c = "scatter (bsize b - bwriter b) xs b"
  have le: "breader b \<le> bwriter b" "bwriter b \<le> bsize b" "length (bdata b) = bsize b"
    using wf by (auto simp: buf_wf_def)
  have l: "length (bdata ?c) = bsize b" using le by (simp add: scatter_def Let_def)
  show thesis
  proof (cases "length xs \<le> ?k")
    case True
    let ?d = "?c\<lparr>bwriter := bwriter b + length xs\<rparr>"
    have "buf_wf ?d" using l le True by (simp add: buf_wf_def scatter_def Let_def)
    moreover have "content ?d = content b @ xs"
      using le True by (simp add: content_def scatter_def drop_take)
    ultimately show thesis using that True by (simp add: advance_def scatter_def Let_def)
  next
    case False
    let ?d = "?c\<lparr>bwriter := bsize b\<rparr>"
    have "buf_wf ?d" using l le by (simp add: buf_wf_def scatter_def Let_def)
    moreover have "content ?d = content b @ take ?k xs"
      using le False by (simp add: content_def scatter_def drop_take)
    ultimately obtain e where "append_bytes (drop ?k xs) ?d = Inr e" "buf_wf e"
      "content e = content b @ xs"
      using append_bytes_ok[of ?d "drop ?k xs"] by (metis append_assoc append_take_drop_id)
    then show thesis using that False by (simp add: advance_def scatter_def Let_def)
  qed
qed

text \<open>The bytes a call takes from the descriptor, at the first attempt or at the retry.\<close>

definition readFdFirst :: "buffer \<Rightarrow> 'z process_scheme \<Rightarrow> byte list option" where
  "readFdFirst b s = readResult (readCap (bsize b - bwriter b)) (nextAns s)"

definition readFdRetry :: "buffer \<Rightarrow> 'z process_scheme \<Rightarrow> byte list option" where
  "readFdRetry b s = readResult (readCap (bsize b - bwriter b)) (env s (Suc (envIx s)))"

definition readFdTaken :: "buffer \<Rightarrow> 'z process_scheme \<Rightarrow> byte list" where
  "readFdTaken b s = (case readFdFirst b s of Some xs \<Rightarrow> xs
     | None \<Rightarrow> (case readFdRetry b s of Some ys \<Rightarrow> ys | None \<Rightarrow> []))"

lemma readFd_ok:
  assumes wf: "buf_wf b"
  obtains b' s' where
    "readFd fd b s = Inr (case readFdFirst b s of Some xs \<Rightarrow> int (length xs) | None \<Rightarrow> - 1, b', s')"
    "buf_wf b'" "content b' = content b @ readFdTaken b s" "kernelStep s s'"
proof (cases "readFdFirst b s")
  case (Some xs)
  obtain b' where b': "advance (bsize b - bwriter b) xs (scatter (bsize b - bwriter b) xs b) = Inr b'"
    "buf_wf b'" "content b' = content b @ xs"
    using wf by (rule scatter_advance_ok)
  have "readFd fd b s = Inr (int (length xs), b',
      afterSys (SysReadv fd (readCap (bsize b - bwriter b)) (Some xs)) s)"
    using Some wf b'(1) by (simp add: readFd_def buf_simps ISocket_readv_eq readFdFirst_def Let_def)
  then show thesis using that Some b'(2,3) by (simp add: readFdTaken_def)
next
  case None
  let ?cap = "readCap (bsize b - bwriter b)"
  let ?s2 = "logged ERROR (afterSys (SysReadv fd ?cap None) s)"
  have nxt: "nextAns ?s2 = env s (Suc (envIx s))" by (simp add: nextAns_def)
  have k2: "kernelStep s ?s2" by (meson kernelStep_trans kernelStep_logged kernelStep_afterSys)
  show thesis
  proof (cases "readFdRetry b s")
    case retry: (Some ys)
    obtain b' where b': "advance (bsize b - bwriter b) ys (scatter (bsize b - bwriter b) ys b) = Inr b'"
      "buf_wf b'" "content b' = content b @ ys"
      using wf by (rule scatter_advance_ok)
    let ?s3 = "afterSys (SysReadv fd ?cap (Some ys)) ?s2"
    have "readFd fd b s = Inr (- 1, b', ?s3)"
      using None retry wf b'(1)
      by (simp add: readFd_def buf_simps ISocket_readv_eq readFdFirst_def readFdRetry_def nxt Let_def)
    moreover have "kernelStep s ?s3" using k2 by (meson kernelStep_trans kernelStep_afterSys)
    ultimately show thesis using that None retry b'(2,3) by (simp add: readFdTaken_def)
  next
    case retry: None
    let ?s4 = "logged ERROR (afterSys (SysReadv fd ?cap None) ?s2)"
    have "readFd fd b s = Inr (- 1, b, ?s4)"
      using None retry wf
      by (simp add: readFd_def buf_simps ISocket_readv_eq readFdFirst_def readFdRetry_def nxt Let_def)
    moreover have "kernelStep s ?s4"
      using k2 by (meson kernelStep_trans kernelStep_logged kernelStep_afterSys)
    ultimately show thesis using that None retry wf by (simp add: readFdTaken_def)
  qed
qed

lemma readFd_appends':
  assumes "buf_wf b"
  shows "\<exists>b' s'. readFd fd b s =
      Inr (case readFdFirst b s of Some xs \<Rightarrow> int (length xs) | None \<Rightarrow> - 1, b', s') \<and>
    buf_wf b' \<and> content b' = content b @ readFdTaken b s \<and> kernelStep s s'"
  using readFd_ok[OF assms, of fd s] by metis

section \<open>The class as a byte queue\<close>

interpretation bq: byte_queue buf_wf content append_bytes retrieve
proof unfold_locales
  fix q :: buffer and xs n
  assume wf: "buf_wf q"
  show "\<exists>q'. append_bytes xs q = Inr q' \<and> buf_wf q' \<and> content q' = content q @ xs"
    using append_bytes_ok[OF wf] by metis
  show "\<exists>q'. retrieve n q = Inr q' \<and> buf_wf q' \<and> content q' = drop n (content q)"
    if "n \<le> length (content q)" using retrieve_ok[OF wf that] by metis
  show "\<exists>e. retrieve n q = Inl e" if "length (content q) < n"
    using retrieve_too_much[OF wf that] by blast
qed

text \<open>
  C10. The buffer is a first-in first-out byte queue: from any well-formed buffer, every sequence
  of appends and retrieves that never takes more than is readable succeeds without leaving the
  array, and the bytes taken out followed by the bytes still readable are exactly the bytes that
  were readable before followed by the bytes appended, through every move and reallocation.
\<close>

theorem buffer_fifo:
  assumes "buf_wf b" and "fits ops (length (content b))"
  shows "\<exists>out b'. runQ append_bytes retrieve content ops b = Inr (out, b') \<and> buf_wf b' \<and>
    content b @ puts ops = out @ content b'"
  using assms by (rule bq.run_total)

theorem buffer_fifo_witness:
  "\<exists>out b'. runQ append_bytes retrieve content [Put [1, 2, 3], Get 2, Put [4, 5, 6, 7], Get 4]
     (mkBuffer 4) = Inr (out, b') \<and> buf_wf b' \<and> [1, 2, 3, 4, 5, 6, 7] = out @ content b'"
  using buffer_fifo[of "mkBuffer 4" "[Put [1, 2, 3], Get 2, Put [4, 5, 6, 7], Get 4]"] by simp

text \<open>
  C20. Room is made the cheapest way: appending never fails on a well-formed buffer, the array
  keeps its size whenever the read and the writable part together have room for the new bytes,
  and grows otherwise to twice its size or to what is needed, whichever is more.
\<close>

theorem buffer_growth:
  assumes "buf_wf b"
  shows "\<exists>b'. append_bytes xs b = Inr b' \<and> buf_wf b' \<and> content b' = content b @ xs \<and>
    bsize b' = (if length (content b) + length xs \<le> bsize b then bsize b
                else max (bsize b * 2) (length (content b) + length xs))"
proof -
  have "breader b + (bsize b - bwriter b) \<ge> length xs \<longleftrightarrow> length (content b) + length xs \<le> bsize b"
    using assms length_content[OF assms] by (auto simp: buf_wf_def)
  then show ?thesis using append_bytes_ok[OF assms, of xs] by metis
qed

theorem buffer_growth_witness:
  "\<exists>b'. append_bytes [1, 2, 3, 4, 5] (mkBuffer 2) = Inr b' \<and> bsize b' = 5"
proof -
  have "bsize (mkBuffer 2) = 2" by (simp add: mkBuffer_def)
  then show ?thesis using buffer_growth[of "mkBuffer 2" "[1, 2, 3, 4, 5]"] by auto
qed

subsection \<open>Integers as a stream of values\<close>

text \<open>
  A value of one of the eight integer types, the writer and the reader of its type, the range of
  the type, and the bytes on the wire.
\<close>

datatype intval =
    U8 "8 word" | U16 "16 word" | U32 "32 word" | U64 "64 word"
  | I8 int | I16 int | I32 int | I64 int

fun writeVal :: "intval \<Rightarrow> buffer \<Rightarrow> buffer outcome" where
  "writeVal (U8 v) = appendUint8 v"
| "writeVal (U16 v) = appendUint16 v"
| "writeVal (U32 v) = appendUint32 v"
| "writeVal (U64 v) = appendUint64 v"
| "writeVal (I8 i) = appendInt8 i"
| "writeVal (I16 i) = appendInt16 i"
| "writeVal (I32 i) = appendInt32 (word_of_int i)"
| "writeVal (I64 i) = appendInt64 (word_of_int i)"

text \<open>The reader for the type of the given value; the value itself is not used.\<close>

fun readLike :: "intval \<Rightarrow> buffer \<Rightarrow> (intval \<times> buffer) outcome" where
  "readLike (U8 _) b = andThen (readUint8 b) (\<lambda>(v, b'). Inr (U8 v, b'))"
| "readLike (U16 _) b = andThen (readUint16 b) (\<lambda>(v, b'). Inr (U16 v, b'))"
| "readLike (U32 _) b = andThen (readUint32 b) (\<lambda>(v, b'). Inr (U32 v, b'))"
| "readLike (U64 _) b = andThen (readUint64 b) (\<lambda>(v, b'). Inr (U64 v, b'))"
| "readLike (I8 _) b = andThen (readInt8 b) (\<lambda>(v, b'). Inr (I8 v, b'))"
| "readLike (I16 _) b = andThen (readInt16 b) (\<lambda>(v, b'). Inr (I16 v, b'))"
| "readLike (I32 _) b = andThen (readInt32 b) (\<lambda>(v, b'). Inr (I32 v, b'))"
| "readLike (I64 _) b = andThen (readInt64 b) (\<lambda>(v, b'). Inr (I64 v, b'))"

fun inRange :: "intval \<Rightarrow> bool" where
  "inRange (I8 i) = (- (2 ^ 7) \<le> i \<and> i < 2 ^ 7)"
| "inRange (I16 i) = (- (2 ^ 15) \<le> i \<and> i < 2 ^ 15)"
| "inRange (I32 i) = (- (2 ^ 31) \<le> i \<and> i < 2 ^ 31)"
| "inRange (I64 i) = (- (2 ^ 63) \<le> i \<and> i < 2 ^ 63)"
| "inRange _ = True"

fun wire :: "intval \<Rightarrow> byte list" where
  "wire (U8 v) = mem_bytes v"
| "wire (U16 v) = mem_bytes (htobe v)"
| "wire (U32 v) = mem_bytes (htobe v)"
| "wire (U64 v) = mem_bytes (htobe v)"
| "wire (I8 i) = mem_bytes (word_of_int i :: 8 word)"
| "wire (I16 i) = mem_bytes (htobe (word_of_int i :: 16 word))"
| "wire (I32 i) = mem_bytes (htobe (word_of_int i :: 32 word))"
| "wire (I64 i) = mem_bytes (htobe (word_of_int i :: 64 word))"

lemma writeVal_eq: "writeVal v = append_bytes (wire v)"
  by (cases v) (simp_all add: int_defs)

lemma readLike_ok:
  assumes "buf_wf b" "content b = wire v @ rest" "inRange v"
  obtains b' where "readLike v b = Inr (v, b')" "buf_wf b'" "content b' = rest"
proof (cases v)
  case (U8 w)
  with assms obtain b' where "readUint8 b = Inr (w, b')" "buf_wf b'" "content b' = rest"
    by (auto elim: readUint8_ok)
  with U8 that show thesis by simp
next
  case (U16 w)
  with assms obtain b' where "readUint16 b = Inr (w, b')" "buf_wf b'" "content b' = rest"
    by (auto elim: readUint16_ok)
  with U16 that show thesis by simp
next
  case (U32 w)
  with assms obtain b' where "readUint32 b = Inr (w, b')" "buf_wf b'" "content b' = rest"
    by (auto elim: readUint32_ok)
  with U32 that show thesis by simp
next
  case (U64 w)
  with assms obtain b' where "readUint64 b = Inr (w, b')" "buf_wf b'" "content b' = rest"
    by (auto elim: readUint64_ok)
  with U64 that show thesis by simp
next
  case (I8 i)
  with assms obtain b' where "readUint8 b = Inr (word_of_int i, b')" "buf_wf b'" "content b' = rest"
    by (auto elim: readUint8_ok)
  with I8 that assms(3) show thesis by (simp add: readInt8_def sint_of_int_range)
next
  case (I16 i)
  with assms obtain b' where "readUint16 b = Inr (word_of_int i, b')" "buf_wf b'" "content b' = rest"
    by (auto elim: readUint16_ok)
  with I16 that assms(3) show thesis by (simp add: readInt16_def sint_of_int_range)
next
  case (I32 i)
  with assms obtain b' where "readUint32 b = Inr (word_of_int i, b')" "buf_wf b'" "content b' = rest"
    by (auto elim: readUint32_ok)
  with I32 that assms(3) show thesis by (simp add: readInt32_def sint_of_int_range)
next
  case (I64 i)
  with assms obtain b' where "readUint64 b = Inr (word_of_int i, b')" "buf_wf b'" "content b' = rest"
    by (auto elim: readUint64_ok)
  with I64 that assms(3) show thesis by (simp add: readInt64_def sint_of_int_range)
qed

fun writeAll :: "intval list \<Rightarrow> buffer \<Rightarrow> buffer outcome" where
  "writeAll [] b = Inr b"
| "writeAll (v # vs) b = andThen (writeVal v b) (writeAll vs)"

fun readAll :: "intval list \<Rightarrow> buffer \<Rightarrow> (intval list \<times> buffer) outcome" where
  "readAll [] b = Inr ([], b)"
| "readAll (v # vs) b = andThen (readLike v b) (\<lambda>(w, b').
     andThen (readAll vs b') (\<lambda>(ws, b''). Inr (w # ws, b'')))"

lemma writeAll_ok:
  "buf_wf b \<Longrightarrow> \<exists>b'. writeAll vs b = Inr b' \<and> buf_wf b' \<and> content b' = content b @ concat (map wire vs)"
proof (induction vs arbitrary: b)
  case Nil
  then show ?case by simp
next
  case (Cons v vs)
  then show ?case using bq.put_ok[of b "wire v"] by (fastforce simp: writeVal_eq)
qed

lemma readAll_ok:
  "buf_wf b \<Longrightarrow> content b = concat (map wire vs) @ rest \<Longrightarrow> list_all inRange vs \<Longrightarrow>
     \<exists>b'. readAll vs b = Inr (vs, b') \<and> buf_wf b' \<and> content b' = rest"
proof (induction vs arbitrary: b)
  case Nil
  then show ?case by simp
next
  case (Cons v vs)
  then obtain b1 where "readLike v b = Inr (v, b1)" "buf_wf b1"
    "content b1 = concat (map wire vs) @ rest"
    by (auto elim: readLike_ok)
  with Cons show ?case by fastforce
qed

text \<open>
  C12. Integers survive the trip through a buffer: any sequence of values of the eight types,
  appended to an empty buffer by the writers of their types, is what the readers of the same
  types return, in order, signed values included, and the buffer is empty again afterwards.
\<close>

theorem int_roundtrip:
  assumes "buf_wf b" and "content b = []" and "list_all inRange vs"
  shows "\<exists>b' b''. writeAll vs b = Inr b' \<and> readAll vs b' = Inr (vs, b'') \<and>
    buf_wf b'' \<and> content b'' = []"
proof -
  obtain b' where b': "writeAll vs b = Inr b'" "buf_wf b'" "content b' = concat (map wire vs) @ []"
    using writeAll_ok[OF assms(1), of vs] assms(2) by auto
  with readAll_ok[OF b'(2,3) assms(3)] show ?thesis by blast
qed

theorem int_roundtrip_witness:
  "\<exists>b' b''. writeAll [U32 12345, I16 (- 5432), U8 233, I64 (- 1)] (mkBuffer 1024) = Inr b' \<and>
     readAll [U32 12345, I16 (- 5432), U8 233, I64 (- 1)] b' =
       Inr ([U32 12345, I16 (- 5432), U8 233, I64 (- 1)], b'')"
  using int_roundtrip[of "mkBuffer 1024" "[U32 12345, I16 (- 5432), U8 233, I64 (- 1)]"] by auto

text \<open>
  The wire format is network byte order: a 32-bit value is appended as four bytes, the most
  significant first, whatever the buffer held.
\<close>

lemma uint32_network_order:
  assumes "buf_wf b"
  shows "\<exists>b'. appendUint32 v b = Inr b' \<and> buf_wf b' \<and> content b' = content b @
    [ucast (drop_bit 24 v), ucast (drop_bit 16 v), ucast (drop_bit 8 v), ucast v]"
proof -
  have "mem_bytes (htobe v) = [ucast (drop_bit 24 v), ucast (drop_bit 16 v), ucast (drop_bit 8 v), ucast v]"
    by (subst mem_bytes_htobe) (simp_all add: mem_bytes_def sizeof_def upt_rec)
  then show ?thesis using bq.put_ok[OF assms, of "mem_bytes (htobe v)"] by (simp add: appendUint32_def)
qed


text \<open>
  C14. \<^verbatim>\<open>readFd\<close> takes from the descriptor exactly what it appends: the bytes the kernel delivers,
  at the first \<^verbatim>\<open>readv\<close> or at the one retry after an error, end up behind the readable bytes, in
  the array and beyond it, and the call never fails. The result is the number of bytes of the
  first attempt, \<open>-1\<close> when that attempt failed.
\<close>

theorem readFd_appends:
  assumes "buf_wf b"
  shows "\<exists>b' s'. readFd fd b s =
      Inr (case readFdFirst b s of Some xs \<Rightarrow> int (length xs) | None \<Rightarrow> - 1, b', s') \<and>
    buf_wf b' \<and> content b' = content b @ readFdTaken b s \<and> kernelStep s s'"
  by (rule readFd_appends'[OF assms])

theorem readFd_appends_witness:
  "\<exists>b' s'. readFd 7 (mkBuffer 1) (startProcess (\<lambda>_. \<lparr>a_ret = 3, a_err = 0, a_payload = [1, 2, 3], a_events = []\<rparr>)
      (\<lambda>_. (0, 0))) = Inr (3, b', s') \<and> content b' = [1, 2, 3]"
  using readFd_appends[of "mkBuffer 1" 7 "startProcess (\<lambda>_. \<lparr>a_ret = 3, a_err = 0, a_payload = [1, 2, 3], a_events = []\<rparr>)
      (\<lambda>_. (0, 0))"]
  by (auto simp: readFdFirst_def readFdTaken_def readResult_def nextAns_def startProcess_def
      readCap_def extraSize_def)

text \<open>
  A successful retry is reported as a failure: when the first \<^verbatim>\<open>readv\<close> fails and the retry
  delivers bytes, the bytes are in the buffer and the result is \<open>-1\<close> all the same (the inner
  result shadows the outer one).
\<close>

lemma readFd_retry_lost:
  assumes "buf_wf b" and "readFdFirst b s = None" and "readFdRetry b s = Some xs"
  shows "\<exists>b' s'. readFd fd b s = Inr (- 1, b', s') \<and> content b' = content b @ xs"
proof -
  have "readFdTaken b s = xs" using assms(2,3) by (simp add: readFdTaken_def)
  with readFd_appends'[OF assms(1), of fd s] assms(2) show ?thesis by auto
qed

end
