(* ===== verification/Timestamp.thy ===== *)
theory Timestamp
  imports Process Format
begin

text \<open>
  src/base/Timestamp.h and Timestamp.cpp: microseconds since the epoch, held in an \<^verbatim>\<open>int64_t\<close>.
  A timestamp is the integer \<^verbatim>\<open>_usSinceEpoch\<close>; signed overflow is undefined behaviour in the
  source, and \<open>int64_ok\<close> names the values the type can hold.

  Seconds are \<^verbatim>\<open>double\<close>s. A finite double is \<open>Dbl m e\<close>, the number \<open>m * 2 ^ e\<close>; multiplication,
  division and the conversion from integers round to 53 significant bits, to nearest and ties
  to even, as IEEE 754 binary64 does (overflow to infinity and subnormal results do not occur
  for the magnitudes used here).
\<close>

section \<open>Doubles\<close>

datatype double = Dbl int int

text \<open>The number of binary digits, and the rounded quotient, of non-negative integers.\<close>

function bits :: "int \<Rightarrow> int" where
  "bits n = (if n \<le> 0 then 0 else 1 + bits (n div 2))"
  by pat_completeness auto
termination
  by (relation "measure nat") auto

declare bits.simps [simp del]

definition roundDiv :: "int \<Rightarrow> int \<Rightarrow> int" where
  "roundDiv n d = (let k = n div d; r = n mod d in
     if 2 * r < d \<or> 2 * r = d \<and> even k then k else k + 1)"

text \<open>\<open>roundQ p q e\<close>: the double nearest to \<open>(p / q) * 2 ^ e\<close>, for \<open>q > 0\<close>.\<close>

definition roundQ :: "int \<Rightarrow> int \<Rightarrow> int \<Rightarrow> double" where
  "roundQ p q e = (let n = abs p;
     s0 = bits n - bits q - 53;
     s = (if n * 2 ^ nat (- s0) \<ge> 2 ^ 53 * (q * 2 ^ nat s0) then s0 + 1 else s0)
   in if n = 0 then Dbl 0 0
      else Dbl (sgn p * roundDiv (n * 2 ^ nat (- s)) (q * 2 ^ nat s)) (e + s))"

definition doubleOfInt :: "int \<Rightarrow> double" where
  "doubleOfInt i = roundQ i 1 0"

fun doubleMul :: "double \<Rightarrow> double \<Rightarrow> double" where
  "doubleMul (Dbl m e) (Dbl n f) = roundQ (m * n) 1 (e + f)"

fun doubleDiv :: "double \<Rightarrow> double \<Rightarrow> double" where
  "doubleDiv (Dbl m e) (Dbl n f) = roundQ (m * sgn n) (abs n) (e - f)"

text \<open>\<^verbatim>\<open>static_cast<int64_t>\<close> of a double truncates toward zero.\<close>

fun doubleToInt :: "double \<Rightarrow> int" where
  "doubleToInt (Dbl m e) =
     (if e \<ge> 0 then m * 2 ^ nat e else sgn m * (abs m div 2 ^ nat (- e)))"

fun doublePos :: "double \<Rightarrow> bool" where
  "doublePos (Dbl m e) \<longleftrightarrow> m > 0"

section \<open>The class\<close>

type_synonym timestamp = int

definition int64_ok :: "int \<Rightarrow> bool" where
  "int64_ok i \<longleftrightarrow> - (2 ^ 63) \<le> i \<and> i < 2 ^ 63"

definition kMicroSecondsPerSecond :: int where
  "kMicroSecondsPerSecond = 1000000"

definition invalidTime :: timestamp where
  "invalidTime = 0"

definition valid :: "timestamp \<Rightarrow> bool" where
  "valid t \<longleftrightarrow> t > 0"

definition timestampLess :: "timestamp \<Rightarrow> timestamp \<Rightarrow> bool" where
  [simp]: "timestampLess lhs rhs \<longleftrightarrow> lhs < rhs"

definition timestampEq :: "timestamp \<Rightarrow> timestamp \<Rightarrow> bool" where
  [simp]: "timestampEq lhs rhs \<longleftrightarrow> lhs = rhs"

definition now :: "'z process_scheme \<Rightarrow> timestamp \<times> 'z process_scheme" where
  "now s = (case clock s (clockIx s) of (sec, usec) \<Rightarrow>
     (sec * kMicroSecondsPerSecond + usec, s\<lparr>clockIx := Suc (clockIx s)\<rparr>))"

definition timeDiff :: "timestamp \<Rightarrow> timestamp \<Rightarrow> double" where
  "timeDiff high low =
     doubleDiv (doubleOfInt (high - low)) (doubleOfInt kMicroSecondsPerSecond)"

definition addTime :: "double \<Rightarrow> timestamp \<Rightarrow> timestamp" where
  "addTime seconds t =
     t + doubleToInt (doubleMul seconds (doubleOfInt kMicroSecondsPerSecond))"

text \<open>Integer division of the source truncates toward zero.\<close>

definition cdiv :: "int \<Rightarrow> int \<Rightarrow> int" where
  "cdiv a b = sgn a * sgn b * (abs a div abs b)"

definition cmod :: "int \<Rightarrow> int \<Rightarrow> int" where
  "cmod a b = a - b * cdiv a b"

definition toString :: "timestamp \<Rightarrow> string" where
  "toString t = decInt (cdiv t kMicroSecondsPerSecond) @ ''.'' @
     decPad 6 (cmod t kMicroSecondsPerSecond)"

lemma cdiv_nonneg: "0 \<le> a \<Longrightarrow> 0 < b \<Longrightarrow> cdiv a b = a div b"
  by (cases "a = 0") (simp_all add: cdiv_def)

lemma cmod_nonneg: "0 \<le> a \<Longrightarrow> 0 < b \<Longrightarrow> cmod a b = a mod b"
  by (simp add: cmod_def cdiv_nonneg minus_mult_div_eq_mod)

section \<open>Properties\<close>

text \<open>Reading the printed form back: the digits before the point, and the digits after it.\<close>

definition readTimestamp :: "string \<Rightarrow> int" where
  "readTimestamp s =
     int (readDec (takeWhile isDigit s)) * kMicroSecondsPerSecond +
     int (readDec (tl (dropWhile isDigit s)))"

text \<open>
  C21. The printed form of every timestamp from the epoch on determines it: reading the digits
  before and after the point back gives the same number of microseconds, the part after the
  point has exactly six digits, and the whole fits the 31 characters \<^verbatim>\<open>snprintf\<close> may write.
\<close>

theorem toString_roundtrip:
  assumes "0 \<le> t" and "int64_ok t"
  shows "readTimestamp (toString t) = t \<and>
    length (tl (dropWhile isDigit (toString t))) = 6 \<and> length (toString t) \<le> 30"
proof -
  let ?s = "dec (nat (t div 1000000))" and ?u = "dec (nat (t mod 1000000))"
  have ts: "toString t = ?s @ CHR ''.'' # replicate (6 - length ?u) CHR ''0'' @ ?u"
    using assms(1)
    by (simp add: toString_def kMicroSecondsPerSecond_def cdiv_nonneg cmod_nonneg decInt_def
        decPad_def Let_def pos_imp_zdiv_nonneg_iff linorder_not_less)
  have nd: "\<not> isDigit CHR ''.''" by (simp add: isDigit_def)
  have lu: "length ?u \<le> 6"
    by (rule length_dec) (simp_all add: nat_less_iff)
  have "nat (t div 1000000) < 10 ^ 13"
    using assms by (simp add: int64_ok_def nat_less_iff)
  then have ls: "length ?s \<le> 13" by (rule length_dec) simp
  have "readTimestamp (toString t) = int (nat (t div 1000000)) * 1000000 + int (nat (t mod 1000000))"
    unfolding readTimestamp_def ts
    by (simp add: takeWhile_isDigit_append dropWhile_isDigit_append nd isDigit_dec readDec_zeros
        kMicroSecondsPerSecond_def)
  also have "\<dots> = t" using assms(1) by (simp add: pos_imp_zdiv_nonneg_iff)
  finally show ?thesis
    using lu ls by (simp add: ts dropWhile_isDigit_append nd isDigit_dec)
qed

theorem toString_roundtrip_witness:
  "readTimestamp (toString 1700000000000042) = 1700000000000042"
  using toString_roundtrip[of 1700000000000042] by (simp add: int64_ok_def)

end
