(* ===== verification/Channel.thy ===== *)
theory Channel
  imports Logger
begin

unbundle bit_operations_syntax

text \<open>
  src/net/Channel.h and Channel.cpp: a channel joins a descriptor to the callbacks that handle its
  events. Channels live in a heap, \<open>chans\<close>, keyed by their address; a destroyed channel is
  absent and using it is the fault \<open>UseAfterFree\<close>. Callbacks are closures; a closure is a value
  of the type \<open>'t\<close> ("task") that names the function and its bound arguments, and running one is
  the parameter \<open>exec\<close> of whatever runs it. The heap is that of one event loop, whose thread is
  \<open>loopTid\<close> (\<^verbatim>\<open>EventLoop::_tid\<close>): a channel reaches its loop through \<^verbatim>\<open>_loop\<close>, so the assertion
  \<^verbatim>\<open>channel->ownerLoop() == this\<close> of the loop holds by construction and is not modelled.
\<close>

section \<open>Event masks\<close>

text \<open>The Linux values of \<^verbatim>\<open>poll.h\<close>; \<^verbatim>\<open>sys/epoll.h\<close> has the same.\<close>

definition POLLIN :: "32 word" where "POLLIN = 0x1"
definition POLLPRI :: "32 word" where "POLLPRI = 0x2"
definition POLLOUT :: "32 word" where "POLLOUT = 0x4"
definition POLLERR :: "32 word" where "POLLERR = 0x8"
definition POLLHUP :: "32 word" where "POLLHUP = 0x10"
definition POLLNVAL :: "32 word" where "POLLNVAL = 0x20"
definition POLLRDHUP :: "32 word" where "POLLRDHUP = 0x2000"

definition kNoneEvent :: "32 word" where "kNoneEvent = 0"
definition kReadEvent :: "32 word" where "kReadEvent = POLLIN OR POLLPRI"
definition kWriteEvent :: "32 word" where "kWriteEvent = POLLOUT"

lemmas poll_consts = POLLIN_def POLLPRI_def POLLOUT_def POLLERR_def POLLHUP_def POLLNVAL_def
  POLLRDHUP_def

lemmas mask_defs = kNoneEvent_def kReadEvent_def kWriteEvent_def poll_consts

section \<open>The class\<close>

record 't channel =
  c_fd :: int
  c_mgmt :: bool
  c_events :: "32 word"
  c_revents :: "32 word"
  c_added :: bool
  c_onRead :: "'t option"
  c_onWrite :: "'t option"
  c_onClose :: "'t option"
  c_onError :: "'t option"

definition mkChannel :: "int \<Rightarrow> bool \<Rightarrow> 't channel" where
  "mkChannel fd mgmt = \<lparr>c_fd = fd, c_mgmt = mgmt, c_events = 0, c_revents = 0, c_added = False,
     c_onRead = None, c_onWrite = None, c_onClose = None, c_onError = None\<rparr>"

definition isNoEvent :: "'t channel \<Rightarrow> bool" where
  "isNoEvent ch \<longleftrightarrow> c_events ch = kNoneEvent"

definition isWriting :: "'t channel \<Rightarrow> bool" where
  "isWriting ch \<longleftrightarrow> c_events ch AND kWriteEvent \<noteq> 0"

record 't chanheap = process +
  loopTid :: int
  chans :: "nat \<Rightarrow> 't channel option"
  nextChan :: nat

text \<open>System calls and log lines leave the heap alone.\<close>

lemma chanheap_frame [simp]:
  "chans (logged l s) = chans s" "chans (afterSys c s) = chans s"
  "loopTid (logged l s) = loopTid s" "loopTid (afterSys c s) = loopTid s"
  "nextChan (logged l s) = nextChan s" "nextChan (afterSys c s) = nextChan s"
  by (simp_all add: logged_def afterSys_def)

definition withChan ::
  "string \<Rightarrow> nat \<Rightarrow> ('t channel \<Rightarrow> ('t, 'z) chanheap_scheme \<Rightarrow> 'b outcome) \<Rightarrow>
     ('t, 'z) chanheap_scheme \<Rightarrow> 'b outcome" where
  "withChan who cid k s = (case chans s cid of None \<Rightarrow> Inl (UseAfterFree who) | Some ch \<Rightarrow> k ch s)"

definition modChan ::
  "string \<Rightarrow> ('t channel \<Rightarrow> 't channel) \<Rightarrow> nat \<Rightarrow> ('t, 'z) chanheap_scheme stmt" where
  "modChan who f cid =
     withChan who cid (\<lambda>ch s. Inr (s\<lparr>chans := (chans s)(cid \<mapsto> f ch)\<rparr>))"

text \<open>Construction at the next free address.\<close>

definition newChannel ::
  "int \<Rightarrow> bool \<Rightarrow> ('t, 'z) chanheap_scheme \<Rightarrow> nat \<times> ('t, 'z) chanheap_scheme" where
  "newChannel fd mgmt s = (nextChan s,
     s\<lparr>chans := (chans s)(nextChan s \<mapsto> mkChannel fd mgmt), nextChan := Suc (nextChan s)\<rparr>)"

definition setReadableCallback :: "'t \<Rightarrow> nat \<Rightarrow> ('t, 'z) chanheap_scheme stmt" where
  "setReadableCallback cb = modChan ''Channel'' (\<lambda>ch. ch\<lparr>c_onRead := Some cb\<rparr>)"

definition setWritableCallback :: "'t \<Rightarrow> nat \<Rightarrow> ('t, 'z) chanheap_scheme stmt" where
  "setWritableCallback cb = modChan ''Channel'' (\<lambda>ch. ch\<lparr>c_onWrite := Some cb\<rparr>)"

definition setCloseCallback :: "'t \<Rightarrow> nat \<Rightarrow> ('t, 'z) chanheap_scheme stmt" where
  "setCloseCallback cb = modChan ''Channel'' (\<lambda>ch. ch\<lparr>c_onClose := Some cb\<rparr>)"

definition setErrorCallback :: "'t \<Rightarrow> nat \<Rightarrow> ('t, 'z) chanheap_scheme stmt" where
  "setErrorCallback cb = modChan ''Channel'' (\<lambda>ch. ch\<lparr>c_onError := Some cb\<rparr>)"

definition setRevents :: "32 word \<Rightarrow> nat \<Rightarrow> ('t, 'z) chanheap_scheme stmt" where
  "setRevents r = modChan ''Channel::setRevents'' (\<lambda>ch. ch\<lparr>c_revents := r\<rparr>)"

definition setAddToPoll :: "bool \<Rightarrow> nat \<Rightarrow> ('t, 'z) chanheap_scheme stmt" where
  "setAddToPoll added = modChan ''Channel::setAddToPoll'' (\<lambda>ch. ch\<lparr>c_added := added\<rparr>)"

definition resetFdAfterClose :: "int \<Rightarrow> nat \<Rightarrow> ('t, 'z) chanheap_scheme stmt" where
  "resetFdAfterClose v = modChan ''Channel::resetFdAfterClose'' (\<lambda>ch. ch\<lparr>c_fd := v\<rparr>)"

section \<open>Changing the mask\<close>

text \<open>
  Every change of the mask is followed by \<^verbatim>\<open>update()\<close>, which asks the loop and, through the
  virtual function of \<^verbatim>\<open>Poller\<close>, the poller to watch for the new mask; \<open>pollUpd\<close> is that call.
\<close>

definition assertInLoopThread :: "('t, 'z) chanheap_scheme stmt" where
  "assertInLoopThread = assertThat ''assertInLoopThread'' (\<lambda>s. curTid s = loopTid s)"

definition enableReading ::
  "(nat \<Rightarrow> ('t, 'z) chanheap_scheme stmt) \<Rightarrow> nat \<Rightarrow> ('t, 'z) chanheap_scheme stmt" where
  "enableReading pollUpd cid = block [
     modChan ''Channel'' (\<lambda>ch. ch\<lparr>c_events := c_events ch OR kReadEvent\<rparr>) cid, pollUpd cid]"

definition disableReading ::
  "(nat \<Rightarrow> ('t, 'z) chanheap_scheme stmt) \<Rightarrow> nat \<Rightarrow> ('t, 'z) chanheap_scheme stmt" where
  "disableReading pollUpd cid = block [
     modChan ''Channel'' (\<lambda>ch. ch\<lparr>c_events := c_events ch AND NOT kReadEvent\<rparr>) cid, pollUpd cid]"

definition enableWriting ::
  "(nat \<Rightarrow> ('t, 'z) chanheap_scheme stmt) \<Rightarrow> nat \<Rightarrow> ('t, 'z) chanheap_scheme stmt" where
  "enableWriting pollUpd cid = block [
     modChan ''Channel'' (\<lambda>ch. ch\<lparr>c_events := c_events ch OR kWriteEvent\<rparr>) cid, pollUpd cid]"

definition disableWriting ::
  "(nat \<Rightarrow> ('t, 'z) chanheap_scheme stmt) \<Rightarrow> nat \<Rightarrow> ('t, 'z) chanheap_scheme stmt" where
  "disableWriting pollUpd cid = block [
     modChan ''Channel'' (\<lambda>ch. ch\<lparr>c_events := c_events ch AND NOT kWriteEvent\<rparr>) cid, pollUpd cid]"

definition disableAll ::
  "(nat \<Rightarrow> ('t, 'z) chanheap_scheme stmt) \<Rightarrow> nat \<Rightarrow> ('t, 'z) chanheap_scheme stmt" where
  "disableAll pollUpd cid = block [
     modChan ''Channel'' (\<lambda>ch. ch\<lparr>c_events := kNoneEvent\<rparr>) cid, pollUpd cid]"

section \<open>Dispatching an event\<close>

text \<open>
  The four tests of \<^verbatim>\<open>handleEvent\<close>; each reads the object again, so a callback that destroys the
  channel makes the next test a use after free.
\<close>

definition fire :: "('t \<Rightarrow> 's stmt) \<Rightarrow> 't option \<Rightarrow> 's stmt" where
  "fire exec cb = (case cb of None \<Rightarrow> Inr | Some t \<Rightarrow> exec t)"

definition handleEvent ::
  "('t \<Rightarrow> ('t, 'z) chanheap_scheme stmt) \<Rightarrow> nat \<Rightarrow> ('t, 'z) chanheap_scheme stmt" where
  "handleEvent exec cid = block [
     withChan ''Channel::handleEvent'' cid (\<lambda>ch.
       doIf (\<lambda>_. c_revents ch AND POLLHUP \<noteq> 0 \<and> c_revents ch AND POLLIN = 0)
         (fire exec (c_onClose ch))),
     withChan ''Channel::handleEvent'' cid (\<lambda>ch.
       doIf (\<lambda>_. c_revents ch AND (POLLERR OR POLLNVAL) \<noteq> 0) (fire exec (c_onError ch))),
     withChan ''Channel::handleEvent'' cid (\<lambda>ch.
       doIf (\<lambda>_. c_revents ch AND (POLLIN OR POLLPRI OR POLLRDHUP) \<noteq> 0) (fire exec (c_onRead ch))),
     withChan ''Channel::handleEvent'' cid (\<lambda>ch.
       doIf (\<lambda>_. c_revents ch AND POLLOUT \<noteq> 0) (fire exec (c_onWrite ch)))]"

text \<open>
  The same as a table: each row is the condition on the event mask and the callback it selects.
\<close>

definition dispatchTable :: "((32 word \<Rightarrow> bool) \<times> ('t channel \<Rightarrow> 't option)) list" where
  "dispatchTable = [
     (\<lambda>r. r AND POLLHUP \<noteq> 0 \<and> r AND POLLIN = 0, c_onClose),
     (\<lambda>r. r AND (POLLERR OR POLLNVAL) \<noteq> 0, c_onError),
     (\<lambda>r. r AND (POLLIN OR POLLPRI OR POLLRDHUP) \<noteq> 0, c_onRead),
     (\<lambda>r. r AND POLLOUT \<noteq> 0, c_onWrite)]"

definition pick :: "'t channel \<Rightarrow> (32 word \<Rightarrow> bool) \<times> ('t channel \<Rightarrow> 't option) \<Rightarrow> 't list" where
  "pick ch row = (if fst row (c_revents ch) then case snd row ch of None \<Rightarrow> [] | Some t \<Rightarrow> [t] else [])"

text \<open>The callbacks an event mask selects, in the order they run.\<close>

definition selected :: "'t channel \<Rightarrow> 't list" where
  "selected ch = concat (map (pick ch) dispatchTable)"

text \<open>Same event and same callbacks: what a callback must leave alone for the next test.\<close>

definition sameDispatch :: "'t channel \<Rightarrow> 't channel \<Rightarrow> bool" where
  "sameDispatch a b \<longleftrightarrow> c_revents a = c_revents b \<and> c_onClose a = c_onClose b \<and>
     c_onError a = c_onError b \<and> c_onRead a = c_onRead b \<and> c_onWrite a = c_onWrite b"

definition dispatchable :: "nat \<Rightarrow> 't channel \<Rightarrow> ('t, 'z) chanheap_scheme \<Rightarrow> bool" where
  "dispatchable cid ch s \<longleftrightarrow> (\<exists>ch'. chans s cid = Some ch' \<and> sameDispatch ch ch')"

definition runRow ::
  "('t \<Rightarrow> ('t, 'z) chanheap_scheme stmt) \<Rightarrow> nat \<Rightarrow>
     (32 word \<Rightarrow> bool) \<times> ('t channel \<Rightarrow> 't option) \<Rightarrow> ('t, 'z) chanheap_scheme stmt" where
  "runRow exec cid row = withChan ''Channel::handleEvent'' cid (\<lambda>ch.
     doIf (\<lambda>_. fst row (c_revents ch)) (fire exec (snd row ch)))"

lemma handleEvent_table: "handleEvent exec cid = block (map (runRow exec cid) dispatchTable)"
  by (simp add: handleEvent_def dispatchTable_def runRow_def)

lemma pick_same:
  "sameDispatch ch ch' \<Longrightarrow> row \<in> set dispatchTable \<Longrightarrow> pick ch' row = pick ch row"
  by (auto simp: sameDispatch_def dispatchTable_def pick_def)

lemma runRow_pick:
  assumes "dispatchable cid ch s" "row \<in> set dispatchTable"
  shows "runRow exec cid row s = block (map exec (pick ch row)) s"
proof -
  obtain ch' where ch': "chans s cid = Some ch'" "sameDispatch ch ch'"
    using assms(1) by (auto simp: dispatchable_def)
  have "runRow exec cid row s = block (map exec (pick ch' row)) s"
    using ch'(1) by (cases "snd row ch'") (simp_all add: runRow_def withChan_def doIf_def fire_def
        pick_def)
  then show ?thesis using pick_same[OF ch'(2) assms(2)] by simp
qed

lemma handleEvent_selected:
  assumes "dispatchable cid ch s"
    and kept: "\<And>t. t \<in> set (selected ch) \<Longrightarrow> keeps (dispatchable cid ch) (exec t)"
  shows "handleEvent exec cid s = block (map exec (selected ch)) s"
proof -
  have "block (map (runRow exec cid) rows) s = block (map exec (concat (map (pick ch) rows))) s"
    if "dispatchable cid ch s" "set rows \<subseteq> set dispatchTable" for rows s
    using that
  proof (induction rows arbitrary: s)
    case Nil
    then show ?case by simp
  next
    case (Cons row rows)
    then have row: "row \<in> set dispatchTable" by simp
    then have "set (pick ch row) \<subseteq> set (selected ch)" by (auto simp: selected_def)
    then have "keeps (dispatchable cid ch) (block (map exec (pick ch row)))"
      using kept by (intro keeps_block) auto
    then have next_ok: "dispatchable cid ch s'" if "block (map exec (pick ch row)) s = Inr s'" for s'
      using that Cons.prems(1) keepsD by metis
    have "block (map (runRow exec cid) (row # rows)) s =
        andThen (block (map exec (pick ch row)) s) (block (map (runRow exec cid) rows))"
      using runRow_pick[OF Cons.prems(1) row] by simp
    also have "\<dots> = andThen (block (map exec (pick ch row)) s)
        (block (map exec (concat (map (pick ch) rows))))"
      using Cons.IH next_ok Cons.prems(2) by (intro andThen_cong) auto
    finally show ?case by (simp add: block_append)
  qed
  from this[OF assms(1) order_refl] show ?thesis by (simp add: handleEvent_table selected_def)
qed

text \<open>
  C19. Events are dispatched by the table and in its order: close on a hang-up with nothing to
  read, error, read on input, urgent data or a half close, write. A channel whose callbacks leave
  it alive with the event and callbacks it had runs exactly the selected callbacks, in that
  order, each on the state the one before left, and fails exactly when one of them fails.
\<close>

theorem handleEvent_dispatch:
  assumes "chans s cid = Some ch"
    and "\<And>t. t \<in> set (selected ch) \<Longrightarrow> keeps (dispatchable cid ch) (exec t)"
  shows "handleEvent exec cid s = block (map exec (selected ch)) s"
  by (rule handleEvent_selected[OF _ assms(2)]) (use assms(1) in \<open>simp add: dispatchable_def sameDispatch_def\<close>)

text \<open>Callbacks that print their name, on a channel that has all four.\<close>

definition printer :: "level \<Rightarrow> (level, 'z) chanheap_scheme stmt" where
  "printer t = upd (\<lambda>s. s\<lparr>logOut := logOut s @ [t]\<rparr>)"

definition demoChannel :: "32 word \<Rightarrow> level channel" where
  "demoChannel r = (mkChannel 7 True)\<lparr>c_revents := r, c_onClose := Some DEBUG,
     c_onError := Some INFO, c_onRead := Some WARN, c_onWrite := Some ERROR\<rparr>"

definition demoHeap :: "32 word \<Rightarrow> level chanheap" where
  "demoHeap r = \<lparr>errno = 0, g_logLevel = INFO, logOut = [], curTid = 1, trace = [],
     env = (\<lambda>_. \<lparr>a_ret = 0, a_err = 0, a_payload = [], a_events = []\<rparr>), envIx = 0,
     clock = (\<lambda>_. (0, 0)), clockIx = 0, addrStorage = [],
     loopTid = 1, chans = [0 \<mapsto> demoChannel r], nextChan = 1\<rparr>"

theorem handleEvent_dispatch_witness:
  "handleEvent printer 0 (demoHeap (POLLHUP OR POLLERR OR POLLPRI OR POLLOUT)) =
     Inr ((demoHeap (POLLHUP OR POLLERR OR POLLPRI OR POLLOUT))\<lparr>logOut := [DEBUG, INFO, WARN, ERROR]\<rparr>)"
proof -
  let ?r = "POLLHUP OR POLLERR OR POLLPRI OR POLLOUT"
  have sel: "selected (demoChannel ?r) = [DEBUG, INFO, WARN, ERROR]"
    by (simp add: selected_def dispatchTable_def pick_def demoChannel_def poll_consts)
  have "handleEvent printer 0 (demoHeap ?r) = block (map printer (selected (demoChannel ?r))) (demoHeap ?r)"
    by (rule handleEvent_dispatch)
      (auto simp: demoHeap_def keeps_def printer_def upd_def dispatchable_def)
  then show ?thesis unfolding sel by (simp add: printer_def upd_def demoHeap_def)
qed

end
