(* ===== verification/Poller.thy ===== *)
theory Poller
  imports Channel
begin

unbundle bit_operations_syntax

text \<open>
  src/net/Poller.h: the abstract class between the event loop and the way events are waited for.
  The locale is its contract: what a channel may rely on when it asks for its mask to be watched.
  \<open>watch s fd\<close> is the registration of a descriptor, the mask and the channel that is told. The
  lemmas in the locale are what the mask operations of \<^verbatim>\<open>Channel\<close> achieve over any poller.
\<close>

text \<open>The part of the state a poller has to leave alone.\<close>

definition sameLoop :: "('t, 'z) chanheap_scheme \<Rightarrow> ('t, 'z) chanheap_scheme \<Rightarrow> bool" where
  "sameLoop s s' \<longleftrightarrow> curTid s' = curTid s \<and> loopTid s' = loopTid s \<and> nextChan s' = nextChan s \<and>
     g_logLevel s' = g_logLevel s \<and> env s' = env s"

lemma sameLoop_refl [simp]: "sameLoop s s"
  by (simp add: sameLoop_def)

locale poller =
  fixes updateChannel :: "nat \<Rightarrow> ('t, 'z) chanheap_scheme stmt"
    and removeChannel :: "nat \<Rightarrow> ('t, 'z) chanheap_scheme stmt"
    and watch :: "('t, 'z) chanheap_scheme \<Rightarrow> int \<Rightarrow> (32 word \<times> nat) option"
  assumes update_ok: "chans s cid = Some ch \<Longrightarrow> curTid s = loopTid s \<Longrightarrow>
      c_added ch \<or> c_events ch \<noteq> 0 \<Longrightarrow>
      \<exists>s'. updateChannel cid s = Inr s' \<and> sameLoop s s' \<and>
        chans s' = (chans s)(cid \<mapsto> ch\<lparr>c_added := c_events ch \<noteq> 0\<rparr>) \<and>
        watch s' = (watch s)(c_fd ch := (if c_events ch = 0 then None else Some (c_events ch, cid)))"
    and remove_ok: "chans s cid = Some ch \<Longrightarrow> curTid s = loopTid s \<Longrightarrow>
      \<exists>s'. removeChannel cid s = Inr s' \<and> sameLoop s s' \<and>
        chans s' = (chans s)(cid \<mapsto> ch\<lparr>c_added := False\<rparr>) \<and>
        watch s' = (if c_added ch then (watch s)(c_fd ch := None) else watch s)"
    and watch_chans: "watch (s\<lparr>chans := h\<rparr>) = watch s"
begin

text \<open>
  The channels' flags and the poller's table agree: an added channel has a non-empty mask and
  is registered with it, under its descriptor.
\<close>

definition synced :: "('t, 'z) chanheap_scheme \<Rightarrow> bool" where
  "synced s \<longleftrightarrow> (\<forall>cid ch. chans s cid = Some ch \<longrightarrow> c_added ch \<longrightarrow>
     c_events ch \<noteq> 0 \<and> watch s (c_fd ch) = Some (c_events ch, cid))"

text \<open>No other added channel has the descriptor of \<open>cid\<close>.\<close>

definition soleOwner :: "nat \<Rightarrow> ('t, 'z) chanheap_scheme \<Rightarrow> bool" where
  "soleOwner cid s \<longleftrightarrow> (\<forall>ch cid' ch'. chans s cid = Some ch \<longrightarrow> cid' \<noteq> cid \<longrightarrow>
     chans s cid' = Some ch' \<longrightarrow> c_added ch' \<longrightarrow> c_fd ch' \<noteq> c_fd ch)"

lemma synced_soleOwner:
  assumes "synced s" "chans s cid = Some ch" "c_added ch"
  shows "soleOwner cid s"
  using assms unfolding synced_def soleOwner_def by (metis option.inject prod.inject)

text \<open>Changing the mask of a channel and updating it keeps the agreement.\<close>

lemma mask_update:
  assumes "synced s" and ch: "chans s cid = Some ch" and tid: "curTid s = loopTid s"
    and "soleOwner cid s" and live: "c_added ch \<or> f (c_events ch) \<noteq> 0"
  obtains s' where
    "block [modChan who (\<lambda>ch. ch\<lparr>c_events := f (c_events ch)\<rparr>) cid, updateChannel cid] s = Inr s'"
    "synced s'" "sameLoop s s'"
    "chans s' = (chans s)(cid \<mapsto> ch\<lparr>c_events := f (c_events ch), c_added := f (c_events ch) \<noteq> 0\<rparr>)"
    "watch s' (c_fd ch) = (if f (c_events ch) = 0 then None else Some (f (c_events ch), cid))"
proof -
  let ?c = "ch\<lparr>c_events := f (c_events ch)\<rparr>"
  let ?s = "s\<lparr>chans := (chans s)(cid \<mapsto> ?c)\<rparr>"
  obtain s' where s': "updateChannel cid ?s = Inr s'" "sameLoop ?s s'"
    "chans s' = (chans ?s)(cid \<mapsto> ?c\<lparr>c_added := c_events ?c \<noteq> 0\<rparr>)"
    "watch s' = (watch ?s)(c_fd ?c := (if c_events ?c = 0 then None else Some (c_events ?c, cid)))"
    using update_ok[of ?s cid ?c] tid live by auto
  have w: "watch s' = (watch s)(c_fd ch := (if f (c_events ch) = 0 then None else Some (f (c_events ch), cid)))"
    using s'(4) by (simp add: watch_chans)
  have c: "chans s' = (chans s)(cid \<mapsto> ch\<lparr>c_events := f (c_events ch), c_added := f (c_events ch) \<noteq> 0\<rparr>)"
    using s'(3) by simp
  have "synced s'"
    unfolding synced_def
  proof (intro allI impI)
    fix cid' ch' assume h: "chans s' cid' = Some ch'" "c_added ch'"
    show "c_events ch' \<noteq> 0 \<and> watch s' (c_fd ch') = Some (c_events ch', cid')"
    proof (cases "cid' = cid")
      case True
      then show ?thesis using h c w by auto
    next
      case False
      then have "chans s cid' = Some ch'" using h c by simp
      then show ?thesis using assms(1,4) ch False h(2) w by (simp add: synced_def soleOwner_def)
    qed
  qed
  moreover have "block [modChan who (\<lambda>ch. ch\<lparr>c_events := f (c_events ch)\<rparr>) cid, updateChannel cid] s = Inr s'"
    using ch s'(1) by (simp add: modChan_def withChan_def)
  moreover have "sameLoop s s'" using s'(2) by (simp add: sameLoop_def)
  ultimately show thesis using that c w by simp
qed

lemma enableReading_ok:
  assumes "synced s" "chans s cid = Some ch" "curTid s = loopTid s" "soleOwner cid s"
  obtains s' where "enableReading updateChannel cid s = Inr s'" "synced s'" "sameLoop s s'"
    "chans s' = (chans s)(cid \<mapsto> ch\<lparr>c_events := c_events ch OR kReadEvent, c_added := True\<rparr>)"
    "watch s' (c_fd ch) = Some (c_events ch OR kReadEvent, cid)"
proof -
  have "c_events ch OR kReadEvent \<noteq> 0"
    by (simp add: kReadEvent_def POLLIN_def POLLPRI_def or_eq_0_iff)
  with mask_update[OF assms(1-4), of "\<lambda>e. e OR kReadEvent" "''Channel''"] that
  show thesis unfolding enableReading_def by auto
qed

lemma enableWriting_ok:
  assumes "synced s" "chans s cid = Some ch" "curTid s = loopTid s" "soleOwner cid s"
  obtains s' where "enableWriting updateChannel cid s = Inr s'" "synced s'" "sameLoop s s'"
    "chans s' = (chans s)(cid \<mapsto> ch\<lparr>c_events := c_events ch OR kWriteEvent, c_added := True\<rparr>)"
    "watch s' (c_fd ch) = Some (c_events ch OR kWriteEvent, cid)"
proof -
  have "c_events ch OR kWriteEvent \<noteq> 0"
    by (simp add: kWriteEvent_def POLLOUT_def or_eq_0_iff)
  with mask_update[OF assms(1-4), of "\<lambda>e. e OR kWriteEvent" "''Channel''"] that
  show thesis unfolding enableWriting_def by auto
qed

lemma disableWriting_ok:
  assumes "synced s" "chans s cid = Some ch" "curTid s = loopTid s" "c_added ch"
  obtains s' where "disableWriting updateChannel cid s = Inr s'" "synced s'" "sameLoop s s'"
    "chans s' = (chans s)(cid \<mapsto> ch\<lparr>c_events := c_events ch AND NOT kWriteEvent,
       c_added := c_events ch AND NOT kWriteEvent \<noteq> 0\<rparr>)"
  using mask_update[OF assms(1-3) synced_soleOwner[OF assms(1,2,4)],
      of "\<lambda>e. e AND NOT kWriteEvent" "''Channel''"] assms(4) that
  unfolding disableWriting_def by auto

lemma disableReading_ok:
  assumes "synced s" "chans s cid = Some ch" "curTid s = loopTid s" "c_added ch"
  obtains s' where "disableReading updateChannel cid s = Inr s'" "synced s'" "sameLoop s s'"
    "chans s' = (chans s)(cid \<mapsto> ch\<lparr>c_events := c_events ch AND NOT kReadEvent,
       c_added := c_events ch AND NOT kReadEvent \<noteq> 0\<rparr>)"
  using mask_update[OF assms(1-3) synced_soleOwner[OF assms(1,2,4)],
      of "\<lambda>e. e AND NOT kReadEvent" "''Channel''"] assms(4) that
  unfolding disableReading_def by auto

lemma disableAll_ok:
  assumes "synced s" "chans s cid = Some ch" "curTid s = loopTid s" "c_added ch"
  obtains s' where "disableAll updateChannel cid s = Inr s'" "synced s'" "sameLoop s s'"
    "chans s' = (chans s)(cid \<mapsto> ch\<lparr>c_events := 0, c_added := False\<rparr>)"
    "watch s' (c_fd ch) = None"
  using mask_update[OF assms(1-3) synced_soleOwner[OF assms(1,2,4)], of "\<lambda>e. 0" "''Channel''"] assms(4) that
  unfolding disableAll_def kNoneEvent_def by auto

lemma remove_synced:
  assumes "synced s" and ch: "chans s cid = Some ch" and "curTid s = loopTid s"
  obtains s' where "removeChannel cid s = Inr s'" "synced s'" "sameLoop s s'"
    "chans s' = (chans s)(cid \<mapsto> ch\<lparr>c_added := False\<rparr>)" "c_added ch \<Longrightarrow> watch s' (c_fd ch) = None"
proof -
  obtain s' where s': "removeChannel cid s = Inr s'" "sameLoop s s'"
    "chans s' = (chans s)(cid \<mapsto> ch\<lparr>c_added := False\<rparr>)"
    "watch s' = (if c_added ch then (watch s)(c_fd ch := None) else watch s)"
    using remove_ok[OF assms(2,3)] by blast
  have "synced s'"
    unfolding synced_def
  proof (intro allI impI)
    fix cid' ch' assume h: "chans s' cid' = Some ch'" "c_added ch'"
    then have ne: "cid' \<noteq> cid" "chans s cid' = Some ch'" using s'(3) by (auto split: if_splits)
    then have "c_events ch' \<noteq> 0 \<and> watch s (c_fd ch') = Some (c_events ch', cid')"
      using assms(1) h(2) by (simp add: synced_def)
    moreover have "c_fd ch' \<noteq> c_fd ch" if "c_added ch"
      using synced_soleOwner[OF assms(1) ch that] ne h(2) ch by (auto simp: soleOwner_def)
    ultimately show "c_events ch' \<noteq> 0 \<and> watch s' (c_fd ch') = Some (c_events ch', cid')"
      using s'(4) by simp
  qed
  then show thesis using that s' by simp
qed

end

end
