(* ===== verification/EPollPoller.thy ===== *)
theory EPollPoller
  imports Poller Timestamp
begin

text \<open>
  src/net/EPollPoller.cpp: the poller over \<^verbatim>\<open>epoll\<close>. \<open>evSize\<close> is the size of the result vector
  \<^verbatim>\<open>_events\<close>. The kernel's interest list is what the trace of \<^verbatim>\<open>epoll_ctl\<close> calls says:
  \<open>interest\<close> replays it.
\<close>

definition interestStep ::
  "(int \<Rightarrow> (32 word \<times> nat) option) \<Rightarrow> syscall \<Rightarrow> int \<Rightarrow> (32 word \<times> nat) option" where
  "interestStep m c = (case c of
       SysEpollCtl op fd ev p \<Rightarrow> m(fd := (if op = EPOLL_CTL_DEL then None else Some (ev, p)))
     | _ \<Rightarrow> m)"

definition interest :: "syscall list \<Rightarrow> int \<Rightarrow> (32 word \<times> nat) option" where
  "interest = foldl interestStep Map.empty"

lemma interest_Nil [simp]: "interest [] = Map.empty"
  by (simp add: interest_def)

lemma interest_snoc [simp]: "interest (tr @ [c]) = interestStep (interest tr) c"
  by (simp add: interest_def)

record 't poll = "'t chanheap" +
  epollFd :: int
  evSize :: nat

lemma poll_frame [simp]:
  "evSize (logged l s) = evSize s" "evSize (afterSys c s) = evSize s"
  "epollFd (logged l s) = epollFd s" "epollFd (afterSys c s) = epollFd s"
  by (simp_all add: logged_def afterSys_def)

definition kInitEventListSize :: nat where
  "kInitEventListSize = 16"

definition createEPoll :: "('z process_scheme, int) func" where
  "createEPoll =
     call (sysRet SysEpollCreate) (\<lambda>epollfd.
     thenDo (doIf (\<lambda>_. epollfd < 0) (LOG FATAL))
     (retF epollfd))"

definition EPollPoller_ctor :: "('t, 'z) poll_scheme stmt" where
  "EPollPoller_ctor = callE createEPoll (\<lambda>fd s.
     Inr (s\<lparr>epollFd := fd, evSize := kInitEventListSize\<rparr>))"

definition EPollPoller_dtor :: "('t, 'z) poll_scheme stmt" where
  "EPollPoller_dtor = letIn epollFd (\<lambda>fd. call (sysRet (SysClose fd)) (\<lambda>_. Inr))"

definition EPollPoller_update :: "epoll_op \<Rightarrow> nat \<Rightarrow> ('t, 'z) poll_scheme stmt" where
  "EPollPoller_update op cid = withChan ''EPollPoller::update'' cid (\<lambda>ch.
     call (sysRet (SysEpollCtl op (c_fd ch) (c_events ch) cid)) (\<lambda>r.
     doIf (\<lambda>_. r < 0) (LOG ERROR)))"

definition updateChannel :: "nat \<Rightarrow> ('t, 'z) poll_scheme stmt" where
  "updateChannel cid = block [
     assertInLoopThread,
     withChan ''EPollPoller::updateChannel'' cid (\<lambda>ch.
       if c_added ch then
         if isNoEvent ch then block [EPollPoller_update EPOLL_CTL_DEL cid, setAddToPoll False cid]
         else EPollPoller_update EPOLL_CTL_MOD cid
       else block [
         assertThat ''updateChannel'' (\<lambda>_. \<not> isNoEvent ch),
         EPollPoller_update EPOLL_CTL_ADD cid,
         setAddToPoll True cid])]"

definition removeChannel :: "nat \<Rightarrow> ('t, 'z) poll_scheme stmt" where
  "removeChannel cid = block [
     assertInLoopThread,
     withChan ''EPollPoller::removeChannel'' cid (\<lambda>ch.
       if c_added ch then block [EPollPoller_update EPOLL_CTL_DEL cid, setAddToPoll False cid]
       else Inr)]"

text \<open>
  \<^verbatim>\<open>epoll_wait\<close> answers with at most as many events as the vector holds. \<^verbatim>\<open>numEvents\<close> is \<open>-1\<close> on
  an error, and its conversion to \<^verbatim>\<open>size_t\<close> in the last test wraps around.
\<close>

definition poll_wait :: "int \<Rightarrow> ('t, 'z) poll_scheme \<Rightarrow>
    (int \<times> (nat \<times> 32 word) list) \<times> ('t, 'z) poll_scheme" where
  "poll_wait timeoutMs s =
     (case sys (\<lambda>_. SysEpollWait (epollFd s) (evSize s) timeoutMs) s of (a, s') \<Rightarrow>
        (if a_ret a < 0 then (- 1, [])
         else (let evs = take (evSize s) (a_events a) in (int (length evs), evs)), s'))"

definition EPollPoller_poll :: "int \<Rightarrow> (('t, 'z) poll_scheme, timestamp \<times> nat list) func" where
  "EPollPoller_poll timeoutMs =
     call (poll_wait timeoutMs) (\<lambda>(numEvents, evs).
     call now (\<lambda>t.
     thenDo (block [
       if numEvents > 0 then block [
           LOG DEBUG,
           block (map (\<lambda>(p, ev). setRevents ev p) evs),
           doIf (\<lambda>s. nat numEvents = evSize s) (upd (\<lambda>s. s\<lparr>evSize := evSize s * 2\<rparr>))]
       else if numEvents = 0 then LOG DEBUG
       else LOG ERROR,
       doIf (\<lambda>s. evSize s > kInitEventListSize \<and>
                 unat ((word_of_int numEvents :: 64 word) * 2) < evSize s)
         (upd (\<lambda>s. s\<lparr>evSize := evSize s div 2\<rparr>))])
     (retF (t, map fst evs))))"

section \<open>The poller's contract\<close>

lemma EPollPoller_update_ok:
  assumes "chans s cid = Some ch"
  obtains s' where "EPollPoller_update op cid s = Inr s'" "sameLoop s s'" "chans s' = chans s"
    "interest (trace s') = (interest (trace s))(c_fd ch :=
       (if op = EPOLL_CTL_DEL then None else Some (c_events ch, cid)))"
    "evSize s' = evSize s"
proof -
  let ?s1 = "afterSys (SysEpollCtl op (c_fd ch) (c_events ch) cid) s"
  show thesis
  proof (cases "a_ret (nextAns s) < 0")
    case True
    then have "EPollPoller_update op cid s = Inr (logged ERROR ?s1)"
      using assms by (simp add: EPollPoller_update_def withChan_def stmt_defs sysRet_eq)
    then show thesis by (rule that) (simp_all add: sameLoop_def interestStep_def)
  next
    case False
    then have "EPollPoller_update op cid s = Inr ?s1"
      using assms by (simp add: EPollPoller_update_def withChan_def stmt_defs sysRet_eq)
    then show thesis by (rule that) (simp_all add: sameLoop_def interestStep_def)
  qed
qed

lemma updateChannel_ok:
  assumes "chans s cid = Some ch" "curTid s = loopTid s" "c_added ch \<or> c_events ch \<noteq> 0"
  obtains s' where "updateChannel cid s = Inr s'" "sameLoop s s'"
    "chans s' = (chans s)(cid \<mapsto> ch\<lparr>c_added := c_events ch \<noteq> 0\<rparr>)"
    "interest (trace s') = (interest (trace s))(c_fd ch :=
       (if c_events ch = 0 then None else Some (c_events ch, cid)))"
proof -
  let ?op = "if c_added ch then if c_events ch = 0 then EPOLL_CTL_DEL else EPOLL_CTL_MOD else EPOLL_CTL_ADD"
  obtain t where t: "EPollPoller_update ?op cid s = Inr t" "sameLoop s t" "chans t = chans s"
    "interest (trace t) = (interest (trace s))(c_fd ch :=
       (if ?op = EPOLL_CTL_DEL then None else Some (c_events ch, cid)))" "evSize t = evSize s"
    by (rule EPollPoller_update_ok[OF assms(1), of ?op])
  let ?t = "t\<lparr>chans := (chans t)(cid \<mapsto> ch\<lparr>c_added := c_events ch \<noteq> 0\<rparr>)\<rparr>"
  note defs = updateChannel_def assertInLoopThread_def assertThat_def withChan_def isNoEvent_def
    kNoneEvent_def setAddToPoll_def modChan_def
  consider (upd) "c_added ch" "c_events ch \<noteq> 0" | (del) "c_added ch" "c_events ch = 0"
    | (add) "\<not> c_added ch" "c_events ch \<noteq> 0" using assms(3) by blast
  then have "updateChannel cid s = Inr ?t"
  proof cases
    case upd
    then have "ch\<lparr>c_added := c_events ch \<noteq> 0\<rparr> = ch" by simp
    then have "?t = t" using t(3) assms(1) by (simp add: fun_upd_idem)
    with upd t(1) assms(1,2) show ?thesis by (simp add: defs)
  next
    case del
    with t(1,3) assms(1,2) show ?thesis by (simp add: defs)
  next
    case add
    with t(1,3) assms(1,2) show ?thesis by (simp add: defs)
  qed
  moreover have "sameLoop s ?t" using t(2) by (simp add: sameLoop_def)
  ultimately show thesis using that[of ?t] t(3,4) assms(3) by auto
qed

lemma removeChannel_ok:
  assumes "chans s cid = Some ch" "curTid s = loopTid s"
  obtains s' where "removeChannel cid s = Inr s'" "sameLoop s s'"
    "chans s' = (chans s)(cid \<mapsto> ch\<lparr>c_added := False\<rparr>)"
    "interest (trace s') =
       (if c_added ch then (interest (trace s))(c_fd ch := None) else interest (trace s))"
proof (cases "c_added ch")
  case True
  obtain t where t: "EPollPoller_update EPOLL_CTL_DEL cid s = Inr t" "sameLoop s t" "chans t = chans s"
    "interest (trace t) = (interest (trace s))(c_fd ch :=
       (if EPOLL_CTL_DEL = EPOLL_CTL_DEL then None else Some (c_events ch, cid)))" "evSize t = evSize s"
    by (rule EPollPoller_update_ok[OF assms(1), of EPOLL_CTL_DEL])
  let ?t = "t\<lparr>chans := (chans t)(cid \<mapsto> ch\<lparr>c_added := False\<rparr>)\<rparr>"
  have "removeChannel cid s = Inr ?t"
    using assms t(1,3) True
    by (simp add: removeChannel_def assertInLoopThread_def assertThat_def withChan_def
        setAddToPoll_def modChan_def)
  moreover have "sameLoop s ?t" using t(2) by (simp add: sameLoop_def)
  ultimately show thesis using that[of ?t] t(3,4) True by auto
next
  case False
  then have "ch\<lparr>c_added := False\<rparr> = ch" by (cases ch) simp
  then show thesis
    using that[of s] assms False
    by (simp add: removeChannel_def assertInLoopThread_def assertThat_def withChan_def fun_upd_idem)
qed

interpretation ep: poller updateChannel removeChannel "\<lambda>s. interest (trace s)"
proof unfold_locales
  fix s :: "('a, 'b) poll_scheme" and cid ch
  assume ch: "chans s cid = Some ch" "curTid s = loopTid s"
  show "\<exists>s'. updateChannel cid s = Inr s' \<and> sameLoop s s' \<and>
      chans s' = (chans s)(cid \<mapsto> ch\<lparr>c_added := c_events ch \<noteq> 0\<rparr>) \<and>
      interest (trace s') = (interest (trace s))(c_fd ch :=
        (if c_events ch = 0 then None else Some (c_events ch, cid)))"
    if "c_added ch \<or> c_events ch \<noteq> 0"
    using updateChannel_ok[OF ch that] by metis
  show "\<exists>s'. removeChannel cid s = Inr s' \<and> sameLoop s s' \<and>
      chans s' = (chans s)(cid \<mapsto> ch\<lparr>c_added := False\<rparr>) \<and>
      interest (trace s') =
        (if c_added ch then (interest (trace s))(c_fd ch := None) else interest (trace s))"
    using removeChannel_ok[OF ch] by metis
qed simp

text \<open>The agreement of the flags and the kernel's table, written out.\<close>

definition pollSynced :: "('t, 'z) poll_scheme \<Rightarrow> bool" where
  "pollSynced s \<longleftrightarrow> (\<forall>cid ch. chans s cid = Some ch \<longrightarrow> c_added ch \<longrightarrow>
     c_events ch \<noteq> 0 \<and> interest (trace s) (c_fd ch) = Some (c_events ch, cid))"

lemma pollSynced_eq: "pollSynced = ep.synced"
  by (simp add: fun_eq_iff pollSynced_def ep.synced_def)

section \<open>The result vector\<close>

definition pollEvents :: "('t, 'z) poll_scheme \<Rightarrow> (nat \<times> 32 word) list option" where
  "pollEvents s = (if a_ret (nextAns s) < 0 then None else Some (take (evSize s) (a_events (nextAns s))))"

text \<open>Storing the event masks: every reported channel must be alive.\<close>

fun storeRevents :: "(nat \<times> 32 word) list \<Rightarrow> (nat \<Rightarrow> 't channel option) \<Rightarrow> nat \<Rightarrow> 't channel option" where
  "storeRevents [] h = h"
| "storeRevents ((p, ev) # evs) h =
     storeRevents evs (h(p := map_option (\<lambda>ch. ch\<lparr>c_revents := ev\<rparr>) (h p)))"

lemma setRevents_all:
  assumes "\<forall>e \<in> set evs. chans s (fst e) \<noteq> None"
  shows "block (map (\<lambda>(p, ev). setRevents ev p) evs) s = Inr (s\<lparr>chans := storeRevents evs (chans s)\<rparr>)"
  using assms
proof (induction evs arbitrary: s)
  case Nil
  show ?case by simp
next
  case (Cons e evs)
  obtain p ev where e: "e = (p, ev)" by (cases e)
  with Cons.prems obtain ch where ch: "chans s p = Some ch" by auto
  let ?s = "s\<lparr>chans := (chans s)(p \<mapsto> ch\<lparr>c_revents := ev\<rparr>)\<rparr>"
  have "\<forall>e \<in> set evs. chans ?s (fst e) \<noteq> None" using Cons.prems by auto
  from Cons.IH[OF this] have
    "block (map (\<lambda>(p, ev). setRevents ev p) evs) ?s =
      Inr (s\<lparr>chans := storeRevents evs ((chans s)(p \<mapsto> ch\<lparr>c_revents := ev\<rparr>))\<rparr>)"
    by (simp add: fun_upd_def)
  moreover have "setRevents ev p s = Inr ?s" using ch by (simp add: setRevents_def modChan_def withChan_def)
  moreover have "storeRevents (e # evs) (chans s) = storeRevents evs ((chans s)(p \<mapsto> ch\<lparr>c_revents := ev\<rparr>))"
    using ch e by simp
  ultimately show ?case using e by simp
qed

lemma storeRevents_other: "p \<notin> fst ` set evs \<Longrightarrow> storeRevents evs h p = h p"
proof (induction evs arbitrary: h)
  case (Cons e evs)
  then show ?case by (cases e) auto
qed simp

lemma storeRevents_reported:
  "distinct (map fst evs) \<Longrightarrow> (p, ev) \<in> set evs \<Longrightarrow> h p = Some ch \<Longrightarrow>
     storeRevents evs h p = Some (ch\<lparr>c_revents := ev\<rparr>)"
proof (induction evs arbitrary: h)
  case (Cons e evs)
  obtain q fv where e: "e = (q, fv)" by (cases e)
  show ?case
  proof (cases "q = p")
    case True
    with Cons.prems e have "fv = ev" "p \<notin> fst ` set evs" by (auto intro: rev_image_eqI)
    with True e Cons.prems(3) show ?thesis by (simp add: storeRevents_other)
  next
    case False
    with Cons e show ?thesis by auto
  qed
qed simp

text \<open>The size of the vector after a call that reported \<open>n\<close> events.\<close>

definition nextSize :: "nat \<Rightarrow> nat \<Rightarrow> nat" where
  "nextSize n k = (if n = k then 2 * k else if kInitEventListSize < k \<and> 2 * n < k then k div 2 else k)"

lemma unat_twice: "int n < 2 ^ 62 \<Longrightarrow> unat ((word_of_int (int n) :: 64 word) * 2) = 2 * n"
  by (simp add: unat_word_ariths unat_of_nat take_bit_eq_mod)

lemma now_afterSys:
  obtains s1 where "now (afterSys c s) = (fst (now s), s1)" "chans s1 = chans s"
    "evSize s1 = evSize s" "trace s1 = trace s @ [c]"
  by (auto simp: now_def split: prod.split)

text \<open>A successful wait: the events stored, the vector resized.\<close>

definition afterPoll :: "int \<Rightarrow> (nat \<times> 32 word) list \<Rightarrow> ('t, 'z) poll_scheme \<Rightarrow> ('t, 'z) poll_scheme" where
  "afterPoll ms evs s = (logged DEBUG (snd (now (afterSys (SysEpollWait (epollFd s) (evSize s) ms) s))))
     \<lparr>chans := storeRevents evs (chans s), evSize := nextSize (length evs) (evSize s)\<rparr>"

lemma poll_eq:
  assumes evs: "pollEvents s = Some evs" and live: "\<forall>e \<in> set evs. chans s (fst e) \<noteq> None"
    and size: "kInitEventListSize \<le> evSize s" "evSize s < 2 ^ 62"
  shows "EPollPoller_poll ms s = Inr ((fst (now s), map fst evs), afterPoll ms evs s)"
    "trace (afterPoll ms evs s) = trace s @ [SysEpollWait (epollFd s) (evSize s) ms]"
proof -
  have n: "length evs \<le> evSize s" "a_ret (nextAns s) \<ge> 0" "evs = take (evSize s) (a_events (nextAns s))"
    using evs by (auto simp: pollEvents_def split: if_splits)
  have pw: "poll_wait ms s = ((int (length evs), evs), afterSys (SysEpollWait (epollFd s) (evSize s) ms) s)"
    using n by (simp add: poll_wait_def sys_eq Let_def)
  obtain s1 where nw: "now (afterSys (SysEpollWait (epollFd s) (evSize s) ms) s) = (fst (now s), s1)"
    and fr: "chans s1 = chans s" "evSize s1 = evSize s"
      "trace s1 = trace s @ [SysEpollWait (epollFd s) (evSize s) ms]"
    by (rule now_afterSys)
  have tw: "unat ((word_of_int (int (length evs)) :: 64 word) * 2) = 2 * length evs"
    using n(1) size(2) by (intro unat_twice) simp
  let ?s2 = "(logged DEBUG s1)\<lparr>chans := storeRevents evs (chans s)\<rparr>"
  let ?s3 = "?s2\<lparr>evSize := nextSize (length evs) (evSize s)\<rparr>"
  have s3: "afterPoll ms evs s = ?s3" by (simp add: afterPoll_def nw)
  show "EPollPoller_poll ms s = Inr ((fst (now s), map fst evs), afterPoll ms evs s)"
    unfolding s3
  proof (cases "evs = []")
    case True
    then show "EPollPoller_poll ms s = Inr ((fst (now s), map fst evs), ?s3)" using size tw fr
      by (simp add: EPollPoller_poll_def pw nw stmt_defs nextSize_def kInitEventListSize_def)
  next
    case False
    have "\<forall>e \<in> set evs. chans (logged DEBUG s1) (fst e) \<noteq> None" using live fr by simp
    from setRevents_all[OF this] fr have
      st: "block (map (\<lambda>(p, ev). setRevents ev p) evs) (logged DEBUG s1) = Inr ?s2" by simp
    from False show "EPollPoller_poll ms s = Inr ((fst (now s), map fst evs), ?s3)" using size tw fr st n(1)
      by (simp add: EPollPoller_poll_def pw nw stmt_defs nextSize_def kInitEventListSize_def)
  qed
  show "trace (afterPoll ms evs s) = trace s @ [SysEpollWait (epollFd s) (evSize s) ms]"
    using fr unfolding s3 by simp
qed

lemma poll_ok:
  assumes "pollEvents s = Some evs" and "\<forall>e \<in> set evs. chans s (fst e) \<noteq> None"
    and "kInitEventListSize \<le> evSize s" "evSize s < 2 ^ 62"
  obtains s' where
    "EPollPoller_poll ms s = Inr ((fst (now s), map fst evs), s')"
    "evSize s' = nextSize (length evs) (evSize s)"
    "chans s' = storeRevents evs (chans s)"
    "trace s' = trace s @ [SysEpollWait (epollFd s) (evSize s) ms]"
  using that[OF poll_eq(1)[OF assms, of ms] _ _ poll_eq(2)[OF assms, of ms]] by (simp add: afterPoll_def)

text \<open>A wait that fails is logged and reports nothing.\<close>

definition afterFailedPoll :: "int \<Rightarrow> ('t, 'z) poll_scheme \<Rightarrow> ('t, 'z) poll_scheme" where
  "afterFailedPoll ms s = logged ERROR (snd (now (afterSys (SysEpollWait (epollFd s) (evSize s) ms) s)))"

lemma poll_fails:
  assumes "pollEvents s = None" and "evSize s < 2 ^ 62"
  shows "EPollPoller_poll ms s = Inr ((fst (now s), []), afterFailedPoll ms s)"
    "evSize (afterFailedPoll ms s) = evSize s"
    "trace (afterFailedPoll ms s) = trace s @ [SysEpollWait (epollFd s) (evSize s) ms]"
proof -
  have neg: "a_ret (nextAns s) < 0" using assms(1) by (simp add: pollEvents_def split: if_splits)
  have m1: "unat ((- 1 :: 64 word) * 2) \<ge> 2 ^ 62" by simp
  obtain s1 where nw: "now (afterSys (SysEpollWait (epollFd s) (evSize s) ms) s) = (fst (now s), s1)"
    and fr: "evSize s1 = evSize s" "trace s1 = trace s @ [SysEpollWait (epollFd s) (evSize s) ms]"
    by (rule now_afterSys)
  show "EPollPoller_poll ms s = Inr ((fst (now s), []), afterFailedPoll ms s)"
    using neg m1 assms(2) fr
    by (simp add: EPollPoller_poll_def poll_wait_def sys_eq stmt_defs nw afterFailedPoll_def)
  show "evSize (afterFailedPoll ms s) = evSize s"
    "trace (afterFailedPoll ms s) = trace s @ [SysEpollWait (epollFd s) (evSize s) ms]"
    using fr by (simp_all add: afterFailedPoll_def nw)
qed

section \<open>Properties\<close>

datatype maskop = EnableReading | EnableWriting | DisableReading | DisableWriting | DisableAll

fun runMask :: "maskop \<Rightarrow> nat \<Rightarrow> ('t, 'z) poll_scheme stmt" where
  "runMask EnableReading = enableReading updateChannel"
| "runMask EnableWriting = enableWriting updateChannel"
| "runMask DisableReading = disableReading updateChannel"
| "runMask DisableWriting = disableWriting updateChannel"
| "runMask DisableAll = disableAll updateChannel"

fun newMask :: "maskop \<Rightarrow> 32 word \<Rightarrow> 32 word" where
  "newMask EnableReading e = e OR kReadEvent"
| "newMask EnableWriting e = e OR kWriteEvent"
| "newMask DisableReading e = e AND NOT kReadEvent"
| "newMask DisableWriting e = e AND NOT kWriteEvent"
| "newMask DisableAll e = kNoneEvent"

lemma runMask_block: "runMask m cid =
    block [modChan ''Channel'' (\<lambda>ch. ch\<lparr>c_events := newMask m (c_events ch)\<rparr>) cid, updateChannel cid]"
  by (cases m) (simp_all add: enableReading_def enableWriting_def disableReading_def
      disableWriting_def disableAll_def)

text \<open>A process with an epoll instance and the given channels, in the loop thread.\<close>

definition demoPoll :: "(nat \<Rightarrow> answer) \<Rightarrow> (nat \<Rightarrow> 't channel option) \<Rightarrow> 't poll" where
  "demoPoll e h = \<lparr>errno = 0, g_logLevel = INFO, logOut = [], curTid = 1, trace = [], env = e,
     envIx = 0, clock = (\<lambda>_. (0, 0)), clockIx = 0, addrStorage = [],
     loopTid = 1, chans = h, nextChan = 10,
     epollFd = 3, evSize = 16\<rparr>"

definition okAns :: answer where
  "okAns = \<lparr>a_ret = 0, a_err = 0, a_payload = [], a_events = []\<rparr>"



text \<open>
  Emptying the mask of a channel the poller does not have aborts: an operation that leaves
  no event to watch fails the assertion of \<^verbatim>\<open>updateChannel\<close> when the channel was not added before
  (so disabling twice, or disabling a channel that was never enabled, ends the process).
\<close>

lemma disable_unadded_aborts:
  assumes "chans s cid = Some ch" and "curTid s = loopTid s"
    and "\<not> c_added ch" and "newMask m (c_events ch) = 0"
  shows "runMask m cid s = Inl (AssertFailed ''updateChannel'')"
  using assms by (simp add: runMask_block modChan_def withChan_def updateChannel_def assertThat_def
      assertInLoopThread_def isNoEvent_def kNoneEvent_def)

text \<open>
  C18. One wait hands out exactly the events the kernel reported, in its order: the call returns
  the reported channels, stores in each the mask reported for it, touches no other channel, and
  resizes the result vector: twice the size when it was full, half the size when it is larger
  than the initial 16 and less than half of it was used, unchanged otherwise.
\<close>

theorem poll_reports:
  assumes "pollEvents s = Some evs" and "\<forall>e \<in> set evs. chans s (fst e) \<noteq> None"
    and "kInitEventListSize \<le> evSize s" and "evSize s < 2 ^ 62" and "distinct (map fst evs)"
  shows "\<exists>t s'. EPollPoller_poll ms s = Inr ((t, map fst evs), s') \<and>
    evSize s' = nextSize (length evs) (evSize s) \<and>
    (\<forall>p. chans s' p = (case map_of evs p of
       None \<Rightarrow> chans s p | Some ev \<Rightarrow> map_option (\<lambda>ch. ch\<lparr>c_revents := ev\<rparr>) (chans s p)))"
proof -
  obtain s' where s': "EPollPoller_poll ms s = Inr ((fst (now s), map fst evs), s')"
    "evSize s' = nextSize (length evs) (evSize s)" "chans s' = storeRevents evs (chans s)"
    using poll_ok[OF assms(1-4), of ms] by metis
  have "chans s' p = (case map_of evs p of
       None \<Rightarrow> chans s p | Some ev \<Rightarrow> map_option (\<lambda>ch. ch\<lparr>c_revents := ev\<rparr>) (chans s p))" for p
  proof (cases "map_of evs p")
    case None
    then have "p \<notin> fst ` set evs" by (simp add: map_of_eq_None_iff)
    with s'(3) have "chans s' p = chans s p" by (simp add: storeRevents_other)
    with None show ?thesis by (simp only: option.case)
  next
    case (Some ev)
    then have in_evs: "(p, ev) \<in> set evs" by (rule map_of_SomeD)
    with assms(2) obtain ch where "chans s p = Some ch" by force
    with Some in_evs storeRevents_reported[OF assms(5) in_evs] s'(3) show ?thesis by simp
  qed
  with s' show ?thesis by blast
qed

theorem poll_reports_witness:
  "\<exists>t s'. EPollPoller_poll 10000 (demoPoll (\<lambda>_. okAns\<lparr>a_events := [(5, 1), (2, 4)]\<rparr>)
     (\<lambda>_. Some (mkChannel 7 True))) = Inr ((t, [5, 2]), s') \<and> evSize s' = 16"
proof -
  let ?s = "demoPoll (\<lambda>_. okAns\<lparr>a_events := [(5, 1), (2, 4)]\<rparr>) (\<lambda>_. Some (mkChannel 7 True))"
  have "pollEvents ?s = Some [(5, 1), (2, 4)]"
    by (simp add: pollEvents_def nextAns_def demoPoll_def okAns_def)
  then show ?thesis using poll_reports[of ?s "[(5, 1), (2, 4)]" 10000]
    by (auto simp: demoPoll_def kInitEventListSize_def nextSize_def)
qed

text \<open>
  The result vector always has 16, 32, 64, ... entries: its size is 16 times a power of two
  after every wait that returns, whether events were reported, none, or the call failed.
\<close>

lemma poll_size_invariant:
  assumes "\<exists>k. evSize s = 16 * 2 ^ k" and "evSize s < 2 ^ 62"
    and "case pollEvents s of None \<Rightarrow> True | Some evs \<Rightarrow> (\<forall>e \<in> set evs. chans s (fst e) \<noteq> None)"
  shows "\<exists>r s'. EPollPoller_poll ms s = Inr (r, s') \<and> (\<exists>k. evSize s' = 16 * 2 ^ k)"
proof (cases "pollEvents s")
  case None
  then show ?thesis using poll_fails(1,2)[OF None assms(2), of ms] assms(1) by metis
next
  case (Some evs)
  obtain k where k: "evSize s = 16 * 2 ^ k" using assms(1) by blast
  have ge: "kInitEventListSize \<le> evSize s" using k by (simp add: kInitEventListSize_def)
  obtain s' where s': "EPollPoller_poll ms s = Inr ((fst (now s), map fst evs), s')"
    "evSize s' = nextSize (length evs) (evSize s)"
    using poll_ok[OF Some _ ge assms(2), of ms] assms(3) Some by auto
  have "\<exists>j. nextSize n (16 * 2 ^ k) = 16 * 2 ^ j" for n
  proof (cases k)
    case 0
    then show ?thesis
      by (auto simp: nextSize_def kInitEventListSize_def intro: exI[of _ 0] exI[of _ 1])
  next
    case (Suc j)
    then show ?thesis
      by (auto simp: nextSize_def intro: exI[of _ j] exI[of _ k] exI[of _ "Suc k"])
  qed
  with s' k show ?thesis by metis
qed

end
