(* ===== verification/TaskQueue.thy ===== *)
theory TaskQueue
  imports EPollPoller ISocket
begin

text \<open>
  The part of src/net/EventLoop.cpp that needs no timers: the queue of tasks other threads (and the
  loop itself) leave for the loop thread, the event descriptor that wakes the loop, and the
  calls that reach the poller. Tasks are closures of the type \<open>'t\<close>; running one is the parameter
  \<open>exec\<close>. A call of \<^verbatim>\<open>runInLoop\<close> passes a closure and its meaning: the closure is queued, or the
  meaning runs at once.
\<close>

record 't taskq = "'t poll" +
  isLooping :: bool
  exitFlag :: bool
  workingFlag :: bool
  tasks :: "'t list"
  wakeupFd :: int
  wakeupChan :: nat

lemma taskq_frame [simp]:
  "isLooping (logged l s) = isLooping s" "isLooping (afterSys c s) = isLooping s"
  "exitFlag (logged l s) = exitFlag s" "exitFlag (afterSys c s) = exitFlag s"
  "workingFlag (logged l s) = workingFlag s" "workingFlag (afterSys c s) = workingFlag s"
  "tasks (logged l s) = tasks s" "tasks (afterSys c s) = tasks s"
  "wakeupFd (logged l s) = wakeupFd s" "wakeupFd (afterSys c s) = wakeupFd s"
  "wakeupChan (logged l s) = wakeupChan s" "wakeupChan (afterSys c s) = wakeupChan s"
  by (simp_all add: logged_def afterSys_def)

section \<open>Waking the loop\<close>

definition isInLoopThread :: "('t, 'z) chanheap_scheme \<Rightarrow> bool" where
  "isInLoopThread s \<longleftrightarrow> loopTid s = curTid s"

definition createEventfd :: "('z process_scheme, int) func" where
  "createEventfd =
     call (sysRet SysEventfd) (\<lambda>eventfd.
     thenDo (doIf (\<lambda>_. eventfd < 0) (LOG FATAL))
     (retF eventfd))"

definition wakeup :: "('t, 'z) taskq_scheme stmt" where
  "wakeup = letIn wakeupFd (\<lambda>fd.
     call (sysRet (SysWriteFd fd 8)) (\<lambda>n.
     doIf (\<lambda>_. n \<noteq> 8) (LOG ERROR)))"

definition EventLoop_handleRead :: "('t, 'z) taskq_scheme stmt" where
  "EventLoop_handleRead = letIn wakeupFd (\<lambda>fd.
     call (sysRet (SysRead fd 8)) (\<lambda>n.
     doIf (\<lambda>_. n \<noteq> 8) (LOG ERROR)))"

definition quit :: "('t, 'z) taskq_scheme stmt" where
  "quit = block [
     upd (\<lambda>s. s\<lparr>exitFlag := True\<rparr>),
     doIf (\<lambda>s. \<not> isInLoopThread s) wakeup]"

section \<open>The task queue\<close>

definition queueInLoop :: "'t \<Rightarrow> ('t, 'z) taskq_scheme stmt" where
  "queueInLoop task = block [
     upd (\<lambda>s. s\<lparr>tasks := tasks s @ [task]\<rparr>),
     doIf (\<lambda>s. \<not> isInLoopThread s \<or> workingFlag s) wakeup]"

definition runInLoop :: "'t \<Rightarrow> ('t, 'z) taskq_scheme stmt \<Rightarrow> ('t, 'z) taskq_scheme stmt" where
  "runInLoop task body = ifElse isInLoopThread body (queueInLoop task)"

definition doTask :: "('t \<Rightarrow> ('t, 'z) taskq_scheme stmt) \<Rightarrow> ('t, 'z) taskq_scheme stmt" where
  "doTask exec = block [
     upd (\<lambda>s. s\<lparr>workingFlag := True\<rparr>),
     letIn tasks (\<lambda>ts. block [
       upd (\<lambda>s. s\<lparr>tasks := []\<rparr>),
       block (map exec ts)]),
     upd (\<lambda>s. s\<lparr>workingFlag := False\<rparr>)]"

section \<open>Reaching the poller\<close>

definition EventLoop_updateChannel :: "nat \<Rightarrow> ('t, 'z) poll_scheme stmt" where
  "EventLoop_updateChannel cid = block [assertInLoopThread, updateChannel cid]"

definition EventLoop_removeChannel :: "nat \<Rightarrow> ('t, 'z) poll_scheme stmt" where
  "EventLoop_removeChannel cid = block [assertInLoopThread, removeChannel cid]"

text \<open>
  The destructor of a channel. A channel that owns its descriptor closes it later, in a task
  that captures the channel itself; by then the object is gone. \<open>queue\<close> is \<^verbatim>\<open>queueInLoop\<close> of the
  channel's loop (the destructor of the loop itself calls it on a loop half destroyed).
\<close>

definition Channel_destroy ::
  "('t \<Rightarrow> ('t, 'z) taskq_scheme stmt) \<Rightarrow> (nat \<Rightarrow> 't) \<Rightarrow> nat \<Rightarrow> ('t, 'z) taskq_scheme stmt" where
  "Channel_destroy queue closeTask cid = block [
     withChan ''Channel::~Channel'' cid (\<lambda>ch.
       doIf (\<lambda>_. c_added ch) (EventLoop_removeChannel cid)),
     withChan ''Channel::~Channel'' cid (\<lambda>ch.
       doIf (\<lambda>_. c_mgmt ch) (queue (closeTask cid))),
     upd (\<lambda>s. s\<lparr>chans := (chans s)(cid := None)\<rparr>)]"

abbreviation Channel_dtor :: "(nat \<Rightarrow> 't) \<Rightarrow> nat \<Rightarrow> ('t, 'z) taskq_scheme stmt" where
  "Channel_dtor \<equiv> Channel_destroy queueInLoop"

definition Channel_closeTask :: "nat \<Rightarrow> ('t, 'z) taskq_scheme stmt" where
  "Channel_closeTask cid = withChan ''Channel::~Channel task'' cid (\<lambda>ch.
     callE (ISocket_close (c_fd ch)) (\<lambda>r.
     if r = 0 then withChan ''Channel::~Channel task'' cid (\<lambda>ch.
       call (sysRet (SysFcntlGetFl (c_fd ch))) (\<lambda>f.
       if f = - 1 then resetFdAfterClose (- 1) cid else Inr))
     else Inr))"

lemma EventLoop_updateChannel_eq: "EventLoop_updateChannel = updateChannel"
  by (auto simp: fun_eq_iff EventLoop_updateChannel_def updateChannel_def assertInLoopThread_def
      assertThat_def)

lemma EventLoop_removeChannel_eq: "EventLoop_removeChannel = removeChannel"
  by (auto simp: fun_eq_iff EventLoop_removeChannel_def removeChannel_def assertInLoopThread_def
      assertThat_def)

section \<open>What the queue does\<close>

text \<open>
  The event descriptor is readable when it was written after it was last read: \<open>readable fd\<close>
  replays the trace.
\<close>

definition readableStep :: "int \<Rightarrow> bool \<Rightarrow> syscall \<Rightarrow> bool" where
  "readableStep fd b c = (case c of
       SysWriteFd fd' n \<Rightarrow> (if fd' = fd then True else b)
     | SysRead fd' n \<Rightarrow> (if fd' = fd then False else b)
     | _ \<Rightarrow> b)"

definition readable :: "int \<Rightarrow> syscall list \<Rightarrow> bool" where
  "readable fd = foldl (readableStep fd) False"

lemma readable_snoc [simp]: "readable fd (tr @ [c]) = readableStep fd (readable fd tr) c"
  by (simp add: readable_def)

text \<open>The state after \<^verbatim>\<open>wakeup()\<close> and after \<^verbatim>\<open>queueInLoop\<close>.\<close>

definition afterWakeup :: "('t, 'z) taskq_scheme \<Rightarrow> ('t, 'z) taskq_scheme" where
  "afterWakeup s = (let s1 = afterSys (SysWriteFd (wakeupFd s) 8) s; bad = a_ret (nextAns s) \<noteq> 8 in
     s1\<lparr>errno := (if bad \<and> g_logLevel s \<le> ERROR then 0 else errno s1),
        logOut := logOut s @ (if bad \<and> g_logLevel s \<le> ERROR then [ERROR] else [])\<rparr>)"

lemma wakeup_eq: "wakeup s = Inr (afterWakeup s)"
  by (cases s) (simp add: wakeup_def stmt_defs sysRet_eq afterWakeup_def logged_def afterSys_def nextAns_def)

lemma afterWakeup_frame [simp]:
  "tasks (afterWakeup s) = tasks s" "workingFlag (afterWakeup s) = workingFlag s"
  "exitFlag (afterWakeup s) = exitFlag s" "isLooping (afterWakeup s) = isLooping s"
  "wakeupFd (afterWakeup s) = wakeupFd s" "curTid (afterWakeup s) = curTid s"
  "loopTid (afterWakeup s) = loopTid s" "chans (afterWakeup s) = chans s"
  "trace (afterWakeup s) = trace s @ [SysWriteFd (wakeupFd s) 8]"
  by (simp_all add: afterWakeup_def Let_def)

lemma queueInLoop_eq:
  "queueInLoop task s = (let s1 = s\<lparr>tasks := tasks s @ [task]\<rparr> in
     Inr (if \<not> isInLoopThread s \<or> workingFlag s then afterWakeup s1 else s1))"
  by (simp add: queueInLoop_def upd_def doIf_def wakeup_eq isInLoopThread_def Let_def)

text \<open>\<^verbatim>\<open>queueInLoop\<close> never fails and appends exactly one task.\<close>

lemma queueInLoop_ok:
  obtains s' where "queueInLoop task s = Inr s'" "tasks s' = tasks s @ [task]"
    "workingFlag s' = workingFlag s" "exitFlag s' = exitFlag s" "chans s' = chans s"
    "curTid s' = curTid s" "loopTid s' = loopTid s" "wakeupFd s' = wakeupFd s"
    "trace s' = trace s @ (if \<not> isInLoopThread s \<or> workingFlag s then [SysWriteFd (wakeupFd s) 8] else [])"
  by (rule that[OF queueInLoop_eq[unfolded Let_def]]) (simp_all)

text \<open>
  While tasks run, a queued task implies a pending wake-up: the condition under which the next
  wait returns at once.
\<close>

definition wakePending :: "('t, 'z) taskq_scheme \<Rightarrow> bool" where
  "wakePending s \<longleftrightarrow> (tasks s \<noteq> [] \<longrightarrow> readable (wakeupFd s) (trace s))"

definition workInv :: "('t, 'z) taskq_scheme \<Rightarrow> bool" where
  "workInv s \<longleftrightarrow> workingFlag s \<and> wakePending s"

lemma queueInLoop_workInv [keeps_intros]: "keeps workInv (queueInLoop task)"
  unfolding keeps_def
proof (intro allI impI)
  fix s s' assume a: "workInv s" "queueInLoop task s = Inr s'"
  obtain t where "queueInLoop task s = Inr t" "workingFlag t = workingFlag s" "wakeupFd t = wakeupFd s"
    "trace t = trace s @ (if \<not> isInLoopThread s \<or> workingFlag s then [SysWriteFd (wakeupFd s) 8] else [])"
    by (rule queueInLoop_ok)
  with a show "workInv s'" by (simp add: workInv_def wakePending_def readableStep_def)
qed

lemma doTask_wakePending:
  assumes "\<And>t. t \<in> set (tasks s) \<Longrightarrow> keeps workInv (exec t)" and "doTask exec s = Inr s'"
  shows "wakePending s' \<and> \<not> workingFlag s'"
proof -
  let ?s = "s\<lparr>workingFlag := True, tasks := []\<rparr>"
  from assms(2) obtain s1 where s1: "block (map exec (tasks s)) ?s = Inr s1" "s' = s1\<lparr>workingFlag := False\<rparr>"
    by (auto simp: doTask_def upd_def letIn_def andThen_Inr_iff)
  have "keeps workInv (block (map exec (tasks s)))"
    using assms(1) by (intro keeps_block) auto
  moreover have "workInv ?s" by (simp add: workInv_def wakePending_def)
  ultimately have "workInv s1" using keepsD[of workInv "block (map exec (tasks s))" ?s s1] s1(1) by blast
  then show ?thesis using s1(2) by (simp add: workInv_def wakePending_def)
qed

section \<open>Properties\<close>

text \<open>A loop thread's process with the given tasks queued; tasks log their own level.\<close>

definition demoTaskq :: "(nat \<Rightarrow> answer) \<Rightarrow> 't list \<Rightarrow> 't taskq" where
  "demoTaskq e ts = poll.extend (demoPoll e Map.empty)
     \<lparr>isLooping = True, exitFlag = False, workingFlag = False, tasks = ts, wakeupFd = 5, wakeupChan = 1\<rparr>"

text \<open>
  No wake-up is lost: when the tasks only disturb the queue through \<^verbatim>\<open>queueInLoop\<close> and the
  like, then after \<^verbatim>\<open>doTask\<close> a non-empty queue implies that the event descriptor was written and
  not read since, so the next wait returns at once instead of sleeping its ten seconds; and the
  queue taken over has been run completely, once and in order.
\<close>

lemma doTask_no_lost_wakeup:
  assumes "\<And>t. t \<in> set (tasks s) \<Longrightarrow> keeps workInv (exec t)" and "doTask exec s = Inr s'"
  shows "(tasks s' \<noteq> [] \<longrightarrow> readable (wakeupFd s') (trace s')) \<and> \<not> workingFlag s' \<and>
    (\<exists>s1. block (map exec (tasks s)) (s\<lparr>workingFlag := True, tasks := []\<rparr>) = Inr s1 \<and>
          s' = s1\<lparr>workingFlag := False\<rparr>)"
  using doTask_wakePending[OF assms] assms(2)
  by (auto simp: wakePending_def doTask_def upd_def letIn_def andThen_Inr_iff)

end
