(* ===== verification/StdSet.thy ===== *)
theory StdSet
  imports Prelude
begin

text \<open>
  \<^verbatim>\<open>std::set\<close> with a comparator, as src/net/Timer.cpp uses it: a list of elements in the order of
  their keys. Keys are read through \<open>key\<close> because the elements are pointers and the comparator
  follows them. The locale is the comparator's contract (a strict weak order, as the standard
  demands); its lemmas say what \<^verbatim>\<open>insert\<close>, \<^verbatim>\<open>erase\<close> and \<^verbatim>\<open>lower_bound\<close> do under it.
\<close>

fun set_insert :: "('k \<Rightarrow> 'k \<Rightarrow> bool) \<Rightarrow> ('a \<Rightarrow> 'k) \<Rightarrow> 'a \<Rightarrow> 'a list \<Rightarrow> 'a list" where
  "set_insert lt key x [] = [x]"
| "set_insert lt key x (y # ys) =
     (if lt (key x) (key y) then x # y # ys
      else if lt (key y) (key x) then y # set_insert lt key x ys
      else y # ys)"

text \<open>\<^verbatim>\<open>erase(x)\<close> removes what is equivalent to \<open>x\<close>; its result is the number removed.\<close>

definition set_erase :: "('k \<Rightarrow> 'k \<Rightarrow> bool) \<Rightarrow> ('a \<Rightarrow> 'k) \<Rightarrow> 'a \<Rightarrow> 'a list \<Rightarrow> nat \<times> 'a list" where
  "set_erase lt key x xs =
     (let keep = filter (\<lambda>y. lt (key x) (key y) \<or> lt (key y) (key x)) xs
      in (length xs - length keep, keep))"

text \<open>The elements before and from \<^verbatim>\<open>lower_bound(k)\<close> on.\<close>

definition before_bound :: "('k \<Rightarrow> 'k \<Rightarrow> bool) \<Rightarrow> ('a \<Rightarrow> 'k) \<Rightarrow> 'k \<Rightarrow> 'a list \<Rightarrow> 'a list" where
  "before_bound lt key k = takeWhile (\<lambda>y. lt (key y) k)"

definition from_bound :: "('k \<Rightarrow> 'k \<Rightarrow> bool) \<Rightarrow> ('a \<Rightarrow> 'k) \<Rightarrow> 'k \<Rightarrow> 'a list \<Rightarrow> 'a list" where
  "from_bound lt key k = dropWhile (\<lambda>y. lt (key y) k)"

definition ordered :: "('k \<Rightarrow> 'k \<Rightarrow> bool) \<Rightarrow> ('a \<Rightarrow> 'k) \<Rightarrow> 'a list \<Rightarrow> bool" where
  "ordered lt key = sorted_wrt (\<lambda>x y. lt (key x) (key y))"

lemma before_from: "before_bound lt key k xs @ from_bound lt key k xs = xs"
  by (simp add: before_bound_def from_bound_def)

lemma set_insert_subset: "set (set_insert lt key x xs) \<subseteq> insert x (set xs)"
  by (induction xs) auto

lemma set_insert_keeps: "set xs \<subseteq> set (set_insert lt key x xs)"
  by (induction xs) auto

lemma set_insert_not_Nil: "set_insert lt key x xs \<noteq> []"
  by (cases xs) auto

lemma set_insert_hd: "hd (set_insert lt key x xs) = (if xs = [] \<or> lt (key x) (key (hd xs)) then x else hd xs)"
  by (cases xs) auto

text \<open>The operations read the keys of the elements and of the argument only.\<close>

lemma set_insert_cong:
  "key x = key' x \<Longrightarrow> (\<And>y. y \<in> set xs \<Longrightarrow> key y = key' y) \<Longrightarrow> set_insert lt key x xs = set_insert lt key' x xs"
  by (induction xs) auto

lemma ordered_cong:
  "(\<And>y. y \<in> set xs \<Longrightarrow> key y = key' y) \<Longrightarrow> ordered lt key xs = ordered lt key' xs"
  unfolding ordered_def by (auto intro!: sorted_wrt_mono_rel[of xs "\<lambda>x y. lt (key x) (key y)" "\<lambda>x y. lt (key' x) (key' y)"]
      sorted_wrt_mono_rel[of xs "\<lambda>x y. lt (key' x) (key' y)" "\<lambda>x y. lt (key x) (key y)"])

lemma before_bound_cong:
  "(\<And>y. y \<in> set xs \<Longrightarrow> key y = key' y) \<Longrightarrow> before_bound lt key k xs = before_bound lt key' k xs"
  unfolding before_bound_def by (rule takeWhile_cong) auto

lemma from_bound_cong:
  "(\<And>y. y \<in> set xs \<Longrightarrow> key y = key' y) \<Longrightarrow> from_bound lt key k xs = from_bound lt key' k xs"
  unfolding from_bound_def by (rule dropWhile_cong) auto

locale comparator =
  fixes lt :: "'k \<Rightarrow> 'k \<Rightarrow> bool"
  assumes irrefl: "\<not> lt a a"
    and trans: "lt a b \<Longrightarrow> lt b c \<Longrightarrow> lt a c"
    and weak: "lt a c \<Longrightarrow> lt a b \<or> lt b c"
begin

lemma asym: "lt a b \<Longrightarrow> \<not> lt b a"
  using irrefl trans by blast

text \<open>Inserting keeps the order, and inserts unless an equivalent element is there.\<close>

lemma insert_ordered:
  "ordered lt key xs \<Longrightarrow> ordered lt key (set_insert lt key x xs)"
proof (induction xs)
  case Nil
  then show ?case by (simp add: ordered_def)
next
  case (Cons y ys)
  show ?case
  proof (cases "lt (key x) (key y)")
    case True
    then show ?thesis using Cons.prems trans by (auto simp: ordered_def)
  next
    case False
    then show ?thesis
      using Cons set_insert_subset[of lt key x ys] by (auto simp: ordered_def)
  qed
qed

lemma insert_set:
  assumes "\<forall>y \<in> set xs. lt (key x) (key y) \<or> lt (key y) (key x)"
  shows "set (set_insert lt key x xs) = insert x (set xs)"
  using assms by (induction xs) auto

lemma insert_distinct:
  assumes "distinct xs" "x \<notin> set xs"
  shows "distinct (set_insert lt key x xs)"
  using assms
proof (induction xs)
  case Nil
  then show ?case by simp
next
  case (Cons y ys)
  then show ?case using set_insert_subset[of lt key x ys] by auto
qed

text \<open>Erasing an element of the set removes exactly that element.\<close>

lemma ordered_comparable:
  assumes "ordered lt key xs" "x \<in> set xs" "y \<in> set xs" "x \<noteq> y"
  shows "lt (key x) (key y) \<or> lt (key y) (key x)"
  using assms by (induction xs) (auto simp: ordered_def)

lemma ordered_distinct: "ordered lt key xs \<Longrightarrow> distinct xs"
  using irrefl by (induction xs) (auto simp: ordered_def)

lemma erase_member:
  assumes "ordered lt key xs" "x \<in> set xs"
  shows "set_erase lt key x xs = (1, remove1 x xs)"
proof -
  have d: "distinct xs" using assms(1) by (rule ordered_distinct)
  have f: "filter (\<lambda>y. lt (key x) (key y) \<or> lt (key y) (key x)) xs = remove1 x xs"
    using assms ordered_comparable[OF assms(1,2)] irrefl
    by (auto simp: distinct_remove1_removeAll[OF d] removeAll_filter_not_eq intro!: filter_cong)
  have "length xs - (length xs - 1) = 1" using assms(2) by (cases xs) auto
  then show ?thesis using assms(2) f by (simp add: set_erase_def length_remove1)
qed

text \<open>Erasing what has no equivalent element removes nothing.\<close>

lemma erase_absent:
  assumes "\<forall>y \<in> set xs. lt (key x) (key y) \<or> lt (key y) (key x)"
  shows "set_erase lt key x xs = (0, xs)"
  using assms by (simp add: set_erase_def)

text \<open>\<^verbatim>\<open>lower_bound\<close> splits the set: all before it are less, none from it on is.\<close>

lemma before_less: "y \<in> set (before_bound lt key k xs) \<Longrightarrow> lt (key y) k"
  unfolding before_bound_def by (meson set_takeWhileD)

lemma from_not_less:
  assumes "ordered lt key xs" "y \<in> set (from_bound lt key k xs)"
  shows "\<not> lt (key y) k"
  using assms
proof (induction xs)
  case Nil
  then show ?case by (simp add: from_bound_def)
next
  case (Cons x xs)
  show ?case
  proof (cases "lt (key x) k")
    case True
    then show ?thesis using Cons by (simp add: from_bound_def ordered_def)
  next
    case False
    then show ?thesis using Cons.prems trans by (auto simp: from_bound_def ordered_def)
  qed
qed

lemma before_ordered: "ordered lt key xs \<Longrightarrow> ordered lt key (before_bound lt key k xs)"
  unfolding ordered_def by (metis before_from sorted_wrt_append)

lemma from_ordered: "ordered lt key xs \<Longrightarrow> ordered lt key (from_bound lt key k xs)"
  unfolding ordered_def by (metis before_from sorted_wrt_append)

lemma remove_ordered: "ordered lt key xs \<Longrightarrow> ordered lt key (remove1 x xs)"
proof (induction xs)
  case Nil
  then show ?case by simp
next
  case (Cons y ys)
  then show ?case using set_remove1_subset[of x ys] by (auto simp: ordered_def)
qed

end

end
