(* ===== verification/Timer.thy ===== *)
theory Timer
  imports TaskQueue StdSet
begin

text \<open>
  src/net/Timer.h and Timer.cpp: the timers of an event loop. Timers live in a heap, \<open>tmHeap\<close>,
  keyed by their address; a deleted timer is absent. \<open>timers\<close> is the set \<^verbatim>\<open>_timers\<close> in its order,
  \<open>canceling\<close> the set \<^verbatim>\<open>_cancelingTimers\<close> of timer ids (the order of an unordered set is
  unspecified; here it is that of insertion). Addresses are not reused by the model. The
  counter \<^verbatim>\<open>s_numCreated\<close> has 32 bits and wraps around.
\<close>

section \<open>Timer\<close>

type_synonym timerId = "32 word \<times> nat"

text \<open>Two ids are the same when their numbers are; the pointers are not compared (nor hashed).\<close>

definition timerIdEq :: "timerId \<Rightarrow> timerId \<Rightarrow> bool" where
  "timerIdEq lhs rhs \<longleftrightarrow> fst lhs = fst rhs"

definition timerIdLess :: "timerId \<Rightarrow> timerId \<Rightarrow> bool" where
  [simp]: "timerIdLess lhs rhs \<longleftrightarrow> fst lhs < fst rhs"

text \<open>\<open>hash\<close> is the library's hash of a 32-bit number.\<close>

definition timerIdHash :: "(32 word \<Rightarrow> 64 word) \<Rightarrow> timerId \<Rightarrow> 64 word" where
  "timerIdHash hash tid = hash (fst tid)"

text \<open>Finding an id in an unordered set: an element of the same bucket's hash that is equal.\<close>

definition idIn :: "timerId \<Rightarrow> timerId list \<Rightarrow> bool" where
  "idIn tid ids \<longleftrightarrow> list_ex (timerIdEq tid) ids"

lemma idIn_iff [simp]: "idIn tid ids \<longleftrightarrow> fst tid \<in> fst ` set ids"
  by (auto simp: idIn_def timerIdEq_def list_ex_iff)

lemma hash_agrees: "timerIdEq a b \<Longrightarrow> timerIdHash hash a = timerIdHash hash b"
  by (simp add: timerIdEq_def timerIdHash_def)

record 't timer =
  tm_cb :: 't
  tm_expire :: timestamp
  tm_interval :: double
  tm_id :: "32 word"

definition getTimerId :: "nat \<Rightarrow> 't timer \<Rightarrow> timerId" where
  [simp]: "getTimerId p t = (tm_id t, p)"

definition Timer_expiration :: "'t timer \<Rightarrow> timestamp" where
  [simp]: "Timer_expiration t = tm_expire t"

definition repeat :: "'t timer \<Rightarrow> bool" where
  "repeat t \<longleftrightarrow> doublePos (tm_interval t)"

definition restart :: "timestamp \<Rightarrow> 't timer \<Rightarrow> 't timer" where
  "restart t0 t = (if repeat t then t\<lparr>tm_expire := addTime (tm_interval t) t0\<rparr>
     else t\<lparr>tm_expire := invalidTime\<rparr>)"

record 't timerq = "'t taskq" +
  numCreated :: "32 word"
  tmHeap :: "nat \<Rightarrow> 't timer option"
  nextTimer :: nat
  timers :: "nat list"
  canceling :: "timerId list"
  timerWorking :: bool
  timerFd :: int
  timerChan :: nat

lemma timerq_frame [simp]:
  "numCreated (logged l s) = numCreated s" "numCreated (afterSys c s) = numCreated s"
  "tmHeap (logged l s) = tmHeap s" "tmHeap (afterSys c s) = tmHeap s"
  "nextTimer (logged l s) = nextTimer s" "nextTimer (afterSys c s) = nextTimer s"
  "timers (logged l s) = timers s" "timers (afterSys c s) = timers s"
  "canceling (logged l s) = canceling s" "canceling (afterSys c s) = canceling s"
  "timerWorking (logged l s) = timerWorking s" "timerWorking (afterSys c s) = timerWorking s"
  "timerFd (logged l s) = timerFd s" "timerFd (afterSys c s) = timerFd s"
  "timerChan (logged l s) = timerChan s" "timerChan (afterSys c s) = timerChan s"
  by (simp_all add: logged_def afterSys_def)

definition newTimer :: "'t \<Rightarrow> timestamp \<Rightarrow> double \<Rightarrow> ('t, 'z) timerq_scheme \<Rightarrow>
    nat \<times> ('t, 'z) timerq_scheme" where
  "newTimer cb expiration interval s = (nextTimer s,
     s\<lparr>tmHeap := (tmHeap s)(nextTimer s \<mapsto>
         \<lparr>tm_cb = cb, tm_expire = expiration, tm_interval = interval, tm_id = numCreated s\<rparr>),
       nextTimer := Suc (nextTimer s), numCreated := numCreated s + 1\<rparr>)"

definition withTimer ::
  "string \<Rightarrow> nat \<Rightarrow> ('t timer \<Rightarrow> ('t, 'z) timerq_scheme \<Rightarrow> 'b outcome) \<Rightarrow>
     ('t, 'z) timerq_scheme \<Rightarrow> 'b outcome" where
  "withTimer who p k s = (case tmHeap s p of None \<Rightarrow> Inl (UseAfterFree who) | Some t \<Rightarrow> k t s)"

definition freeTimer :: "nat \<Rightarrow> ('t, 'z) timerq_scheme stmt" where
  "freeTimer p = withTimer ''delete Timer'' p (\<lambda>_ s. Inr (s\<lparr>tmHeap := (tmHeap s)(p := None)\<rparr>))"

section \<open>The timer descriptor\<close>

text \<open>\<^verbatim>\<open>struct timespec\<close> as seconds and nanoseconds.\<close>

definition timespecOf :: "timestamp \<Rightarrow> timestamp \<Rightarrow> int \<times> int" where
  "timespecOf when t0 = (let microseconds = when - t0;
       microseconds = (if microseconds < 100 then 100 else microseconds) in
     (cdiv microseconds kMicroSecondsPerSecond, cmod microseconds kMicroSecondsPerSecond * 1000))"

definition howMuchTimeFromNow ::
  "timestamp \<Rightarrow> 'z process_scheme \<Rightarrow> (int \<times> int) \<times> 'z process_scheme" where
  "howMuchTimeFromNow when s = (case now s of (t0, s') \<Rightarrow> (timespecOf when t0, s'))"

definition createTimerfd :: "('z process_scheme, int) func" where
  "createTimerfd =
     call (sysRet SysTimerfdCreate) (\<lambda>timerfd.
     thenDo (doIf (\<lambda>_. timerfd < 0) (LOG FATAL))
     (retF timerfd))"

definition readTimerfd :: "int \<Rightarrow> 'z process_scheme stmt" where
  "readTimerfd timerfd =
     call (sysRet (SysRead timerfd 8)) (\<lambda>n. doIf (\<lambda>_. n \<noteq> 8) (LOG ERROR))"

definition resetTimerfd :: "int \<Rightarrow> timestamp \<Rightarrow> 'z process_scheme stmt" where
  "resetTimerfd timerfd expiration =
     call (howMuchTimeFromNow expiration) (\<lambda>(sec, nsec).
     call (sysRet (SysTimerfdSettime timerfd sec nsec)) (\<lambda>ret.
     doIf (\<lambda>_. ret \<noteq> 0) (LOG FATAL)))"

section \<open>The set of timers\<close>

text \<open>
  \<^verbatim>\<open>TimerCmp\<close> on the expiration and the id of two timers. The comparator follows the pointers:
  an operation on a non-empty set reads the argument and elements of the set.
\<close>

definition timerLess :: "timestamp \<times> 32 word \<Rightarrow> timestamp \<times> 32 word \<Rightarrow> bool" where
  "timerLess a b \<longleftrightarrow> (if timestampEq (fst a) (fst b) then snd a < snd b
     else timestampLess (fst a) (fst b))"

definition keyIn :: "(nat \<Rightarrow> 't timer option) \<Rightarrow> nat \<Rightarrow> timestamp \<times> 32 word" where
  "keyIn h p = (case h p of None \<Rightarrow> (0, 0) | Some t \<Rightarrow> (tm_expire t, tm_id t))"

definition followSet :: "string \<Rightarrow> nat list \<Rightarrow> ('t, 'z) timerq_scheme stmt" where
  "followSet who args s = (if timers s \<noteq> [] \<and> (\<exists>q \<in> set (args @ timers s). tmHeap s q = None)
     then Inl (UseAfterFree who) else Inr s)"

definition expirationOf :: "nat \<Rightarrow> ('t, 'z) timerq_scheme \<Rightarrow> timestamp" where
  "expirationOf p s = fst (keyIn (tmHeap s) p)"

definition insertTimer :: "nat \<Rightarrow> (('t, 'z) timerq_scheme, bool) func" where
  "insertTimer p =
     withTimer ''insertTimer'' p (\<lambda>t.
     thenDo (followSet ''insertTimer'' [p])
     (letIn (\<lambda>s. timers s = [] \<or> timestampLess (Timer_expiration t) (expirationOf (hd (timers s)) s)) (\<lambda>earliestChanged.
     thenDo (upd (\<lambda>s. s\<lparr>timers := set_insert timerLess (keyIn (tmHeap s)) p (timers s)\<rparr>))
     (retF earliestChanged))))"

definition deleteTimer :: "nat \<Rightarrow> ('t, 'z) timerq_scheme stmt" where
  "deleteTimer p = block [
     followSet ''deleteTimer'' [p],
     letIn (\<lambda>s. set_erase timerLess (keyIn (tmHeap s)) p (timers s)) (\<lambda>(n, ts). block [
       upd (\<lambda>s. s\<lparr>timers := ts\<rparr>),
       assertThat ''deleteTimer'' (\<lambda>_. n \<noteq> 0)]),
     freeTimer p]"

text \<open>The sentinel of \<^verbatim>\<open>getExpired\<close> is a local \<^verbatim>\<open>Timer\<close>: it takes an id, and its key is the bound.\<close>

definition getExpired :: "timestamp \<Rightarrow> (('t, 'z) timerq_scheme, nat list) func" where
  "getExpired t0 =
     letIn numCreated (\<lambda>sentinel.
     thenDo (upd (\<lambda>s. s\<lparr>numCreated := numCreated s + 1\<rparr>))
     (thenDo (followSet ''getExpired'' [])
     (letIn (\<lambda>s. before_bound timerLess (keyIn (tmHeap s)) (t0, sentinel) (timers s)) (\<lambda>expired.
     thenDo (upd (\<lambda>s. s\<lparr>timers :=
       from_bound timerLess (keyIn (tmHeap s)) (t0, sentinel) (timers s)\<rparr>))
     (retF expired)))))"

section \<open>The queue\<close>

definition addTimerInLoop :: "nat \<Rightarrow> ('t, 'z) timerq_scheme stmt" where
  "addTimerInLoop p =
     callE (insertTimer p) (\<lambda>earliestChanged.
     doIf (\<lambda>_. earliestChanged) (letIn timerFd (\<lambda>fd. letIn (expirationOf p) (resetTimerfd fd))))"

definition cancelInLoop :: "timerId \<Rightarrow> ('t, 'z) timerq_scheme stmt" where
  "cancelInLoop tid = ifElse timerWorking
     (upd (\<lambda>s. s\<lparr>canceling := (if idIn tid (canceling s) then canceling s
        else canceling s @ [tid])\<rparr>))
     (deleteTimer (snd tid))"

definition addTimer :: "(nat \<Rightarrow> 't) \<Rightarrow> 't \<Rightarrow> timestamp \<Rightarrow> double \<Rightarrow>
    (('t, 'z) timerq_scheme, timerId) func" where
  "addTimer addTask cb time interval =
     letIn numCreated (\<lambda>i.
     call (newTimer cb time interval) (\<lambda>p.
     thenDo (runInLoop (addTask p) (addTimerInLoop p))
     (retF (i, p))))"

definition TimerQueue_cancel :: "(timerId \<Rightarrow> 't) \<Rightarrow> timerId \<Rightarrow> ('t, 'z) timerq_scheme stmt" where
  "TimerQueue_cancel cancelTask tid = runInLoop (cancelTask tid) (cancelInLoop tid)"

definition resetOne :: "timestamp \<Rightarrow> nat \<Rightarrow> ('t, 'z) timerq_scheme stmt" where
  "resetOne t0 p = withTimer ''reset'' p (\<lambda>t.
     ifElse (\<lambda>s. repeat t \<and> \<not> idIn (getTimerId p t) (canceling s))
       (block [
         upd (\<lambda>s. s\<lparr>tmHeap := (tmHeap s)(p \<mapsto> restart t0 t)\<rparr>),
         callE (insertTimer p) (\<lambda>_. Inr)])
       (freeTimer p))"

definition TimerQueue_reset :: "nat list \<Rightarrow> timestamp \<Rightarrow> ('t, 'z) timerq_scheme stmt" where
  "TimerQueue_reset expired t0 = block [
     block (map (resetOne t0) expired),
     doIf (\<lambda>s. timers s \<noteq> []) (letIn (\<lambda>s. hd (timers s)) (\<lambda>p. withTimer ''reset'' p (\<lambda>t.
       letIn timerFd (\<lambda>fd. resetTimerfd fd (Timer_expiration t)))))]"

definition runTimer :: "('t \<Rightarrow> ('t, 'z) timerq_scheme stmt) \<Rightarrow> nat \<Rightarrow> ('t, 'z) timerq_scheme stmt" where
  "runTimer exec p = withTimer ''Timer::run'' p (\<lambda>t. exec (tm_cb t))"

definition TimerQueue_handleRead ::
  "('t \<Rightarrow> ('t, 'z) timerq_scheme stmt) \<Rightarrow> ('t, 'z) timerq_scheme stmt" where
  "TimerQueue_handleRead exec = block [
     assertInLoopThread,
     letIn timerFd readTimerfd,
     letIn canceling (\<lambda>ids. block (map (\<lambda>tid. deleteTimer (snd tid)) ids)),
     upd (\<lambda>s. s\<lparr>canceling := []\<rparr>),
     call now (\<lambda>t0.
       callE (getExpired t0) (\<lambda>expired. block [
         upd (\<lambda>s. s\<lparr>timerWorking := True\<rparr>),
         block (map (runTimer exec) expired),
         upd (\<lambda>s. s\<lparr>timerWorking := False\<rparr>),
         TimerQueue_reset expired t0]))]"

definition TimerQueue_ctor :: "'t \<Rightarrow> ('t, 'z) timerq_scheme stmt" where
  "TimerQueue_ctor readTask = callE createTimerfd (\<lambda>fd.
     call (newChannel fd True) (\<lambda>cid. block [
       upd (\<lambda>s. s\<lparr>timerFd := fd, timerChan := cid, timers := [], canceling := [], timerWorking := False\<rparr>),
       setReadableCallback readTask cid,
       enableReading EventLoop_updateChannel cid]))"

definition TimerQueue_dtor ::
  "('t \<Rightarrow> ('t, 'z) timerq_scheme stmt) \<Rightarrow> (nat \<Rightarrow> 't) \<Rightarrow> ('t, 'z) timerq_scheme stmt" where
  "TimerQueue_dtor queue closeTask = block [
     letIn timerFd (\<lambda>fd. call (sysRet (SysClose fd)) (\<lambda>_. Inr)),
     letIn timers (\<lambda>ts. block (map freeTimer ts)),
     upd (\<lambda>s. s\<lparr>timers := []\<rparr>),
     letIn timerChan (Channel_destroy queue closeTask)]"

section \<open>The comparator is a strict weak order\<close>

lemma timerLess_irrefl: "\<not> timerLess a a"
  by (simp add: timerLess_def)

lemma timerLess_trans: "timerLess a b \<Longrightarrow> timerLess b c \<Longrightarrow> timerLess a c"
  by (auto simp: timerLess_def split: if_splits)

lemma timerLess_total: "timerLess a b \<or> a = b \<or> timerLess b a"
  by (cases a; cases b) (auto simp: timerLess_def split: if_splits)

interpretation ts: comparator timerLess
proof
  show "\<not> timerLess a a" for a by (rule timerLess_irrefl)
  show "timerLess a b \<Longrightarrow> timerLess b c \<Longrightarrow> timerLess a c" for a b c by (rule timerLess_trans)
  show "timerLess a c \<Longrightarrow> timerLess a b \<or> timerLess b c" for a b c
    using timerLess_total[of b c] timerLess_trans[of a c b] by auto
qed

section \<open>Well-formed timer queues\<close>

text \<open>
  \<open>timerInv X s\<close>: the set is in order, its timers and the timers \<open>X\<close> taken out of it are alive
  and all different, and fresh addresses are free.
\<close>

definition timerInv :: "nat list \<Rightarrow> ('t, 'z) timerq_scheme \<Rightarrow> bool" where
  "timerInv X s \<longleftrightarrow> ordered timerLess (keyIn (tmHeap s)) (timers s) \<and> distinct (X @ timers s) \<and>
     (\<forall>p \<in> set (X @ timers s). tmHeap s p \<noteq> None) \<and> (\<forall>p. tmHeap s p \<noteq> None \<longrightarrow> p < nextTimer s)"

lemma keyIn_other [simp]: "q \<noteq> p \<Longrightarrow> keyIn (h(p := x)) q = keyIn h q"
  by (simp add: keyIn_def)

lemma keyIn_Some [simp]: "h p = Some t \<Longrightarrow> keyIn h p = (tm_expire t, tm_id t)"
  by (simp add: keyIn_def)

lemma timerInv_fields:
  assumes "timers s' = timers s" "tmHeap s' = tmHeap s" "nextTimer s' = nextTimer s"
  shows "timerInv X s' = timerInv X s"
  using assms by (simp add: timerInv_def)

lemma timerInv_heap_other:
  assumes "timerInv (p # X) s" "tmHeap s' = (tmHeap s)(p := x)" "timers s' = timers s"
    "nextTimer s' = nextTimer s"
  shows "timerInv X s'"
proof -
  have ne: "p \<notin> set (X @ timers s)" using assms(1) by (auto simp: timerInv_def)
  have "ordered timerLess (keyIn ((tmHeap s)(p := x))) (timers s) = ordered timerLess (keyIn (tmHeap s)) (timers s)"
    using ne by (intro ordered_cong) (auto intro!: keyIn_other)
  moreover have "tmHeap s p \<noteq> None" using assms(1) by (simp add: timerInv_def)
  ultimately show ?thesis using assms ne by (auto simp: timerInv_def)
qed

lemma followSet_ok:
  "timerInv X s \<Longrightarrow> set args \<subseteq> set (X @ timers s) \<Longrightarrow> followSet who args s = Inr s"
  by (auto simp: followSet_def timerInv_def)

lemma insertTimer_ok:
  assumes "timerInv (p # X) s"
  obtains b ts where "insertTimer p s = Inr (b, s\<lparr>timers := ts\<rparr>)" "timerInv X (s\<lparr>timers := ts\<rparr>)"
    "ts = set_insert timerLess (keyIn (tmHeap s)) p (timers s)"
    "b \<longleftrightarrow> timers s = [] \<or> expirationOf p s < expirationOf (hd (timers s)) s"
proof -
  obtain t where t: "tmHeap s p = Some t" using assms by (auto simp: timerInv_def)
  let ?ts = "set_insert timerLess (keyIn (tmHeap s)) p (timers s)"
  have d: "distinct (timers s)" "p \<notin> set (timers s)" using assms by (auto simp: timerInv_def)
  have "ordered timerLess (keyIn (tmHeap s)) ?ts"
    using assms by (intro ts.insert_ordered) (simp add: timerInv_def)
  moreover have "distinct (X @ ?ts)"
    using ts.insert_distinct[OF d] set_insert_subset[of timerLess "keyIn (tmHeap s)" p "timers s"] assms
    by (auto simp: timerInv_def)
  moreover have "\<forall>q \<in> set (X @ ?ts). tmHeap s q \<noteq> None"
    using set_insert_subset[of timerLess "keyIn (tmHeap s)" p "timers s"] assms
    by (auto simp: timerInv_def)
  ultimately have "timerInv X (s\<lparr>timers := ?ts\<rparr>)" using assms by (simp add: timerInv_def)
  moreover have "insertTimer p s =
      Inr (timers s = [] \<or> expirationOf p s < expirationOf (hd (timers s)) s, s\<lparr>timers := ?ts\<rparr>)"
    using t followSet_ok[OF assms, of "[p]"]
    by (simp add: insertTimer_def withTimer_def thenDo_def letIn_def upd_def retF_def expirationOf_def)
  ultimately show thesis using that by blast
qed

lemma deleteTimer_ok:
  assumes "timerInv X s" "p \<in> set (timers s)"
  shows "deleteTimer p s = Inr (s\<lparr>timers := remove1 p (timers s), tmHeap := (tmHeap s)(p := None)\<rparr>)"
    and "timerInv X (s\<lparr>timers := remove1 p (timers s), tmHeap := (tmHeap s)(p := None)\<rparr>)"
proof -
  have o: "ordered timerLess (keyIn (tmHeap s)) (timers s)" and d: "distinct (X @ timers s)"
    using assms(1) by (auto simp: timerInv_def)
  have "tmHeap s p \<noteq> None" using assms by (simp add: timerInv_def)
  then obtain t where "tmHeap s p = Some t" by blast
  then show "deleteTimer p s = Inr (s\<lparr>timers := remove1 p (timers s), tmHeap := (tmHeap s)(p := None)\<rparr>)"
    using followSet_ok[OF assms(1), of "[p]"] assms(2) ts.erase_member[OF o assms(2)]
    by (simp add: deleteTimer_def letIn_def upd_def assertThat_def freeTimer_def withTimer_def)
  have "timerInv (p # X) (s\<lparr>timers := remove1 p (timers s)\<rparr>)"
    using assms d ts.remove_ordered[OF o, of p] by (auto simp: timerInv_def)
  then show "timerInv X (s\<lparr>timers := remove1 p (timers s), tmHeap := (tmHeap s)(p := None)\<rparr>)"
    by (rule timerInv_heap_other) simp_all
qed

lemma getExpired_ok:
  fixes t0 :: timestamp
  assumes "timerInv X s"
  defines "k \<equiv> keyIn (tmHeap s)"
  defines "E \<equiv> before_bound timerLess k (t0, numCreated s) (timers s)"
    and "F \<equiv> from_bound timerLess k (t0, numCreated s) (timers s)"
  shows "getExpired t0 s = Inr (E, s\<lparr>numCreated := numCreated s + 1, timers := F\<rparr>)"
    and "timerInv (E @ X) (s\<lparr>numCreated := numCreated s + 1, timers := F\<rparr>)"
proof -
  have "followSet ''getExpired'' [] (s\<lparr>numCreated := numCreated s + 1\<rparr>) = Inr (s\<lparr>numCreated := numCreated s + 1\<rparr>)"
    using followSet_ok[of X "s\<lparr>numCreated := numCreated s + 1\<rparr>" "[]"] assms(1) by (simp add: timerInv_def)
  then show "getExpired t0 s = Inr (E, s\<lparr>numCreated := numCreated s + 1, timers := F\<rparr>)"
    by (simp add: getExpired_def thenDo_def letIn_def upd_def retF_def E_def F_def k_def)
  have EF: "E @ F = timers s" by (simp add: E_def F_def before_from)
  have "ordered timerLess k F"
    unfolding F_def by (rule ts.from_ordered) (use assms(1) in \<open>simp add: timerInv_def k_def\<close>)
  moreover have "distinct (X @ E @ F)" "\<forall>p \<in> set (X @ E @ F). tmHeap s p \<noteq> None"
    unfolding EF using assms(1) by (simp_all add: timerInv_def)
  ultimately show "timerInv (E @ X) (s\<lparr>numCreated := numCreated s + 1, timers := F\<rparr>)"
    using assms(1) by (auto simp: timerInv_def k_def)
qed

text \<open>What becomes of an expired timer: \<open>kept\<close> says that it goes back into the set.\<close>

definition kept :: "timerId list \<Rightarrow> 't timer \<Rightarrow> bool" where
  "kept ids t \<longleftrightarrow> repeat t \<and> tm_id t \<notin> fst ` set ids"

definition rescheduled :: "timestamp \<Rightarrow> timerId list \<Rightarrow> nat \<Rightarrow> 't timer \<Rightarrow> ('t, 'z) timerq_scheme \<Rightarrow> bool" where
  "rescheduled t0 ids p t s \<longleftrightarrow>
     (if kept ids t then tmHeap s p = Some (restart t0 t) \<and>
        (\<exists>q \<in> set (timers s). keyIn (tmHeap s) q = keyIn (tmHeap s) p)
      else tmHeap s p = None \<and> p \<notin> set (timers s))"

text \<open>Only the timers' heap and set differ, and no other timer's entry.\<close>

definition timersDiffer :: "('t, 'z) timerq_scheme \<Rightarrow> ('t, 'z) timerq_scheme \<Rightarrow> bool" where
  "timersDiffer s s' \<longleftrightarrow> (\<exists>h ts. s' = s\<lparr>tmHeap := h, timers := ts\<rparr>)"

lemma timersDiffer_refl [simp]: "timersDiffer s s"
  unfolding timersDiffer_def by (intro exI[of _ "tmHeap s"] exI[of _ "timers s"]) simp

lemma timersDiffer_upd [simp]:
  "timersDiffer s (s\<lparr>tmHeap := h, timers := ts\<rparr>)" "timersDiffer s (s\<lparr>timers := ts, tmHeap := h\<rparr>)"
  "timersDiffer s (s\<lparr>tmHeap := h\<rparr>)"
  unfolding timersDiffer_def
  by (rule exI[of _ h], rule exI[of _ ts], simp) (rule exI[of _ h], rule exI[of _ ts], simp,
    rule exI[of _ h], rule exI[of _ "timers s"], simp)

lemma timersDiffer_trans:
  assumes "timersDiffer s t" "timersDiffer t u"
  shows "timersDiffer s u"
proof -
  obtain h ts where "u = t\<lparr>tmHeap := h, timers := ts\<rparr>"
    using assms(2) by (auto simp: timersDiffer_def)
  then have "u = s\<lparr>tmHeap := h, timers := ts\<rparr>"
    using assms(1) by (auto simp: timersDiffer_def)
  then show ?thesis by simp
qed

lemma timersDiffer_frame:
  "timersDiffer s s' \<Longrightarrow> canceling s' = canceling s \<and> timerWorking s' = timerWorking s \<and>
     curTid s' = curTid s \<and> loopTid s' = loopTid s \<and> numCreated s' = numCreated s \<and>
     timerFd s' = timerFd s \<and> now s' = (fst (now s), s'\<lparr>clockIx := Suc (clockIx s)\<rparr>) \<and>
     nextTimer s' = nextTimer s"
  by (auto simp: timersDiffer_def now_def split: prod.split)

definition timersOnly :: "nat list \<Rightarrow> ('t, 'z) timerq_scheme \<Rightarrow> ('t, 'z) timerq_scheme \<Rightarrow> bool" where
  "timersOnly X s s' \<longleftrightarrow> timersDiffer s s' \<and>
     set (timers s) \<subseteq> set (timers s') \<and> (\<forall>q. q \<notin> set X \<longrightarrow> tmHeap s' q = tmHeap s q \<and>
       (q \<in> set (timers s') \<longrightarrow> q \<in> set (timers s)))"

lemma timersOnly_trans:
  assumes "timersOnly [p] s t" "timersOnly X t u"
  shows "timersOnly (p # X) s u"
  using assms timersDiffer_trans[of s t u] by (auto simp: timersOnly_def)

lemma insert_equivalent:
  "\<exists>q \<in> set (set_insert timerLess k p xs). k q = k p"
proof (induction xs)
  case Nil
  then show ?case by simp
next
  case (Cons y ys)
  then show ?case using timerLess_total[of "k p" "k y"] by (auto simp: timerLess_irrefl)
qed

lemma resetOne_ok:
  assumes inv: "timerInv (p # X) s" and t: "tmHeap s p = Some t"
  obtains s' where "resetOne t0 p s = Inr s'" "timerInv X s'" "timersOnly [p] s s'"
    "rescheduled t0 (canceling s) p t s'"
proof (cases "kept (canceling s) t")
  case True
  let ?s = "s\<lparr>tmHeap := (tmHeap s)(p \<mapsto> restart t0 t)\<rparr>"
  have "timerInv X ?s" using inv by (rule timerInv_heap_other) simp_all
  then have "timerInv (p # X) ?s" using inv by (simp add: timerInv_def)
  then obtain b ts where ins: "insertTimer p ?s = Inr (b, ?s\<lparr>timers := ts\<rparr>)" "timerInv X (?s\<lparr>timers := ts\<rparr>)"
    and ts: "ts = set_insert timerLess (keyIn (tmHeap ?s)) p (timers ?s)"
    by (rule insertTimer_ok)
  show thesis
  proof (rule that[of "?s\<lparr>timers := ts\<rparr>"])
    show "resetOne t0 p s = Inr (?s\<lparr>timers := ts\<rparr>)"
      using t True ins(1) by (simp add: resetOne_def withTimer_def ifElse_def kept_def upd_def callE_def)
    show "timersOnly [p] s (?s\<lparr>timers := ts\<rparr>)"
      using set_insert_subset[of timerLess "keyIn (tmHeap ?s)" p "timers s"]
        set_insert_keeps[of "timers s" timerLess "keyIn (tmHeap ?s)" p] ts
      by (auto simp: timersOnly_def)
    show "rescheduled t0 (canceling s) p t (?s\<lparr>timers := ts\<rparr>)"
      using True ts insert_equivalent[of "keyIn (tmHeap ?s)" p "timers s"]
      by (simp add: rescheduled_def)
  qed (rule ins(2))
next
  case False
  let ?s = "s\<lparr>tmHeap := (tmHeap s)(p := None)\<rparr>"
  show thesis
  proof (rule that[of ?s])
    show "resetOne t0 p s = Inr ?s"
      using t False by (auto simp: resetOne_def withTimer_def ifElse_def kept_def freeTimer_def)
    show "timerInv X ?s" using inv by (rule timerInv_heap_other) simp_all
    show "timersOnly [p] s ?s" by (simp add: timersOnly_def)
    show "rescheduled t0 (canceling s) p t ?s"
      using False inv by (simp add: rescheduled_def timerInv_def)
  qed
qed

lemma rescheduled_later:
  assumes "rescheduled t0 ids p t s" "timersOnly X s s'" "timerInv X s" "p \<notin> set X"
  shows "rescheduled t0 ids p t s'"
proof -
  have h: "tmHeap s' q = tmHeap s q" if "q \<in> set (timers s)" for q
    using that assms(2,3) by (auto simp: timersOnly_def timerInv_def)
  have p: "tmHeap s' p = tmHeap s p" using assms(2,4) by (simp add: timersOnly_def)
  then have k: "keyIn (tmHeap s') q = keyIn (tmHeap s) q" if "q = p \<or> q \<in> set (timers s)" for q
    using that h by (auto simp: keyIn_def)
  have sub: "set (timers s) \<subseteq> set (timers s')" using assms(2) by (simp add: timersOnly_def)
  show ?thesis
  proof (cases "kept ids t")
    case True
    then obtain q where "q \<in> set (timers s)" "keyIn (tmHeap s) q = keyIn (tmHeap s) p"
      using assms(1) by (auto simp: rescheduled_def)
    then have "q \<in> set (timers s') \<and> keyIn (tmHeap s') q = keyIn (tmHeap s') p"
      using k sub by auto
    then show ?thesis using True assms(1) p by (auto simp: rescheduled_def simp del: keyIn_Some)
  next
    case False
    then show ?thesis using assms p by (auto simp: rescheduled_def timersOnly_def)
  qed
qed

lemma reset_all_ok:
  assumes "timerInv X s" "\<forall>p \<in> set X. tmHeap s p = h p"
  obtains s' where "block (map (resetOne t0) X) s = Inr s'" "timerInv [] s'" "timersOnly X s s'"
    "\<forall>p \<in> set X. \<forall>t. h p = Some t \<longrightarrow> rescheduled t0 (canceling s) p t s'"
  using assms
proof (induction X arbitrary: s thesis)
  case Nil
  then show ?case by (simp add: timersOnly_def)
next
  case (Cons p X)
  obtain t where t: "tmHeap s p = Some t" using Cons.prems(2) by (auto simp: timerInv_def)
  obtain s1 where s1: "resetOne t0 p s = Inr s1" "timerInv X s1" "timersOnly [p] s s1"
    "rescheduled t0 (canceling s) p t s1"
    by (rule resetOne_ok[OF Cons.prems(2) t])
  have d: "p \<notin> set X" using Cons.prems(2) by (simp add: timerInv_def)
  have h1: "\<forall>q \<in> set X. tmHeap s1 q = h q"
    using Cons.prems(3) s1(3) d by (auto simp: timersOnly_def)
  have c: "canceling s1 = canceling s" using s1(3) timersDiffer_frame[of s s1] by (simp add: timersOnly_def)
  obtain s2 where s2: "block (map (resetOne t0) X) s1 = Inr s2" "timerInv [] s2" "timersOnly X s1 s2"
    "\<forall>p \<in> set X. \<forall>t. h p = Some t \<longrightarrow> rescheduled t0 (canceling s1) p t s2"
    by (rule Cons.IH[OF _ s1(2) h1])
  show ?case
  proof (rule Cons.prems(1))
    show "block (map (resetOne t0) (p # X)) s = Inr s2" using s1(1) s2(1) by simp
    show "timersOnly (p # X) s s2" using s1(3) s2(3) by (rule timersOnly_trans)
    show "\<forall>q \<in> set (p # X). \<forall>t. h q = Some t \<longrightarrow> rescheduled t0 (canceling s) q t s2"
      using s2(4) rescheduled_later[OF s1(4) s2(3) s1(2) d] t Cons.prems(3) c by auto
  qed (rule s2(2))
qed

section \<open>Cancelling\<close>

lemma cancel_all_ok:
  assumes "timerInv [] s" "distinct ps" "set ps \<subseteq> set (timers s)"
  obtains s' where "block (map deleteTimer ps) s = Inr s'" "timerInv [] s'"
    "timersDiffer s s'"
    "timers s' = filter (\<lambda>p. p \<notin> set ps) (timers s)"
    "\<forall>q. tmHeap s' q = (if q \<in> set ps then None else tmHeap s q)"
  using assms
proof (induction ps arbitrary: s thesis)
  case Nil
  then show ?case by simp
next
  case (Cons p ps)
  let ?s = "s\<lparr>timers := remove1 p (timers s), tmHeap := (tmHeap s)(p := None)\<rparr>"
  have p: "p \<in> set (timers s)" using Cons.prems by simp
  have d: "distinct (timers s)" using Cons.prems(2) by (simp add: timerInv_def)
  note del = deleteTimer_ok[OF Cons.prems(2) p]
  obtain s' where s': "block (map deleteTimer ps) ?s = Inr s'" "timerInv [] s'"
    "timersDiffer ?s s'"
    "timers s' = filter (\<lambda>p. p \<notin> set ps) (timers ?s)"
    "\<forall>q. tmHeap s' q = (if q \<in> set ps then None else tmHeap ?s q)"
    by (rule Cons.IH[OF _ del(2)]) (use Cons.prems d in \<open>auto simp: set_remove1_eq\<close>)
  show ?case
  proof (rule Cons.prems(1)[of s'])
    show "block (map deleteTimer (p # ps)) s = Inr s'" using del(1) s'(1) by simp
    show "timersDiffer s s'"
      by (rule timersDiffer_trans[OF timersDiffer_upd(2) s'(3)])
    show "timers s' = filter (\<lambda>q. q \<notin> set (p # ps)) (timers s)"
      using s'(4) d by (simp add: distinct_remove1_removeAll removeAll_filter_not_eq eq_commute[of p])
    show "\<forall>q. tmHeap s' q = (if q \<in> set (p # ps) then None else tmHeap s q)"
      using s'(5) by simp
  qed (rule s'(2))
qed

text \<open>A deleted timer cannot be deleted again.\<close>

lemma deleteTimer_dead:
  assumes "tmHeap s p = None"
  shows "deleteTimer p s = Inl (UseAfterFree ''deleteTimer'') \<or>
    deleteTimer p s = Inl (AssertFailed ''deleteTimer'')"
  using assms by (auto simp: deleteTimer_def followSet_def letIn_def upd_def assertThat_def
      set_erase_def)

section \<open>Handling the timer descriptor\<close>

text \<open>
  The timers that are due: what \<^verbatim>\<open>handleRead\<close> takes out after the cancelled ones are gone. The
  clock is the next reading.
\<close>

definition cancelled :: "('t, 'z) timerq_scheme \<Rightarrow> nat list" where
  "cancelled s = map snd (canceling s)"

definition dueTimers :: "('t, 'z) timerq_scheme \<Rightarrow> nat list" where
  "dueTimers s = before_bound timerLess (keyIn (tmHeap s)) (fst (now s), numCreated s)
     (filter (\<lambda>p. p \<notin> set (cancelled s)) (timers s))"

text \<open>What the callbacks of expired timers may rely on and must keep.\<close>

definition callbackInv :: "nat list \<Rightarrow> (nat \<Rightarrow> 't timer option) \<Rightarrow> ('t, 'z) timerq_scheme \<Rightarrow> bool" where
  "callbackInv X h s \<longleftrightarrow> timerInv X s \<and> timerWorking s \<and> (\<forall>p \<in> set X. tmHeap s p = h p)"

definition pendingOk :: "('t, 'z) timerq_scheme \<Rightarrow> bool" where
  "pendingOk s \<longleftrightarrow> distinct (cancelled s) \<and> set (cancelled s) \<subseteq> set (timers s)"

text \<open>The last statement of \<^verbatim>\<open>reset\<close>: the descriptor is set to the earliest timer.\<close>

definition rearm :: "('t, 'z) timerq_scheme stmt" where
  "rearm s = (if timers s = [] then Inr s else resetTimerfd (timerFd s) (expirationOf (hd (timers s)) s) s)"

lemma runTimers_ok:
  assumes "callbackInv X h s" "set Y \<subseteq> set X"
    and "\<And>p t. p \<in> set Y \<Longrightarrow> h p = Some t \<Longrightarrow> ensures (callbackInv X h) (exec (tm_cb t)) (callbackInv X h)"
  obtains s' where "block (map (runTimer exec) Y) s = Inr s'" "callbackInv X h s'"
    "block (map (\<lambda>p. exec (tm_cb (the (h p)))) Y) s = Inr s'"
  using assms
proof (induction Y arbitrary: s thesis)
  case Nil
  then show ?case by simp
next
  case (Cons p Y)
  have X: "p \<in> set X" using Cons.prems(3) by simp
  have "timerInv X s" and eq: "tmHeap s p = h p" using Cons.prems(2) X by (auto simp: callbackInv_def)
  then have "tmHeap s p \<noteq> None" using X by (auto simp: timerInv_def simp del: not_None_eq)
  then obtain t where t: "tmHeap s p = Some t" "h p = Some t" using eq by auto
  then obtain s1 where s1: "exec (tm_cb t) s = Inr s1" "callbackInv X h s1"
    using Cons.prems(2) ensuresD[OF Cons.prems(4)[of p t]] by auto
  obtain s' where "block (map (runTimer exec) Y) s1 = Inr s'" "callbackInv X h s'"
    "block (map (\<lambda>p. exec (tm_cb (the (h p)))) Y) s1 = Inr s'"
    by (rule Cons.IH[OF _ s1(2)]) (use Cons.prems in auto)
  moreover have "runTimer exec p s = Inr s1" using t s1(1) by (simp add: runTimer_def withTimer_def)
  ultimately show ?case using t s1(1) by (intro Cons.prems(1)[of s']) simp_all
qed

lemma readTimerfd_ok:
  obtains s' where "readTimerfd fd s = Inr s'" "timers s' = timers s" "tmHeap s' = tmHeap s"
    "canceling s' = canceling s" "numCreated s' = numCreated s" "nextTimer s' = nextTimer s"
    "fst (now s') = fst (now s)" "curTid s' = curTid s" "loopTid s' = loopTid s" "timerq.more s' = timerq.more s"
    "clock s' = clock s" "clockIx s' = clockIx s"
proof (cases "a_ret (nextAns s) = 8")
  case True
  then have "readTimerfd fd s = Inr (afterSys (SysRead fd 8) s)"
    by (simp add: readTimerfd_def stmt_defs sysRet_eq)
  then show thesis by (rule that) (simp_all add: now_def afterSys_def logged_def split: prod.split)
next
  case False
  then have "readTimerfd fd s = Inr (logged ERROR (afterSys (SysRead fd 8) s))"
    by (simp add: readTimerfd_def stmt_defs sysRet_eq)
  then show thesis by (rule that) (simp_all add: now_def afterSys_def logged_def split: prod.split)
qed

lemma now_eq: "now s = (fst (now s), s\<lparr>clockIx := Suc (clockIx s)\<rparr>)"
  by (simp add: now_def split: prod.split)

lemma rearm_eq:
  assumes "timerInv X s"
  shows "doIf (\<lambda>s. timers s \<noteq> []) (letIn (\<lambda>s. hd (timers s)) (\<lambda>p. withTimer who p (\<lambda>t.
       letIn timerFd (\<lambda>fd. resetTimerfd fd (tm_expire t))))) s = rearm s"
proof (cases "timers s")
  case (Cons p ps)
  then have "tmHeap s p \<noteq> None" using assms by (simp add: timerInv_def)
  then show ?thesis using Cons
    by (auto simp: doIf_def letIn_def withTimer_def rearm_def expirationOf_def)
qed (simp add: doIf_def rearm_def)

lemma handleRead_ok:
  assumes tid: "curTid s = loopTid s" and inv: "timerInv [] s" and pend: "pendingOk s"
    and cbs: "\<And>p t. p \<in> set (dueTimers s) \<Longrightarrow> tmHeap s p = Some t \<Longrightarrow>
      ensures (callbackInv (dueTimers s) (tmHeap s)) (exec (tm_cb t)) (callbackInv (dueTimers s) (tmHeap s))"
  obtains s0 sc s1 where "TimerQueue_handleRead exec s = rearm s1" "timerInv [] s1" "\<not> timerWorking s1"
    "dueTimers s @ timers s0 = filter (\<lambda>p. p \<notin> set (cancelled s)) (timers s)" "canceling s0 = []"
    "block (map (\<lambda>p. exec (tm_cb (the (tmHeap s p)))) (dueTimers s)) s0 = Inr sc"
    "canceling s1 = canceling sc"
    "\<forall>p \<in> set (dueTimers s). \<forall>t. tmHeap s p = Some t \<longrightarrow>
       rescheduled (fst (now s)) (canceling s1) p t s1"
    "timersOnly (dueTimers s) (sc\<lparr>timerWorking := False\<rparr>) s1"
    "\<forall>q. tmHeap s0 q = (if q \<in> set (cancelled s) then None else tmHeap s q)" "numCreated s0 = numCreated s + 1"
    "nextTimer s0 = nextTimer s" "curTid s0 = curTid s" "loopTid s0 = loopTid s" "timerq.more s0 = timerq.more s"
    "clock s0 = clock s" "clockIx s0 = Suc (clockIx s)"
proof -
  let ?X = "dueTimers s" and ?t0 = "fst (now s)"
  obtain a where a: "readTimerfd (timerFd s) s = Inr a" "timers a = timers s" "tmHeap a = tmHeap s"
    "canceling a = canceling s" "numCreated a = numCreated s" "nextTimer a = nextTimer s"
    "fst (now a) = fst (now s)" "curTid a = curTid s" "loopTid a = loopTid s" "timerq.more a = timerq.more s" "clock a = clock s" "clockIx a = clockIx s"
    by (rule readTimerfd_ok)
  have inv_a: "timerInv [] a" using inv timerInv_fields[OF a(2,3,6)] by simp
  obtain b where b: "block (map deleteTimer (cancelled s)) a = Inr b" "timerInv [] b" "timersDiffer a b"
    "timers b = filter (\<lambda>p. p \<notin> set (cancelled s)) (timers s)"
    "\<forall>q. tmHeap b q = (if q \<in> set (cancelled s) then None else tmHeap s q)"
    by (rule cancel_all_ok[OF inv_a, of "cancelled s"])
      (use pend a in \<open>simp_all add: pendingOk_def\<close>)
  note bf = timersDiffer_frame[OF b(3)]
  let ?c = "b\<lparr>canceling := []\<rparr>"
  let ?d = "?c\<lparr>clockIx := Suc (clockIx b)\<rparr>"
  have t0: "fst (now ?c) = ?t0" using bf a(7) by (simp add: now_def split: prod.splits)
  have nw: "now ?c = (?t0, ?d)" using now_eq[of ?c] t0 by simp
  have inv_d: "timerInv [] ?d" using b(2) by (simp add: timerInv_def)
  have key: "keyIn (tmHeap b) p = keyIn (tmHeap s) p" if "p \<notin> set (cancelled s)" for p
    using that b(5) by (simp add: keyIn_def)
  have X: "before_bound timerLess (keyIn (tmHeap ?d)) (?t0, numCreated ?d) (timers ?d) = ?X"
    unfolding dueTimers_def using b(4) bf a(5) key
    by (auto intro!: before_bound_cong)
  let ?F = "from_bound timerLess (keyIn (tmHeap ?d)) (?t0, numCreated ?d) (timers ?d)"
  obtain F where e: "getExpired ?t0 ?d = Inr (?X, ?d\<lparr>numCreated := numCreated ?d + 1, timers := F\<rparr>)"
    "timerInv ?X (?d\<lparr>numCreated := numCreated ?d + 1, timers := F\<rparr>)" "F = ?F"
    using getExpired_ok[OF inv_d, of ?t0] unfolding X by auto
  have XF: "?X @ F = filter (\<lambda>p. p \<notin> set (cancelled s)) (timers s)"
    using before_from[of timerLess "keyIn (tmHeap ?d)" "(?t0, numCreated ?d)" "timers ?d"] b(4)
    unfolding X e(3) by simp
  let ?e = "?d\<lparr>numCreated := numCreated ?d + 1, timers := F, timerWorking := True\<rparr>"
  have notc: "p \<notin> set (cancelled s)" if "p \<in> set ?X" for p
    using that set_takeWhileD by (fastforce simp: dueTimers_def before_bound_def)
  have inv_e: "callbackInv ?X (tmHeap s) ?e"
    using e(2) b(5) notc by (simp add: callbackInv_def timerInv_def)
  obtain f where f: "block (map (runTimer exec) ?X) ?e = Inr f" "callbackInv ?X (tmHeap s) f"
    "block (map (\<lambda>p. exec (tm_cb (the (tmHeap s p)))) ?X) ?e = Inr f"
    by (rule runTimers_ok[OF inv_e order_refl, of exec]) (use cbs in auto)
  let ?g = "f\<lparr>timerWorking := False\<rparr>"
  have inv_g: "timerInv ?X ?g" "\<forall>p \<in> set ?X. tmHeap ?g p = tmHeap s p"
    using f(2) by (simp_all add: callbackInv_def timerInv_def)
  obtain h where h: "block (map (resetOne ?t0) ?X) ?g = Inr h" "timerInv [] h" "timersOnly ?X ?g h"
    "\<forall>p \<in> set ?X. \<forall>t. tmHeap s p = Some t \<longrightarrow> rescheduled ?t0 (canceling ?g) p t h"
    by (rule reset_all_ok[OF inv_g])
  have hf: "canceling h = canceling ?g" "timerWorking h = timerWorking ?g"
    using h(3) timersDiffer_frame[of ?g h] by (auto simp: timersOnly_def)
  show thesis
  proof (rule that[of h ?e f])
    show "block (map (\<lambda>p. exec (tm_cb (the (tmHeap s p)))) ?X) ?e = Inr f" by (rule f(3))
    show "?X @ timers ?e = filter (\<lambda>p. p \<notin> set (cancelled s)) (timers s)" using XF by simp
    have "TimerQueue_handleRead exec s =
        callE (getExpired ?t0) (\<lambda>expired. block [
         upd (\<lambda>s. s\<lparr>timerWorking := True\<rparr>),
         block (map (runTimer exec) expired),
         upd (\<lambda>s. s\<lparr>timerWorking := False\<rparr>),
         TimerQueue_reset expired ?t0]) ?d"
      using a b(1) tid nw
      by (simp add: TimerQueue_handleRead_def assertInLoopThread_def assertThat_def letIn_def
          cancelled_def comp_def upd_def call_def)
    also have "\<dots> = TimerQueue_reset ?X ?t0 ?g"
      using f(1) by (simp add: callE_def e(1) upd_def)
    also have "\<dots> = rearm h"
      using h(1) rearm_eq[OF h(2)] by (simp add: TimerQueue_reset_def)
    finally show "TimerQueue_handleRead exec s = rearm h" .
    show "\<not> timerWorking h" using hf by simp
    show "\<forall>p \<in> set ?X. \<forall>t. tmHeap s p = Some t \<longrightarrow> rescheduled ?t0 (canceling h) p t h"
      using h(4) hf by simp
    show "timerq.more ?e = timerq.more s" "clock ?e = clock s" "clockIx ?e = Suc (clockIx s)"
      using b(3) a(10-12) by (auto simp: timersDiffer_def)
  qed (use h(2,3) hf a bf b(5) in simp_all)
qed

section \<open>The operations callbacks use\<close>

lemma resetTimerfd_cases:
  obtains (fatal) "resetTimerfd fd when s = Inl FatalLog"
  | (armed) s' where "resetTimerfd fd when s = Inr s'" "timers s' = timers s" "tmHeap s' = tmHeap s"
      "nextTimer s' = nextTimer s" "timerWorking s' = timerWorking s" "canceling s' = canceling s"
      "trace s' = trace s @ [case timespecOf when (fst (now s)) of (sec, nsec) \<Rightarrow> SysTimerfdSettime fd sec nsec]"
proof -
  obtain sec nsec where ts: "timespecOf when (fst (now s)) = (sec, nsec)" by force
  let ?s = "afterSys (SysTimerfdSettime fd sec nsec) (s\<lparr>clockIx := Suc (clockIx s)\<rparr>)"
  have "howMuchTimeFromNow when s = ((sec, nsec), s\<lparr>clockIx := Suc (clockIx s)\<rparr>)"
    using now_eq[of s] ts by (simp add: howMuchTimeFromNow_def split: prod.split) (metis fst_conv snd_conv)
  then have "resetTimerfd fd when s = doIf (\<lambda>_. a_ret (nextAns (s\<lparr>clockIx := Suc (clockIx s)\<rparr>)) \<noteq> 0) (LOG FATAL) ?s"
    by (simp add: resetTimerfd_def call_def sysRet_eq)
  then consider "resetTimerfd fd when s = Inl FatalLog" | "resetTimerfd fd when s = Inr ?s"
    by (auto simp: doIf_def LOG_FATAL split: if_splits)
  then show thesis
    by cases (auto intro: fatal armed simp: ts)
qed

lemma newTimer_inv:
  assumes "timerInv X s" "newTimer cb time interval s = (p, s')"
  shows "timerInv (p # X) s'"
proof -
  have s': "p = nextTimer s" "s' = snd (newTimer cb time interval s)" using assms(2) by (auto simp: newTimer_def)
  have "p \<notin> set (X @ timers s)" using assms(1) s'(1) unfolding timerInv_def by blast
  moreover from this have "ordered timerLess (keyIn (tmHeap s')) (timers s) = ordered timerLess (keyIn (tmHeap s)) (timers s)"
    using s' by (intro ordered_cong) (auto simp: newTimer_def intro!: keyIn_other)
  ultimately show ?thesis using assms(1) s' by (auto simp: timerInv_def newTimer_def less_Suc_eq)
qed

lemma resetTimerfd_eq:
  "resetTimerfd fd when s = (if a_ret (nextAns s) \<noteq> 0 \<and> g_logLevel s \<le> FATAL then Inl FatalLog
     else Inr (afterSys (case timespecOf when (fst (now s)) of (sec, nsec) \<Rightarrow> SysTimerfdSettime fd sec nsec)
       (s\<lparr>clockIx := Suc (clockIx s)\<rparr>)))"
  unfolding resetTimerfd_def howMuchTimeFromNow_def call_def
  by (subst now_eq) (auto simp: sysRet_eq doIf_def LOG_FATAL nextAns_def split: prod.split)

text \<open>Adding a timer from the loop's own thread.\<close>

lemma addTimer_ok:
  fixes cb :: 't and time :: timestamp and interval :: double and s :: "('t, 'z) timerq_scheme"
  assumes "timerInv X s" "isInLoopThread s"
  defines "t \<equiv> \<lparr>tm_cb = cb, tm_expire = time, tm_interval = interval, tm_id = numCreated s\<rparr>"
  obtains (fatal) "addTimer tok cb time interval s = Inl FatalLog"
  | (added) ts tr ix e ck where "addTimer tok cb time interval s = Inr ((numCreated s, nextTimer s),
      s\<lparr>tmHeap := (tmHeap s)(nextTimer s \<mapsto> t), nextTimer := Suc (nextTimer s),
        numCreated := numCreated s + 1, timers := ts, trace := trace s @ tr, envIx := ix, errno := e, clockIx := ck\<rparr>)"
      "timerInv X (s\<lparr>tmHeap := (tmHeap s)(nextTimer s \<mapsto> t), nextTimer := Suc (nextTimer s), timers := ts\<rparr>)"
      "\<exists>q \<in> set ts. keyIn ((tmHeap s)(nextTimer s \<mapsto> t)) q = (time, numCreated s)"
      "\<forall>c \<in> set tr. \<exists>sec nsec. c = SysTimerfdSettime (timerFd s) sec nsec"
      "ts = set_insert timerLess (keyIn ((tmHeap s)(nextTimer s \<mapsto> t))) (nextTimer s) (timers s)"
      "clockIx s \<le> ck"
proof -
  let ?p = "nextTimer s" and ?h = "(tmHeap s)(nextTimer s \<mapsto> t)"
  let ?s1 = "s\<lparr>tmHeap := ?h, nextTimer := Suc (nextTimer s), numCreated := numCreated s + 1\<rparr>"
  have new: "newTimer cb time interval s = (?p, ?s1)" by (simp add: newTimer_def t_def)
  obtain b ts where ins: "insertTimer ?p ?s1 = Inr (b, ?s1\<lparr>timers := ts\<rparr>)" "timerInv X (?s1\<lparr>timers := ts\<rparr>)"
    "ts = set_insert timerLess (keyIn (tmHeap ?s1)) ?p (timers ?s1)"
    by (rule insertTimer_ok[OF newTimer_inv[OF assms(1) new]])
  let ?s2 = "?s1\<lparr>timers := ts\<rparr>"
  have inv: "timerInv X (s\<lparr>tmHeap := ?h, nextTimer := Suc (nextTimer s), timers := ts\<rparr>)"
    using ins(2) by (simp add: timerInv_def)
  have key: "\<exists>q \<in> set ts. keyIn ?h q = (time, numCreated s)"
    using insert_equivalent[of "keyIn ?h" ?p "timers s"] ins(3) by (simp add: t_def)
  have "addTimer tok cb time interval s = andThen (doIf (\<lambda>_. b) (resetTimerfd (timerFd s) (expirationOf ?p ?s2)) ?s2)
      (\<lambda>s'. Inr ((numCreated s, ?p), s'))"
    using assms(2) new ins(1)
    by (simp add: addTimer_def letIn_def call_def thenDo_def runInLoop_def ifElse_def isInLoopThread_def
        addTimerInLoop_def callE_def retF_def[abs_def] doIf_def expirationOf_def)
  then consider "addTimer tok cb time interval s = Inl FatalLog"
    | "addTimer tok cb time interval s = Inr ((numCreated s, ?p), ?s2)"
    | c where "addTimer tok cb time interval s = Inr ((numCreated s, ?p), afterSys c (?s2\<lparr>clockIx := Suc (clockIx s)\<rparr>))"
        "\<exists>sec nsec. c = SysTimerfdSettime (timerFd s) sec nsec"
    by (auto simp: doIf_def resetTimerfd_eq split: if_splits prod.splits)
  then show thesis
  proof cases
    case 1
    then show thesis by (rule fatal)
  next
    case 2
    show thesis
      by (rule added[where ts = ts and tr = "[]" and ix = "envIx s" and e = "errno s" and ck = "clockIx s"]) (use 2 inv key ins(3) in simp_all)
  next
    case 3
    show thesis
      by (rule added[where ts = ts and tr = "[c]" and ix = "Suc (envIx s)" and ck = "Suc (clockIx s)" and
          e = "if a_ret (nextAns (?s2\<lparr>clockIx := Suc (clockIx s)\<rparr>)) < 0
           then a_err (nextAns (?s2\<lparr>clockIx := Suc (clockIx s)\<rparr>)) else errno s"])
        (use 3 inv key ins(3) in \<open>simp_all add: afterSys_def\<close>)
  qed
qed

lemma callbackInv_fields:
  assumes "timers s' = timers s" "tmHeap s' = tmHeap s" "nextTimer s' = nextTimer s"
    "timerWorking s' = timerWorking s"
  shows "callbackInv X h s' = callbackInv X h s"
  using assms by (simp add: callbackInv_def timerInv_def)

lemma cancelInLoop_callbackInv: "ensures (callbackInv X h) (cancelInLoop tid) (callbackInv X h)"
  by (simp add: ensures_def cancelInLoop_def ifElse_def upd_def callbackInv_def timerInv_def)

lemma addTimerInLoop_inv:
  assumes "callbackInv X h s" "timerInv (p # X) s" "addTimerInLoop p s = Inr s'"
  shows "callbackInv X h s'"
proof -
  obtain b ts where ins: "insertTimer p s = Inr (b, s\<lparr>timers := ts\<rparr>)" "timerInv X (s\<lparr>timers := ts\<rparr>)"
    by (rule insertTimer_ok[OF assms(2)])
  then have inv: "callbackInv X h (s\<lparr>timers := ts\<rparr>)" using assms(1) by (simp add: callbackInv_def)
  show ?thesis
  proof (cases b)
    case True
    then have "resetTimerfd (timerFd s) (expirationOf p s) (s\<lparr>timers := ts\<rparr>) = Inr s'"
      using assms(3) ins(1) by (simp add: addTimerInLoop_def callE_def doIf_def letIn_def expirationOf_def)
    then show ?thesis
      using inv by (cases rule: resetTimerfd_cases[of "timerFd s" "expirationOf p s" "s\<lparr>timers := ts\<rparr>"])
        (auto simp: callbackInv_fields[of s' "s\<lparr>timers := ts\<rparr>"])
  next
    case False
    then show ?thesis using assms(3) ins(1) inv by (simp add: addTimerInLoop_def callE_def doIf_def)
  qed
qed

text \<open>A callback may add timers, from its loop's thread or from another.\<close>

lemma addTimer_callbackInv:
  "keeps (callbackInv X h) (\<lambda>s. callE (addTimer tok cb time interval) (\<lambda>_. Inr) s)"
  unfolding keeps_def
proof (intro allI impI)
  fix s s' assume a: "callbackInv X h s" "callE (addTimer tok cb time interval) (\<lambda>_. Inr) s = Inr s'"
  obtain p s1 where new: "newTimer cb time interval s = (p, s1)" by force
  have p: "timerInv (p # X) s1" using newTimer_inv[OF _ new] a(1) by (simp add: callbackInv_def)
  have "p \<notin> set X" using p by (simp add: timerInv_def)
  then have "\<forall>q \<in> set X. tmHeap s1 q = h q"
    using a(1) new by (auto simp: callbackInv_def newTimer_def)
  then have i1: "callbackInv X h s1" using p a(1) new by (auto simp: callbackInv_def timerInv_def newTimer_def)
  have run: "runInLoop (tok p) (addTimerInLoop p) s1 = Inr s'"
    using a(2) new by (auto simp: callE_def addTimer_def letIn_def call_def thenDo_def retF_def andThen_Inr_iff)
  show "callbackInv X h s'"
  proof (cases "isInLoopThread s1")
    case True
    then show ?thesis using addTimerInLoop_inv[OF i1 p] run by (simp add: runInLoop_def ifElse_def)
  next
    case False
    then have "s' = afterWakeup (s1\<lparr>tasks := tasks s1 @ [tok p]\<rparr>)"
      using run by (simp add: runInLoop_def ifElse_def queueInLoop_eq Let_def)
    then show ?thesis using i1 callbackInv_fields[of s' s1] by (simp add: afterWakeup_def Let_def)
  qed
qed

section \<open>Properties\<close>

text \<open>A timer queue at one second past the epoch; callbacks log a level.\<close>

definition demoTimer :: "'t \<Rightarrow> timestamp \<Rightarrow> int \<Rightarrow> 32 word \<Rightarrow> 't timer" where
  "demoTimer cb e sec i = \<lparr>tm_cb = cb, tm_expire = e, tm_interval = Dbl sec 0, tm_id = i\<rparr>"

definition demoTimerq :: "(nat \<Rightarrow> answer) \<Rightarrow> (nat \<Rightarrow> 't timer option) \<Rightarrow> nat list \<Rightarrow> 't timerq" where
  "demoTimerq e h ps = taskq.extend ((demoTaskq e [])\<lparr>clock := (\<lambda>_. (1, 0))\<rparr>)
     \<lparr>numCreated = 10, tmHeap = h, nextTimer = 10, timers = ps, canceling = [], timerWorking = False,
      timerFd = 6, timerChan = 2\<rparr>"

lemmas demoTimerq_defs = demoTimerq_def taskq.defs demoTaskq_def poll.defs demoPoll_def

text \<open>
  C23. When the timer descriptor fires, every timer that is due and not cancelled runs exactly
  once, in order of expiration (ties by id), with the cancelled ones deleted unrun before; then
  each due timer that repeats, and was not cancelled by a callback, is back in the set with the
  expiration moved to the clock reading plus its interval (or an equal key is), and every other
  due timer is deleted. The set stays ordered, its timers alive and different, and the
  descriptor is set to the earliest. Callbacks may add and cancel timers; nothing but the
  kernel's refusal to set the descriptor can go wrong.
\<close>

theorem handleRead_effect:
  assumes "curTid s = loopTid s" and "timerInv [] s" and "pendingOk s"
    and "\<And>p t. p \<in> set (dueTimers s) \<Longrightarrow> tmHeap s p = Some t \<Longrightarrow>
      ensures (callbackInv (dueTimers s) (tmHeap s)) (exec (tm_cb t)) (callbackInv (dueTimers s) (tmHeap s))"
  shows "\<exists>s0 sc s1. TimerQueue_handleRead exec s = rearm s1 \<and> timerInv [] s1 \<and> \<not> timerWorking s1 \<and>
    dueTimers s @ timers s0 = filter (\<lambda>p. p \<notin> set (cancelled s)) (timers s) \<and> canceling s0 = [] \<and>
    block (map (\<lambda>p. exec (tm_cb (the (tmHeap s p)))) (dueTimers s)) s0 = Inr sc \<and>
    canceling s1 = canceling sc \<and>
    (\<forall>p \<in> set (dueTimers s). \<exists>t. tmHeap s p = Some t \<and>
       rescheduled (fst (now s)) (canceling s1) p t s1)"
proof -
  have alive: "\<exists>t. tmHeap s p = Some t" if "p \<in> set (dueTimers s)" for p
    using that assms(2) set_takeWhileD
    by (fastforce simp: dueTimers_def before_bound_def timerInv_def)
  obtain s0 sc s1 where *: "TimerQueue_handleRead exec s = rearm s1" "timerInv [] s1" "\<not> timerWorking s1"
    "dueTimers s @ timers s0 = filter (\<lambda>p. p \<notin> set (cancelled s)) (timers s)" "canceling s0 = []"
    "block (map (\<lambda>p. exec (tm_cb (the (tmHeap s p)))) (dueTimers s)) s0 = Inr sc"
    "canceling s1 = canceling sc"
    "\<forall>p \<in> set (dueTimers s). \<forall>t. tmHeap s p = Some t \<longrightarrow> rescheduled (fst (now s)) (canceling s1) p t s1"
    by (rule handleRead_ok[of s exec, OF assms])
  show ?thesis
    by (rule exI[of _ s0], rule exI[of _ sc], rule exI[of _ s1]) (use * alive in blast)
qed

text \<open>A callback of the demonstration cancels a timer, or logs a level.\<close>

datatype demoCb = Say level | CancelIt timerId

fun runDemo :: "demoCb \<Rightarrow> (demoCb, 'z) timerq_scheme stmt" where
  "runDemo (Say l) = upd (\<lambda>s. s\<lparr>logOut := logOut s @ [l]\<rparr>)"
| "runDemo (CancelIt i) = cancelInLoop i"

lemma runDemo_callbackInv: "ensures (callbackInv X h) (runDemo c) (callbackInv X h)"
  by (cases c) (simp_all add: cancelInLoop_callbackInv,
    simp add: ensures_def upd_def callbackInv_def timerInv_def)

definition threeTimers :: "demoCb \<Rightarrow> demoCb timerq" where
  "threeTimers c = demoTimerq (\<lambda>_. okAns) [1 \<mapsto> demoTimer c 100 0 0,
     2 \<mapsto> demoTimer (Say WARN) 200 3 1, 3 \<mapsto> demoTimer (Say ERROR) 5000000 0 2] [1, 2, 3]"

lemmas threeTimers_defs = threeTimers_def demoTimerq_defs demoTimer_def kMicroSecondsPerSecond_def

lemma threeTimers_facts:
  "dueTimers (threeTimers c) = [1, 2]" "timerInv [] (threeTimers c)"
  "curTid (threeTimers c) = loopTid (threeTimers c)" "pendingOk (threeTimers c)"
  "fst (now (threeTimers c)) = 1000000" "cancelled (threeTimers c) = []"
  by (auto simp: dueTimers_def cancelled_def now_def before_bound_def timerLess_def keyIn_def
      timerInv_def ordered_def pendingOk_def threeTimers_defs split: if_splits)

theorem handleRead_effect_witness:
  "\<exists>s1. TimerQueue_handleRead runDemo (threeTimers (Say INFO)) = rearm s1 \<and>
     tmHeap s1 1 = None \<and> tmHeap s1 2 = Some (demoTimer (Say WARN) 4000000 3 1)"
proof -
  let ?s = "threeTimers (Say INFO)"
  obtain s0 :: "demoCb timerq" and sc s1 where s1: "TimerQueue_handleRead runDemo ?s = rearm s1" "canceling s0 = []"
    "block (map (\<lambda>p. runDemo (tm_cb (the (tmHeap ?s p)))) [1, 2]) s0 = Inr sc" "canceling s1 = canceling sc"
    "\<forall>p \<in> {1, 2}. \<exists>t. tmHeap ?s p = Some t \<and> rescheduled 1000000 (canceling s1) p t s1"
    using handleRead_effect[of ?s runDemo, OF threeTimers_facts(3,2,4) runDemo_callbackInv]
    unfolding threeTimers_facts list.set by (elim exE conjE) (rule that; assumption)
  have c: "canceling s1 = []" using s1(2-4) by (auto simp: threeTimers_defs upd_def)
  have "addTime (Dbl 3 0) 1000000 = 4000000" by code_simp
  then show ?thesis using s1(1,5) unfolding c
    by (auto simp: rescheduled_def kept_def repeat_def restart_def threeTimers_defs)
qed

lemma deleteTimer_keeps_dead: "keeps (\<lambda>s. tmHeap s p = None) (deleteTimer q)"
  by (auto simp: keeps_def deleteTimer_def followSet_def letIn_def upd_def assertThat_def
      freeTimer_def withTimer_def andThen_Inr_iff set_erase_def Let_def split: if_splits option.splits)

lemma handleRead_dead:
  assumes "(i, p) \<in> set (canceling s)" "tmHeap s p = None"
  shows "\<exists>e. TimerQueue_handleRead exec s = Inl e"
proof -
  obtain a where a: "readTimerfd (timerFd s) s = Inr a" "tmHeap a = tmHeap s" "canceling a = canceling s"
    by (rule readTimerfd_ok)
  have "\<exists>e. block (map (\<lambda>tid. deleteTimer (snd tid)) (canceling s)) a = Inl e"
    by (rule block_fails[where P = "\<lambda>s. tmHeap s p = None" and g = "deleteTimer p"])
      (use assms a in \<open>auto simp: deleteTimer_keeps_dead image_iff dest: deleteTimer_dead intro!: bexI[of _ "(i, p)"]\<close>)
  then show ?thesis using a
    by (auto simp: TimerQueue_handleRead_def assertInLoopThread_def assertThat_def letIn_def)
qed

text \<open>
  C24. A timer cannot cancel itself: when a callback cancels a timer that is being handled (its
  own, or another one due at the same time), the timer is deleted after the callbacks, its id
  stays among those to cancel, and the next time the descriptor fires the queue aborts on it,
  whatever else happens then.
\<close>

theorem cancel_expired_aborts:
  assumes "curTid s = loopTid s" and "timerInv [] s" and "pendingOk s"
    and "\<And>p t. p \<in> set (dueTimers s) \<Longrightarrow> tmHeap s p = Some t \<Longrightarrow>
      ensures (callbackInv (dueTimers s) (tmHeap s)) (exec (tm_cb t)) (callbackInv (dueTimers s) (tmHeap s))"
    and "TimerQueue_handleRead exec s = Inr s2"
    and "p \<in> set (dueTimers s)" and "tmHeap s p = Some t" and "(tm_id t, p) \<in> set (canceling s2)"
  shows "tmHeap s2 p = None \<and> (\<exists>e. TimerQueue_handleRead exec' s2 = Inl e)"
proof -
  obtain s0 sc s1 where s1: "TimerQueue_handleRead exec s = rearm s1"
    "\<forall>p \<in> set (dueTimers s). \<forall>t. tmHeap s p = Some t \<longrightarrow> rescheduled (fst (now s)) (canceling s1) p t s1"
    by (rule handleRead_ok[of s exec, OF assms(1-3)], erule (1) assms(4)) (rule that; assumption)
  have "rearm s1 = Inr s2" using s1(1) assms(5) by simp
  then have fr: "canceling s2 = canceling s1 \<and> tmHeap s2 = tmHeap s1"
    by (cases rule: resetTimerfd_cases[of "timerFd s1" "expirationOf (hd (timers s1)) s1" s1])
      (auto simp: rearm_def split: if_splits)
  have "\<not> kept (canceling s1) t" using assms(8) fr by (force simp: kept_def)
  then have "tmHeap s2 p = None" using s1(2) assms(6,7) fr by (auto simp: rescheduled_def)
  then show ?thesis using handleRead_dead[OF assms(8)] by blast
qed

theorem cancel_expired_aborts_witness:
  "\<exists>s2 e. TimerQueue_handleRead runDemo (threeTimers (CancelIt (1, 2))) = Inr s2 \<and>
     TimerQueue_handleRead runDemo s2 = Inl e"
proof -
  let ?s = "threeTimers (CancelIt (1, 2))"
  have due: "2 \<in> set (dueTimers ?s)" by (simp add: threeTimers_facts)
  have t: "tmHeap ?s 2 = Some (demoTimer (Say WARN) 200 3 1)" by (simp add: threeTimers_defs)
  obtain s2 where s2: "TimerQueue_handleRead runDemo ?s = Inr s2" "(1, 2) \<in> set (canceling s2)"
  proof -
    have "case TimerQueue_handleRead runDemo ?s of Inl e \<Rightarrow> False | Inr s2 \<Rightarrow> (1, 2) \<in> set (canceling s2)"
      by code_simp
    then show thesis using that by (auto split: sum.splits)
  qed
  have id: "tm_id (demoTimer (Say WARN) 200 3 1) = 1" by (simp add: demoTimer_def)
  show ?thesis
    using cancel_expired_aborts[OF threeTimers_facts(3,2,4) runDemo_callbackInv s2(1) due t, of runDemo] s2
    unfolding id by blast
qed

text \<open>
  \<^verbatim>\<open>getExpired\<close> takes exactly the timers whose time has come: as long as the 32-bit id
  counter has not wrapped around since the timers in the set were made, those with an expiration
  up to and including the given time, in order of expiration, leaving exactly the later ones.
\<close>

lemma getExpired_exact:
  assumes "timerInv X s" and "\<forall>p \<in> set (timers s). snd (keyIn (tmHeap s) p) < numCreated s"
  shows "\<exists>E s'. getExpired t0 s = Inr (E, s') \<and> E @ timers s' = timers s \<and> timerInv (E @ X) s' \<and>
    set E = {p \<in> set (timers s). expirationOf p s \<le> t0} \<and>
    set (timers s') = {p \<in> set (timers s). t0 < expirationOf p s} \<and>
    sorted_wrt (\<lambda>p q. expirationOf p s \<le> expirationOf q s) E"
proof -
  let ?k = "keyIn (tmHeap s)"
  let ?E = "before_bound timerLess ?k (t0, numCreated s) (timers s)"
  let ?F = "from_bound timerLess ?k (t0, numCreated s) (timers s)"
  let ?s = "s\<lparr>numCreated := numCreated s + 1, timers := ?F\<rparr>"
  have o: "ordered timerLess ?k (timers s)" using assms(1) by (simp add: timerInv_def)
  have EF: "?E @ ?F = timers s" by (rule before_from)
  then have sets: "set (timers s) = set ?E \<union> set ?F" by (metis set_append)
  have E: "expirationOf p s \<le> t0" if "p \<in> set ?E" for p
    using ts.before_less[OF that] by (auto simp: timerLess_def expirationOf_def split: if_splits)
  have F: "t0 < expirationOf p s" if "p \<in> set ?F" for p
    using ts.from_not_less[OF o that] assms(2) that sets
    by (auto simp: timerLess_def expirationOf_def split: if_splits)
  have "sorted_wrt (\<lambda>p q. expirationOf p s \<le> expirationOf q s) ?E"
    using ts.before_ordered[OF o] unfolding ordered_def
    by (rule sorted_wrt_mono_rel[rotated]) (auto simp: timerLess_def expirationOf_def split: if_splits)
  moreover have "set ?E = {p \<in> set (timers s). expirationOf p s \<le> t0}"
    "set ?F = {p \<in> set (timers s). t0 < expirationOf p s}"
    using E F sets by fastforce+
  ultimately show ?thesis using getExpired_ok[OF assms(1), of t0] EF
    by (intro exI[of _ ?E] exI[of _ ?s]) simp
qed

text \<open>
  C25. The descriptor is set to the right moment: the interval handed to \<^verbatim>\<open>timerfd_settime\<close>,
  taken in nanoseconds, is the distance from the clock to the expiration, but at least 100
  microseconds (so never the zero that would disarm it), its nanoseconds are below a second, and
  nothing but a refusal of the kernel makes the call fail.
\<close>

theorem resetTimerfd_interval:
  "\<exists>sec nsec s1. trace s1 = trace s @ [SysTimerfdSettime fd sec nsec] \<and>
     sec * 1000000000 + nsec = 1000 * max 100 (when - fst (now s)) \<and>
     0 \<le> sec \<and> 0 \<le> nsec \<and> nsec < 1000000000 \<and> 0 < sec + nsec \<and>
     (resetTimerfd fd when s = Inr s1 \<or>
      resetTimerfd fd when s = Inl FatalLog \<and> a_ret (nextAns s) \<noteq> 0)"
proof -
  obtain sec nsec where ts: "timespecOf when (fst (now s)) = (sec, nsec)" by force
  let ?us = "max 100 (when - fst (now s))"
  have "sec = ?us div 1000000" "nsec = ?us mod 1000000 * 1000"
    using ts by (auto simp: timespecOf_def Let_def max_def kMicroSecondsPerSecond_def cdiv_nonneg cmod_nonneg)
  moreover have "?us div 1000000 * 1000000 + ?us mod 1000000 = ?us" by (rule div_mult_mod_eq)
  moreover have "0 \<le> ?us mod 1000000" "?us mod 1000000 < 1000000" "0 \<le> ?us div 1000000" "0 < ?us"
    by (simp_all add: pos_imp_zdiv_nonneg_iff)
  ultimately have num: "sec * 1000000000 + nsec = 1000 * ?us" "0 \<le> sec" "0 \<le> nsec" "nsec < 1000000000"
    "0 < sec + nsec"
    by linarith+
  let ?c = "s\<lparr>clockIx := Suc (clockIx s)\<rparr>"
  let ?s = "afterSys (SysTimerfdSettime fd sec nsec) ?c"
  have "howMuchTimeFromNow when s = ((sec, nsec), ?c)"
    unfolding howMuchTimeFromNow_def by (subst now_eq) (simp add: ts)
  then have "resetTimerfd fd when s = doIf (\<lambda>_. a_ret (nextAns s) \<noteq> 0) (LOG FATAL) ?s"
    by (simp add: resetTimerfd_def call_def sysRet_eq nextAns_def)
  then have "resetTimerfd fd when s = Inr ?s \<or> resetTimerfd fd when s = Inl FatalLog \<and> a_ret (nextAns s) \<noteq> 0"
    by (auto simp: doIf_def LOG_FATAL)
  with num show ?thesis by (intro exI[of _ sec] exI[of _ nsec] exI[of _ ?s]) simp
qed

end
