(* ===== verification/EventLoop.thy ===== *)
theory EventLoop
  imports Timer
begin

text \<open>
  src/net/EventLoop.cpp: construction and destruction of an event loop, the loop itself and the
  timer interface. The record \<open>evloop\<close> completes the state of one loop: the process, the channels,
  the poller, the task queue, the timers, and whether the running thread has a loop already
  (\<^verbatim>\<open>t_loopInThisThread\<close>).
\<close>

record 't evloop = "'t timerq" +
  threadLoop :: bool

lemma evloop_frame [simp]:
  "threadLoop (logged l s) = threadLoop s" "threadLoop (afterSys c s) = threadLoop s"
  by (simp_all add: logged_def afterSys_def)

section \<open>Construction and destruction\<close>

definition EventLoop_ctor :: "'t \<Rightarrow> 't \<Rightarrow> ('t, 'z) evloop_scheme stmt" where
  "EventLoop_ctor timerRead wakeRead = block [
     upd (\<lambda>s. s\<lparr>isLooping := False, exitFlag := False, workingFlag := False, tasks := [],
       loopTid := curTid s\<rparr>),
     EPollPoller_ctor,
     TimerQueue_ctor timerRead,
     callE createEventfd (\<lambda>fd.
       call (newChannel fd True) (\<lambda>cid. block [
         upd (\<lambda>s. s\<lparr>wakeupFd := fd, wakeupChan := cid\<rparr>),
         ifElse threadLoop (LOG FATAL) (upd (\<lambda>s. s\<lparr>threadLoop := True\<rparr>)),
         upd (\<lambda>s. s\<lparr>exitFlag := False\<rparr>),
         setReadableCallback wakeRead cid,
         enableReading EventLoop_updateChannel cid]))]"

text \<open>
  The body of the destructor is empty; the members go in the reverse order of their declaration.
  The tasks and their mutex are declared last, so they are gone when the two channels, which own
  their descriptors, ask the loop to queue the tasks that close them.
\<close>

definition queueDestroyed :: "'t \<Rightarrow> ('t, 'z) evloop_scheme stmt" where
  "queueDestroyed task s = Inl (UseAfterFree ''EventLoop::queueInLoop'')"

definition EventLoop_dtor :: "(nat \<Rightarrow> 't) \<Rightarrow> ('t, 'z) evloop_scheme stmt" where
  "EventLoop_dtor closeTask = block [
     upd (\<lambda>s. s\<lparr>tasks := []\<rparr>),
     letIn wakeupChan (Channel_destroy queueDestroyed closeTask),
     TimerQueue_dtor queueDestroyed closeTask,
     EPollPoller_dtor]"

section \<open>The loop\<close>

definition kPollTimeMs :: int where
  "kPollTimeMs = 10000"

definition loopBody :: "('t \<Rightarrow> ('t, 'z) evloop_scheme stmt) \<Rightarrow> ('t, 'z) evloop_scheme stmt" where
  "loopBody exec = callE (EPollPoller_poll kPollTimeMs) (\<lambda>(pollReturnTime, activeChannels). block [
     block (map (handleEvent exec) activeChannels),
     doTask exec])"

text \<open>The loop may run forever: \<open>None\<close>.\<close>

partial_function (option) loopWhile ::
  "('t \<Rightarrow> ('t, 'z) evloop_scheme stmt) \<Rightarrow> ('t, 'z) evloop_scheme \<Rightarrow> ('t, 'z) evloop_scheme outcome option" where
  [code]: "loopWhile exec s =
     (if exitFlag s then Some (Inr s)
      else case loopBody exec s of Inl e \<Rightarrow> Some (Inl e) | Inr s' \<Rightarrow> loopWhile exec s')"

definition EventLoop_loop ::
  "('t \<Rightarrow> ('t, 'z) evloop_scheme stmt) \<Rightarrow> ('t, 'z) evloop_scheme \<Rightarrow> ('t, 'z) evloop_scheme outcome option" where
  "EventLoop_loop exec s =
     (case block [
         assertThat ''EventLoop::loop'' (\<lambda>s. \<not> isLooping s),
         assertInLoopThread,
         upd (\<lambda>s. s\<lparr>isLooping := True\<rparr>)] s of
        Inl e \<Rightarrow> Some (Inl e)
      | Inr s1 \<Rightarrow> map_option (\<lambda>r. andThen r (upd (\<lambda>s. s\<lparr>isLooping := False\<rparr>))) (loopWhile exec s1))"

section \<open>Timers\<close>

definition runAt :: "(nat \<Rightarrow> 't) \<Rightarrow> timestamp \<Rightarrow> 't \<Rightarrow> (('t, 'z) evloop_scheme, timerId) func" where
  "runAt addTask time cb = addTimer addTask cb time (Dbl 0 0)"

definition runAfter :: "(nat \<Rightarrow> 't) \<Rightarrow> double \<Rightarrow> 't \<Rightarrow> (('t, 'z) evloop_scheme, timerId) func" where
  "runAfter addTask delay cb =
     call now (\<lambda>time. addTimer addTask cb (addTime delay time) (Dbl 0 0))"

definition runEvery :: "(nat \<Rightarrow> 't) \<Rightarrow> double \<Rightarrow> 't \<Rightarrow> (('t, 'z) evloop_scheme, timerId) func" where
  "runEvery addTask interval cb =
     call now (\<lambda>time. addTimer addTask cb (addTime interval time) interval)"

definition EventLoop_cancel :: "(timerId \<Rightarrow> 't) \<Rightarrow> timerId \<Rightarrow> ('t, 'z) evloop_scheme stmt" where
  "EventLoop_cancel cancelTask tid = TimerQueue_cancel cancelTask tid"

section \<open>Properties\<close>

lemma loopWhile_iterate:
  assumes "block (replicate n (loopBody exec)) s = Inr s'" "exitFlag s'"
    and "\<And>m t. m < n \<Longrightarrow> block (replicate m (loopBody exec)) s = Inr t \<Longrightarrow> \<not> exitFlag t"
  shows "loopWhile exec s = Some (Inr s')"
  using assms
proof (induction n arbitrary: s)
  case 0
  then show ?case by (simp add: loopWhile.simps)
next
  case (Suc n)
  then obtain t where t: "loopBody exec s = Inr t" "block (replicate n (loopBody exec)) t = Inr s'"
    by (auto simp: andThen_Inr_iff)
  have "\<not> exitFlag s" using Suc.prems(3)[of 0 s] by simp
  moreover have "loopWhile exec t = Some (Inr s')"
  proof (rule Suc.IH[OF t(2) Suc.prems(2)])
    fix m u assume "m < n" "block (replicate m (loopBody exec)) t = Inr u"
    then show "\<not> exitFlag u" using Suc.prems(3)[of "Suc m" u] t(1) by simp
  qed
  ultimately show ?case using t(1) by (simp add: loopWhile.simps)
qed

text \<open>
  C30. The loop runs whole iterations until the exit flag is found set, and then returns: when
  \<open>n\<close> iterations succeed, the flag is set after the last of them and after none before, the call
  returns with exactly their effect (every event and task of the last iteration included) and
  with the looping mark taken back.
\<close>

theorem loop_returns_after_quit:
  assumes "\<not> isLooping s" and "curTid s = loopTid s"
    and "block (replicate n (loopBody exec)) (s\<lparr>isLooping := True\<rparr>) = Inr s'" and "exitFlag s'"
    and "\<And>m t. m < n \<Longrightarrow> block (replicate m (loopBody exec)) (s\<lparr>isLooping := True\<rparr>) = Inr t \<Longrightarrow> \<not> exitFlag t"
  shows "EventLoop_loop exec s = Some (Inr (s'\<lparr>isLooping := False\<rparr>))"
  using loopWhile_iterate[OF assms(3-5)] assms(1,2)
  by (simp add: EventLoop_loop_def assertThat_def assertInLoopThread_def upd_def)

text \<open>A loop on whose queue waits a task that quits it.\<close>

definition demoLoop :: "'t list \<Rightarrow> 't evloop" where
  "demoLoop ts = timerq.extend ((demoTimerq (\<lambda>_. okAns) Map.empty [])\<lparr>isLooping := False, tasks := ts\<rparr>)
     \<lparr>threadLoop = True\<rparr>"

lemmas demoLoop_defs = demoLoop_def timerq.defs demoTimerq_defs

theorem loop_returns_after_quit_witness:
  "\<exists>s'. EventLoop_loop (\<lambda>_. quit) (demoLoop [()]) = Some (Inr s') \<and> tasks s' = [] \<and> \<not> isLooping s'"
proof -
  let ?s = "demoLoop [()]"
  obtain s' where s': "loopBody (\<lambda>_. quit) (?s\<lparr>isLooping := True\<rparr>) = Inr s'" "exitFlag s'" "tasks s' = []"
    by (simp add: loopBody_def callE_def EPollPoller_poll_def stmt_defs poll_wait_def sys_eq demoLoop_defs
        nextAns_def okAns_def now_def doTask_def quit_def isInLoopThread_def kInitEventListSize_def)
  have "\<not> exitFlag ?s" "\<not> isLooping ?s" "curTid ?s = loopTid ?s" by (simp_all add: demoLoop_defs)
  then have "EventLoop_loop (\<lambda>_. quit) ?s = Some (Inr (s'\<lparr>isLooping := False\<rparr>))"
    by (intro loop_returns_after_quit[where n = 1]) (use s' in auto)
  then show ?thesis using s' by simp
qed



end
