(* ===== verification/EndPoint.thy ===== *)
theory EndPoint
  imports ISocket ByteOrder Format
begin

text \<open>
  src/net/EndPoint.h and EndPoint.cpp, and the calls of src/net/ISocket.cpp that fill in or print
  an address. An end point is its object representation: the 28 bytes of the union of
  \<^verbatim>\<open>sockaddr_in\<close> (family, port, 4 bytes of address, padding: 16 bytes) and \<^verbatim>\<open>sockaddr_in6\<close>
  (family, port, flow, 16 bytes of address, scope: 28 bytes). A constructor starts from \<open>mem\<close>, the
  bytes that happen to be in the memory of the object. \<open>pton\<close> and \<open>ntop\<close> stand for \<^verbatim>\<open>inet_pton\<close> and
  \<^verbatim>\<open>inet_ntop\<close>, which are not part of the repository.
\<close>

type_synonym endpoint = "byte list"
type_synonym inet_pton = "16 word \<Rightarrow> string \<Rightarrow> byte list option"
type_synonym inet_ntop = "16 word \<Rightarrow> byte list \<Rightarrow> string"

definition AF_INET :: "16 word" where "AF_INET = 2"
definition AF_INET6 :: "16 word" where "AF_INET6 = 10"

definition overwrite :: "nat \<Rightarrow> byte list \<Rightarrow> byte list \<Rightarrow> byte list" where
  "overwrite off xs mem = take off mem @ xs @ drop (off + length xs) mem"

text \<open>\<^verbatim>\<open>sa_family\<close> and the port field of an address, and the two address fields.\<close>

definition sa_family :: "byte list \<Rightarrow> 16 word" where
  "sa_family mem = of_mem (take 2 mem)"

definition sin_port :: "byte list \<Rightarrow> 16 word" where
  "sin_port mem = of_mem (take 2 (drop 2 mem))"

definition sin_addr :: "byte list \<Rightarrow> byte list" where
  "sin_addr mem = take 4 (drop 4 mem)"

definition sin6_addr :: "byte list \<Rightarrow> byte list" where
  "sin6_addr mem = take 16 (drop 8 mem)"

section \<open>Constructors\<close>

definition setAddress6 :: "inet_pton \<Rightarrow> byte list \<Rightarrow> string \<Rightarrow> 16 word \<Rightarrow> bool \<times> byte list" where
  "setAddress6 pton mem ip port =
     (let m1 = overwrite 0 (replicate 28 0) mem; m2 = overwrite 0 (mem_bytes AF_INET6) m1 in
      case pton AF_INET6 ip of
        None \<Rightarrow> (False, m2)
      | Some a \<Rightarrow> (True, overwrite 2 (mem_bytes (htobe port)) (overwrite 8 a m2)))"

definition setAddress4 :: "inet_pton \<Rightarrow> byte list \<Rightarrow> string \<Rightarrow> 16 word \<Rightarrow> bool \<times> byte list" where
  "setAddress4 pton mem ip port =
     (let m1 = overwrite 0 (replicate 16 0) mem; m2 = overwrite 0 (mem_bytes AF_INET) m1 in
      case pton AF_INET ip of
        None \<Rightarrow> (False, m2)
      | Some a \<Rightarrow> (True, overwrite 2 (mem_bytes (htobe port)) (overwrite 4 a m2)))"

definition EndPoint_ip :: "inet_pton \<Rightarrow> byte list \<Rightarrow> string \<Rightarrow> 16 word \<Rightarrow> bool \<Rightarrow> endpoint" where
  "EndPoint_ip pton mem ip port ipv6 =
     (if ipv6 then
        case setAddress6 pton mem ip port of (ok, m) \<Rightarrow>
          if ok then m else
            (let m1 = overwrite 0 (replicate 28 0) m; m2 = overwrite 0 (mem_bytes AF_INET6) m1;
                 m3 = overwrite 8 (replicate 16 0) m2 in overwrite 2 (mem_bytes (htobe port)) m3)
      else
        case setAddress4 pton mem ip port of (ok, m) \<Rightarrow>
          if ok then m else
            (let m1 = overwrite 0 (replicate 16 0) m; m2 = overwrite 0 (mem_bytes AF_INET) m1;
                 m3 = overwrite 4 (replicate 4 0) m2 in overwrite 2 (mem_bytes (htobe port)) m3))"

definition EndPoint_port :: "inet_pton \<Rightarrow> byte list \<Rightarrow> 16 word \<Rightarrow> bool \<Rightarrow> endpoint" where
  "EndPoint_port pton mem port ipv6 =
     (if ipv6 then snd (setAddress6 pton mem ''::'' port) else snd (setAddress4 pton mem ''0.0.0.0'' port))"

definition EndPoint_in :: "byte list \<Rightarrow> byte list \<Rightarrow> endpoint" where
  "EndPoint_in mem addr = overwrite 0 (take 16 addr) mem"

definition EndPoint_in6 :: "byte list \<Rightarrow> byte list \<Rightarrow> endpoint" where
  "EndPoint_in6 mem addr6 = overwrite 0 (take 28 addr6) mem"

definition setSockAddrIn6 :: "byte list \<Rightarrow> endpoint \<Rightarrow> endpoint" where
  "setSockAddrIn6 addr6 ep = overwrite 0 (take 28 addr6) ep"

definition EndPoint_family :: "endpoint \<Rightarrow> 16 word" where
  "EndPoint_family ep = sa_family ep"

section \<open>Access\<close>

text \<open>
  \<^verbatim>\<open>getSockAddr\<close> copies the address into a static buffer shared by all end points and returns a
  pointer to it, here the buffer's bytes; a null pointer is \<open>None\<close>.
\<close>

definition getSockAddr :: "endpoint \<Rightarrow> 'z process_scheme \<Rightarrow> byte list option \<times> 'z process_scheme" where
  "getSockAddr ep s =
     (if EndPoint_family ep = AF_INET then
        (let st = overwrite 0 (take 16 ep) (addrStorage s) in (Some st, s\<lparr>addrStorage := st\<rparr>))
      else if EndPoint_family ep = AF_INET6 then
        (let st = overwrite 0 (take 28 ep) (addrStorage s) in (Some st, s\<lparr>addrStorage := st\<rparr>))
      else (None, s))"

text \<open>The bytes \<^verbatim>\<open>bind\<close> and \<^verbatim>\<open>connect\<close> hand to the kernel: always 28, none for a null pointer.\<close>

definition passedAddr :: "byte list option \<Rightarrow> byte list" where
  "passedAddr a = (case a of None \<Rightarrow> [] | Some st \<Rightarrow> take 28 st)"

definition INET_ADDRSTRLEN :: nat where "INET_ADDRSTRLEN = 16"
definition INET6_ADDRSTRLEN :: nat where "INET6_ADDRSTRLEN = 46"

text \<open>\<^verbatim>\<open>inet_ntop\<close> leaves the buffer alone when the text does not fit; \<open>buf\<close> is what it held.\<close>

definition ntopInto :: "inet_ntop \<Rightarrow> string \<Rightarrow> nat \<Rightarrow> 16 word \<Rightarrow> byte list \<Rightarrow> string" where
  "ntopInto ntop buf sz family a = (let t = ntop family a in if length t < sz then t else buf)"

definition ISocket_toIpString :: "inet_ntop \<Rightarrow> string \<Rightarrow> nat \<Rightarrow> byte list option \<Rightarrow> string outcome" where
  "ISocket_toIpString ntop buf sz addr = (case addr of
       None \<Rightarrow> Inl (NullDeref ''ISocket::toIpString'')
     | Some m \<Rightarrow>
         if sa_family m = AF_INET then
           (if sz \<ge> INET_ADDRSTRLEN then Inr (ntopInto ntop buf sz AF_INET (sin_addr m))
            else Inl (AssertFailed ''ISocket::toIpString''))
         else if sa_family m = AF_INET6 then
           (if sz \<ge> INET6_ADDRSTRLEN then Inr (ntopInto ntop buf sz AF_INET6 (sin6_addr m))
            else Inl (AssertFailed ''ISocket::toIpString''))
         else Inr buf)"

text \<open>\<^verbatim>\<open>snprintf\<close> with a buffer of \<open>n\<close> bytes keeps \<open>n - 1\<close> characters.\<close>

definition snprintfTo :: "nat \<Rightarrow> string \<Rightarrow> string" where
  "snprintfTo n t = take (n - 1) t"

definition portText :: "byte list \<Rightarrow> string" where
  "portText m = dec (unat (betoh (sin_port m)))"

definition ISocket_toIpPortString :: "inet_ntop \<Rightarrow> string \<Rightarrow> nat \<Rightarrow> byte list option \<Rightarrow> string outcome" where
  "ISocket_toIpPortString ntop buf sz addr =
     andThen (ISocket_toIpString ntop buf sz addr) (\<lambda>ip. case addr of
       None \<Rightarrow> Inl (NullDeref ''ISocket::toIpPortString'')
     | Some m \<Rightarrow>
         if sz > length ip then Inr (ip @ snprintfTo (sz - length ip) ('':'' @ portText m))
         else Inl (AssertFailed ''ISocket::toIpPortString''))"

definition EndPoint_toIpString ::
  "inet_ntop \<Rightarrow> string \<Rightarrow> endpoint \<Rightarrow> 'z process_scheme \<Rightarrow> (string \<times> 'z process_scheme) outcome" where
  "EndPoint_toIpString ntop buf ep = call (getSockAddr ep) (\<lambda>addr s.
     andThen (ISocket_toIpString ntop buf 64 addr) (\<lambda>t. Inr (t, s)))"

definition EndPoint_toIpPortString ::
  "inet_ntop \<Rightarrow> string \<Rightarrow> endpoint \<Rightarrow> 'z process_scheme \<Rightarrow> (string \<times> 'z process_scheme) outcome" where
  "EndPoint_toIpPortString ntop buf ep = call (getSockAddr ep) (\<lambda>addr s.
     andThen (if EndPoint_family ep = AF_INET then ISocket_toIpPortString ntop buf 64 addr
              else if EndPoint_family ep = AF_INET6 then
                (case addr of None \<Rightarrow> Inl (NullDeref ''EndPoint::toIpPortString'')
                 | Some m \<Rightarrow> Inr (snprintfTo 64
                     (''['' @ ntopInto ntop [] INET6_ADDRSTRLEN AF_INET6 (sin6_addr m) @ '']:'' @ portText m)))
              else (case addr of None \<Rightarrow> Inl (NullDeref ''EndPoint::toIpPortString'')
                 | Some m \<Rightarrow> Inr (snprintfTo 64 (''Unknown family '' @ dec (unat (sa_family m))))))
       (\<lambda>t. Inr (t, s)))"

section \<open>Addresses from the kernel (ISocket.cpp)\<close>

text \<open>The kernel stores at most 28 bytes of address into the zeroed structure.\<close>

definition filledAddr :: "answer \<Rightarrow> byte list" where
  "filledAddr a = overwrite 0 (take 28 (a_payload a)) (replicate 28 0)"

definition getLocalAddr :: "int \<Rightarrow> ('z process_scheme, byte list) func" where
  "getLocalAddr sockfd = call (sys (\<lambda>_. SysGetsockname sockfd)) (\<lambda>a.
     if a_ret a < 0 then thenDo (LOG ERROR) (retF (replicate 28 0)) else retF (filledAddr a))"

definition getPeerAddr :: "int \<Rightarrow> ('z process_scheme, byte list) func" where
  "getPeerAddr sockfd = call (sys (\<lambda>_. SysGetpeername sockfd)) (\<lambda>a.
     if a_ret a < 0 then thenDo (LOG ERROR) (retF (replicate 28 0)) else retF (filledAddr a))"

definition ISocket_accept :: "int \<Rightarrow> ('z process_scheme, int \<times> byte list) func" where
  "ISocket_accept sockfd = call (sys (\<lambda>a. SysAccept sockfd (a_ret a))) (\<lambda>a.
     if a_ret a < 0 then thenDo (LOG ERROR) (retF (a_ret a, replicate 28 0))
     else retF (a_ret a, filledAddr a))"

definition isSelfConnect :: "int \<Rightarrow> ('z process_scheme, bool) func" where
  "isSelfConnect sockfd =
     callE (getLocalAddr sockfd) (\<lambda>localaddr.
     callE (getPeerAddr sockfd) (\<lambda>peeraddr.
     retF (if sa_family localaddr = AF_INET then
             sin_port localaddr = sin_port peeraddr \<and> sin_addr localaddr = sin_addr peeraddr
           else if sa_family localaddr = AF_INET6 then
             sin_port localaddr = sin_port peeraddr \<and> sin6_addr localaddr = sin6_addr peeraddr
           else False)))"

section \<open>The layout of a constructed end point\<close>

lemma sizeof16 [simp]: "sizeof (w :: 16 word) = 2"
  by (simp add: sizeof_def)

definition layout4 :: "16 word \<Rightarrow> byte list \<Rightarrow> byte list \<Rightarrow> endpoint" where
  "layout4 port a mem = mem_bytes AF_INET @ mem_bytes (htobe port) @ a @ replicate 8 0 @ drop 16 mem"

definition layout6 :: "16 word \<Rightarrow> byte list \<Rightarrow> byte list \<Rightarrow> endpoint" where
  "layout6 port a mem =
     mem_bytes AF_INET6 @ mem_bytes (htobe port) @ replicate 4 0 @ a @ replicate 4 0 @ drop 28 mem"

definition ptonOk :: "inet_pton \<Rightarrow> bool" where
  "ptonOk pton \<longleftrightarrow> (\<forall>ip a. pton AF_INET ip = Some a \<longrightarrow> length a = 4) \<and>
     (\<forall>ip a. pton AF_INET6 ip = Some a \<longrightarrow> length a = 16)"

text \<open>The address an end point gets: the parsed one, or the \<open>any\<close> address (all zero).\<close>

definition parsedAddr :: "inet_pton \<Rightarrow> string \<Rightarrow> bool \<Rightarrow> byte list" where
  "parsedAddr pton ip ipv6 = (case pton (if ipv6 then AF_INET6 else AF_INET) ip of
     None \<Rightarrow> replicate (if ipv6 then 16 else 4) 0 | Some a \<Rightarrow> a)"

lemma EndPoint_ip_layout:
  assumes "ptonOk pton" "length mem = 28"
  shows "EndPoint_ip pton mem ip port ipv6 =
    (if ipv6 then layout6 port (parsedAddr pton ip True) mem else layout4 port (parsedAddr pton ip False) mem)"
proof -
  have a: "length x = 16" if "pton AF_INET6 ip = Some x" for x using assms(1) that by (simp add: ptonOk_def)
  have b: "length x = 4" if "pton AF_INET ip = Some x" for x using assms(1) that by (simp add: ptonOk_def)
  show ?thesis using assms(2) a b
    by (auto simp: EndPoint_ip_def setAddress4_def setAddress6_def Let_def overwrite_def layout4_def
        layout6_def parsedAddr_def numeral_eq_Suc split: option.split)
qed

lemma layout_fields:
  assumes "length a = 4" "length b = 16"
  shows "sa_family (layout4 port a mem) = AF_INET" "sin_port (layout4 port a mem) = htobe port"
    "sin_addr (layout4 port a mem) = a"
    "sa_family (layout6 port b mem) = AF_INET6" "sin_port (layout6 port b mem) = htobe port"
    "sin6_addr (layout6 port b mem) = b"
  using assms by (simp_all add: layout4_def layout6_def sa_family_def sin_port_def sin_addr_def sin6_addr_def del: mem_bytes_htobe)

lemma length_parsedAddr:
  "ptonOk pton \<Longrightarrow> length (parsedAddr pton ip False) = 4"
  "ptonOk pton \<Longrightarrow> length (parsedAddr pton ip True) = 16"
  by (auto simp: parsedAddr_def ptonOk_def split: option.split)

lemma fields_overwrite4:
  assumes "length a = 4"
  shows "sin_port (overwrite 0 (take 16 (layout4 port a mem)) st) = htobe port"
    "sin_addr (overwrite 0 (take 16 (layout4 port a mem)) st) = a"
    "sa_family (overwrite 0 (take 16 (layout4 port a mem)) st) = AF_INET"
  using assms by (simp_all add: layout4_def sa_family_def sin_port_def sin_addr_def overwrite_def del: mem_bytes_htobe)

lemma fields_overwrite6:
  assumes "length a = 16"
  shows "sin_port (overwrite 0 (take 28 (layout6 port a mem)) st) = htobe port"
    "sin6_addr (overwrite 0 (take 28 (layout6 port a mem)) st) = a"
    "sa_family (overwrite 0 (take 28 (layout6 port a mem)) st) = AF_INET6"
  using assms by (simp_all add: layout6_def sa_family_def sin_port_def sin6_addr_def overwrite_def del: mem_bytes_htobe)

section \<open>Properties\<close>

text \<open>
  C33. An end point prints as what it was made from: the text is the address as the system prints
  it (in brackets for IPv6), a colon and the port in decimal. A text that is not an address
  gives the any-address of the family with the same port. It holds for every content of the
  object's memory and of the shared static buffer.
\<close>

theorem endpoint_prints:
  assumes "ptonOk pton" and "length mem = 28"
    and "length (ntop (if ipv6 then AF_INET6 else AF_INET) (parsedAddr pton ip ipv6)) < (if ipv6 then 46 else 16)"
  shows "\<exists>s'. EndPoint_toIpPortString ntop buf (EndPoint_ip pton mem ip port ipv6) s =
    Inr (if ipv6 then ''['' @ ntop AF_INET6 (parsedAddr pton ip True) @ '']:'' @ dec (unat port)
         else ntop AF_INET (parsedAddr pton ip False) @ '':'' @ dec (unat port), s')"
proof -
  have port: "length (dec (unat port)) \<le> 5"
    using length_dec[of "unat port" 5] unsigned_less[of port, where ?'a = nat] by simp
  note lens = length_parsedAddr[OF assms(1), of ip]
  have be: "betoh (htobe port) = port" by simp
  have ne: "AF_INET6 \<noteq> AF_INET" by (simp add: AF_INET_def AF_INET6_def)
  show ?thesis
  proof (cases ipv6)
    case True
    let ?a = "parsedAddr pton ip True"
    let ?m = "overwrite 0 (take 28 (layout6 port ?a mem)) (addrStorage s)"
    have "getSockAddr (layout6 port ?a mem) s = (Some ?m, s\<lparr>addrStorage := ?m\<rparr>)"
      using lens ne by (simp add: getSockAddr_def EndPoint_family_def layout_fields Let_def)
    then show ?thesis using True assms lens port ne
      by (simp add: EndPoint_toIpPortString_def EndPoint_ip_layout call_def EndPoint_family_def layout_fields
          fields_overwrite6 ntopInto_def INET6_ADDRSTRLEN_def snprintfTo_def portText_def be)
  next
    case False
    let ?a = "parsedAddr pton ip False"
    let ?m = "overwrite 0 (take 16 (layout4 port ?a mem)) (addrStorage s)"
    have "getSockAddr (layout4 port ?a mem) s = (Some ?m, s\<lparr>addrStorage := ?m\<rparr>)"
      using lens ne by (simp add: getSockAddr_def EndPoint_family_def layout_fields Let_def)
    then show ?thesis using False assms lens port ne
      by (simp add: EndPoint_toIpPortString_def EndPoint_ip_layout call_def EndPoint_family_def layout_fields
          ISocket_toIpPortString_def ISocket_toIpString_def INET_ADDRSTRLEN_def
          fields_overwrite4 ntopInto_def snprintfTo_def portText_def be)
  qed
qed

text \<open>A resolver that knows two addresses and prints any as one text per family.\<close>

definition demoPton :: inet_pton where
  "demoPton family ip = (if family = AF_INET \<and> ip = ''10.0.0.1'' then Some [10, 0, 0, 1]
     else if family = AF_INET6 \<and> ip = ''::1'' then Some (replicate 15 0 @ [1]) else None)"

definition demoNtop :: inet_ntop where
  "demoNtop family a = (if family = AF_INET then ''10.0.0.1'' else ''::1'')"

lemma demoPton_ok: "ptonOk demoPton"
  by (simp add: ptonOk_def demoPton_def AF_INET_def AF_INET6_def)

theorem endpoint_prints_witness:
  "\<exists>s'. EndPoint_toIpPortString demoNtop [] (EndPoint_ip demoPton (replicate 28 7) ''10.0.0.1'' 80 False)
     (startProcess (\<lambda>_. \<lparr>a_ret = 0, a_err = 0, a_payload = [], a_events = []\<rparr>) (\<lambda>_. (0, 0))) = Inr (''10.0.0.1:80'', s')"
proof -
  have d: "dec (unat (80 :: 16 word)) = ''80''" by code_simp
  show ?thesis
    using endpoint_prints[OF demoPton_ok, of "replicate 28 7" demoNtop False "''10.0.0.1''" "[]" 80
        "startProcess (\<lambda>_. \<lparr>a_ret = 0, a_err = 0, a_payload = [], a_events = []\<rparr>) (\<lambda>_. (0, 0))"]
    unfolding d by (simp add: demoNtop_def)
qed

text \<open>
  An end point of no known family cannot be printed: the address of a socket the kernel
  could not name is all zero, and printing it follows a null pointer, although the code prepares
  a text for that case.
\<close>

lemma unnamed_peer_crashes:
  assumes "a_ret (nextAns s) < 0"
  shows "\<exists>peer s'. getPeerAddr fd s = Inr (peer, s') \<and>
    EndPoint_toIpPortString ntop buf (EndPoint_in6 mem peer) s' = Inl (NullDeref ''EndPoint::toIpPortString'')"
proof -
  have "sa_family (EndPoint_in6 mem (replicate 28 0)) = 0"
    by (simp add: EndPoint_in6_def overwrite_def sa_family_def numeral_eq_Suc)
  then show ?thesis using assms
    by (simp add: getPeerAddr_def call_def sys_eq thenDo_def retF_def EndPoint_toIpPortString_def
        getSockAddr_def EndPoint_family_def AF_INET_def AF_INET6_def)
qed

end
