(* ===== verification/TcpSocket.thy ===== *)
theory TcpSocket
  imports EndPoint
begin

text \<open>
  src/net/TcpSocket.h and TcpSocket.cpp: a socket that closes its descriptor when it goes. The
  object holds nothing but the descriptor, which its operations take as their first argument.
\<close>

definition TcpSocket_dtor :: "int \<Rightarrow> 'z process_scheme stmt" where
  "TcpSocket_dtor fd = callE (ISocket_close fd) (\<lambda>r.
     if r = 0 then call (sysRet (SysFcntlGetFl fd)) (\<lambda>_. Inr) else Inr)"

definition TcpSocket_listen :: "int \<Rightarrow> 'z process_scheme stmt" where
  "TcpSocket_listen fd = ISocket_listen fd"

definition TcpSocket_bind :: "int \<Rightarrow> endpoint \<Rightarrow> 'z process_scheme stmt" where
  "TcpSocket_bind fd local = call (getSockAddr local) (\<lambda>addr. ISocket_bind fd (passedAddr addr))"

definition setOption :: "int \<Rightarrow> string \<Rightarrow> bool \<Rightarrow> 'z process_scheme stmt" where
  "setOption fd opt enable =
     call (sysRet (SysSetsockopt fd opt (if enable then 1 else 0))) (\<lambda>ret.
     doIf (\<lambda>_. ret < 0) (LOG ERROR))"

definition setReusePort :: "int \<Rightarrow> bool \<Rightarrow> 'z process_scheme stmt" where
  "setReusePort fd enable = setOption fd ''SO_REUSEPORT'' enable"

definition setReuseAddr :: "int \<Rightarrow> bool \<Rightarrow> 'z process_scheme stmt" where
  "setReuseAddr fd enable = setOption fd ''SO_REUSEADDR'' enable"

definition setTcpNoDelay :: "int \<Rightarrow> bool \<Rightarrow> 'z process_scheme stmt" where
  "setTcpNoDelay fd enable = setOption fd ''TCP_NODELAY'' enable"

text \<open>The result and the new value of the end point \<open>peer\<close>.\<close>

definition TcpSocket_accept :: "int \<Rightarrow> endpoint \<Rightarrow> ('z process_scheme, int \<times> endpoint) func" where
  "TcpSocket_accept fd peer = callE (ISocket_accept fd) (\<lambda>(connfd, addr).
     retF (connfd, if connfd \<ge> 0 then setSockAddrIn6 addr peer else peer))"

definition TcpSocket_shutdownWrite :: "int \<Rightarrow> 'z process_scheme stmt" where
  "TcpSocket_shutdownWrite fd = ISocket_shutdownWrite fd"

text \<open>Neither the options nor the destructor can fail; what they change is the kernel's part.\<close>

lemma setOption_ok:
  obtains s' where "setOption fd opt enable s = Inr s'" "kernelStep s s'"
proof (cases "a_ret (nextAns s) < 0")
  case True
  then show thesis
    using that[of "logged ERROR (afterSys (SysSetsockopt fd opt (if enable then 1 else 0)) s)"]
    by (simp add: setOption_def stmt_defs sysRet_eq)
      (meson kernelStep_afterSys kernelStep_logged kernelStep_trans)
next
  case False
  then show thesis using that[of "afterSys (SysSetsockopt fd opt (if enable then 1 else 0)) s"]
    by (simp add: setOption_def stmt_defs sysRet_eq)
qed

lemma TcpSocket_dtor_ok:
  obtains s' where "TcpSocket_dtor fd s = Inr s'" "kernelStep s s'"
proof (cases "closeResult fd (nextAns s) = 0")
  case True
  then show thesis
    using that[of "afterSys (SysFcntlGetFl fd) (afterClose fd s)"]
    by (simp add: TcpSocket_dtor_def callE_def ISocket_close_eq call_def sysRet_eq)
      (meson kernelStep_afterSys kernelStep_afterClose kernelStep_trans)
next
  case False
  then show thesis using that[of "afterClose fd s"]
    by (simp add: TcpSocket_dtor_def callE_def ISocket_close_eq)
qed

end
