(* ===== verification/TcpConnection.thy ===== *)
theory TcpConnection
  imports EventLoop Buffer TcpSocket
begin

text \<open>
  src/net/TcpConnection.h and TcpConnection.cpp: one connection on a socket. Connections live in a
  heap, \<open>connHeap\<close>; the pointer \<open>c\<close> of a connection stands for every \<^verbatim>\<open>shared_ptr\<close> to it, and the
  destructor is called where the last one goes. A stored callback is a function that binds the
  arguments of the call to a task, as \<^verbatim>\<open>std::bind\<close> does; an empty \<^verbatim>\<open>std::function\<close> is \<open>None\<close>.
\<close>

section \<open>The class\<close>

datatype connStatus = Disconnected | Connecting | Connected | Disconnecting

record 't conn =
  k_status :: connStatus
  k_sock :: int
  k_chan :: nat
  k_onMsg :: "(nat \<Rightarrow> 't) option"
  k_onConn :: "(nat \<Rightarrow> bool \<Rightarrow> 't) option"
  k_onWrite :: "(nat \<Rightarrow> 't) option"
  k_onClose :: "(nat \<Rightarrow> 't) option"
  k_out :: buffer
  k_in :: buffer
  k_local :: endpoint
  k_peer :: endpoint

record 't conns = "'t evloop" +
  connHeap :: "nat \<Rightarrow> 't conn option"
  nextConn :: nat

lemma conns_frame [simp]:
  "connHeap (logged l s) = connHeap s" "connHeap (afterSys c s) = connHeap s"
  "nextConn (logged l s) = nextConn s" "nextConn (afterSys c s) = nextConn s"
  by (simp_all add: logged_def afterSys_def)

text \<open>The tasks a connection makes of its own member functions.\<close>

record 't connTasks =
  ct_read :: "nat \<Rightarrow> 't"
  ct_write :: "nat \<Rightarrow> 't"
  ct_close :: "nat \<Rightarrow> 't"
  ct_error :: "nat \<Rightarrow> 't"
  ct_forceClose :: "nat \<Rightarrow> 't"
  ct_shutdown :: "nat \<Rightarrow> 't"
  ct_send :: "nat \<Rightarrow> byte list \<Rightarrow> 't"
  ct_chanClose :: "nat \<Rightarrow> 't"

definition withConn ::
  "string \<Rightarrow> nat \<Rightarrow> ('t conn \<Rightarrow> ('t, 'z) conns_scheme \<Rightarrow> 'b outcome) \<Rightarrow> ('t, 'z) conns_scheme \<Rightarrow> 'b outcome" where
  "withConn who c f s = (case connHeap s c of None \<Rightarrow> Inl (UseAfterFree who) | Some k \<Rightarrow> f k s)"

definition modConn :: "string \<Rightarrow> ('t conn \<Rightarrow> 't conn) \<Rightarrow> nat \<Rightarrow> ('t, 'z) conns_scheme stmt" where
  "modConn who f c = withConn who c (\<lambda>k s. Inr (s\<lparr>connHeap := (connHeap s)(c \<mapsto> f k)\<rparr>))"

definition setNetStatus :: "connStatus \<Rightarrow> nat \<Rightarrow> ('t, 'z) conns_scheme stmt" where
  "setNetStatus st = modConn ''TcpConnection::setNetStatus'' (\<lambda>k. k\<lparr>k_status := st\<rparr>)"

definition setMessageCallback :: "(nat \<Rightarrow> 't) option \<Rightarrow> nat \<Rightarrow> ('t, 'z) conns_scheme stmt" where
  "setMessageCallback cb = modConn ''TcpConnection'' (\<lambda>k. k\<lparr>k_onMsg := cb\<rparr>)"

definition setConnectionCallback :: "(nat \<Rightarrow> bool \<Rightarrow> 't) option \<Rightarrow> nat \<Rightarrow> ('t, 'z) conns_scheme stmt" where
  "setConnectionCallback cb = modConn ''TcpConnection'' (\<lambda>k. k\<lparr>k_onConn := cb\<rparr>)"

definition setWriteCompleteCallback :: "(nat \<Rightarrow> 't) option \<Rightarrow> nat \<Rightarrow> ('t, 'z) conns_scheme stmt" where
  "setWriteCompleteCallback cb = modConn ''TcpConnection'' (\<lambda>k. k\<lparr>k_onWrite := cb\<rparr>)"

definition TcpConnection_setCloseCallback :: "(nat \<Rightarrow> 't) option \<Rightarrow> nat \<Rightarrow> ('t, 'z) conns_scheme stmt" where
  "TcpConnection_setCloseCallback cb = modConn ''TcpConnection'' (\<lambda>k. k\<lparr>k_onClose := cb\<rparr>)"

text \<open>The connection's channel, and the socket inside the connection.\<close>

definition connWriting :: "nat \<Rightarrow> (bool \<Rightarrow> ('t, 'z) conns_scheme \<Rightarrow> 'b outcome) \<Rightarrow> ('t, 'z) conns_scheme \<Rightarrow> 'b outcome" where
  "connWriting c f = withConn ''TcpConnection'' c (\<lambda>k.
     withChan ''TcpConnection::_chan'' (k_chan k) (\<lambda>ch. f (isWriting ch)))"

definition connFd :: "nat \<Rightarrow> (int \<Rightarrow> ('t, 'z) conns_scheme \<Rightarrow> 'b outcome) \<Rightarrow> ('t, 'z) conns_scheme \<Rightarrow> 'b outcome" where
  "connFd c f = withConn ''TcpConnection'' c (\<lambda>k.
     withChan ''TcpConnection::_chan'' (k_chan k) (\<lambda>ch. f (c_fd ch)))"

definition onChan :: "(nat \<Rightarrow> ('t, 'z) conns_scheme stmt) \<Rightarrow> nat \<Rightarrow> ('t, 'z) conns_scheme stmt" where
  "onChan f c = withConn ''TcpConnection'' c (\<lambda>k. f (k_chan k))"

definition outBytes :: "nat \<Rightarrow> (byte list \<Rightarrow> ('t, 'z) conns_scheme \<Rightarrow> 'b outcome) \<Rightarrow> ('t, 'z) conns_scheme \<Rightarrow> 'b outcome" where
  "outBytes c f = withConn ''TcpConnection::_oBuffer'' c (\<lambda>k s. andThen (readableBytes (k_out k)) (\<lambda>n.
     f (take n (peek (k_out k))) s))"

definition TcpConnection_ctor ::
  "'t connTasks \<Rightarrow> int \<Rightarrow> endpoint \<Rightarrow> endpoint \<Rightarrow> (('t, 'z) conns_scheme, nat) func" where
  "TcpConnection_ctor K sockfd local peer =
     call (newChannel sockfd True) (\<lambda>cid.
     letIn nextConn (\<lambda>c.
     thenDo (block [
       upd (\<lambda>s. s\<lparr>nextConn := Suc c, connHeap := (connHeap s)(c \<mapsto>
         \<lparr>k_status = Connecting, k_sock = sockfd, k_chan = cid, k_onMsg = None, k_onConn = None,
          k_onWrite = None, k_onClose = None, k_out = mkBuffer kInitSize, k_in = mkBuffer kInitSize,
          k_local = local, k_peer = peer\<rparr>)\<rparr>),
       setTcpNoDelay sockfd True,
       setReadableCallback (ct_read K c) cid,
       setWritableCallback (ct_write K c) cid,
       Channel.setCloseCallback (ct_close K c) cid,
       setErrorCallback (ct_error K c) cid,
       LOG DEBUG])
     (retF c)))"

definition TcpConnection_dtor :: "'t connTasks \<Rightarrow> nat \<Rightarrow> ('t, 'z) conns_scheme stmt" where
  "TcpConnection_dtor K c = block [
     LOG DEBUG,
     withConn ''TcpConnection::~TcpConnection'' c (\<lambda>k. block [
       Channel_dtor (ct_chanClose K) (k_chan k),
       TcpSocket_dtor (k_sock k)]),
     upd (\<lambda>s. s\<lparr>connHeap := (connHeap s)(c := None)\<rparr>)]"

text \<open>
  A \<^verbatim>\<open>shared_ptr\<close> to a connection goes, and the connection with it unless something else owns it.
\<close>

definition dropPtr :: "'t connTasks \<Rightarrow> (nat \<Rightarrow> bool) \<Rightarrow> nat \<Rightarrow> ('t, 'z) conns_scheme stmt" where
  "dropPtr K owned c = (if owned c then Inr else TcpConnection_dtor K c)"

section \<open>Closing\<close>

definition handleClose :: "('t \<Rightarrow> ('t, 'z) conns_scheme stmt) \<Rightarrow> nat \<Rightarrow> ('t, 'z) conns_scheme stmt" where
  "handleClose exec c = block [
     assertInLoopThread,
     withConn ''handleClose'' c (\<lambda>k.
       assertThat ''TcpConnection::handleClose'' (\<lambda>_. k_status k = Connected \<or> k_status k = Disconnecting)),
     setNetStatus Disconnected c,
     onChan (disableAll EventLoop_updateChannel) c,
     withConn ''handleClose'' c (\<lambda>k. case k_onConn k of
         None \<Rightarrow> (\<lambda>_. Inl (BadFunctionCall ''_onConnCb'')) | Some f \<Rightarrow> exec (f c False)),
     withConn ''handleClose'' c (\<lambda>k. case k_onClose k of
         None \<Rightarrow> (\<lambda>_. Inl (BadFunctionCall ''_onCloseCb'')) | Some f \<Rightarrow> exec (f c))]"

definition forceClose :: "'t connTasks \<Rightarrow> nat \<Rightarrow> ('t, 'z) conns_scheme stmt" where
  "forceClose K c = withConn ''forceClose'' c (\<lambda>k.
     if k_status k = Connected \<or> k_status k = Disconnecting then block [
       setNetStatus Disconnecting c,
       queueInLoop (ct_forceClose K c)]
     else Inr)"

definition forceCloseInLoop :: "('t \<Rightarrow> ('t, 'z) conns_scheme stmt) \<Rightarrow> nat \<Rightarrow> ('t, 'z) conns_scheme stmt" where
  "forceCloseInLoop exec c = block [
     assertInLoopThread,
     withConn ''forceCloseInLoop'' c (\<lambda>k.
       if k_status k = Connected \<or> k_status k = Disconnecting then handleClose exec c else Inr)]"

definition shutdownInLoop :: "nat \<Rightarrow> ('t, 'z) conns_scheme stmt" where
  "shutdownInLoop c = block [
     assertInLoopThread,
     connWriting c (\<lambda>w. if \<not> w then withConn ''shutdownInLoop'' c (\<lambda>k. TcpSocket_shutdownWrite (k_sock k))
       else Inr)]"

definition shutdown :: "'t connTasks \<Rightarrow> nat \<Rightarrow> ('t, 'z) conns_scheme stmt" where
  "shutdown K c = withConn ''shutdown'' c (\<lambda>k.
     if k_status k = Connected then block [
       setNetStatus Disconnecting c,
       runInLoop (ct_shutdown K c) (shutdownInLoop c)]
     else Inr)"

section \<open>Sending\<close>

definition EWOULDBLOCK :: int where
  "EWOULDBLOCK = 11"

text \<open>
  The direct attempt of \<^verbatim>\<open>sendInLoop\<close>: the bytes written and those that remain. \<^verbatim>\<open>bind\<close> of the
  write callback and the connection is the task queued when all was written.
\<close>

definition tryWrite :: "nat \<Rightarrow> byte list \<Rightarrow> (('t, 'z) conns_scheme, nat \<times> nat) func" where
  "tryWrite c xs =
     connWriting c (\<lambda>w. outBytes c (\<lambda>out.
     if \<not> w \<and> out = [] then
       connFd c (\<lambda>fd. call (ISocket_write fd xs) (\<lambda>n.
         if n \<ge> 0 then
           thenDo (doIf (\<lambda>_. length xs - nat n = 0) (withConn ''sendInLoop'' c (\<lambda>k.
               case k_onWrite k of None \<Rightarrow> Inr | Some f \<Rightarrow> queueInLoop (f c))))
           (retF (nat n, length xs - nat n))
         else
           thenDo (doIf (\<lambda>s. errno s \<noteq> EWOULDBLOCK) (LOG ERROR))
           (retF (0, length xs))))
     else retF (0, length xs)))"

definition appendOut :: "nat \<Rightarrow> byte list \<Rightarrow> ('t, 'z) conns_scheme stmt" where
  "appendOut c xs = withConn ''sendInLoop'' c (\<lambda>k s. andThen (append_bytes xs (k_out k)) (\<lambda>b.
     Inr (s\<lparr>connHeap := (connHeap s)(c \<mapsto> k\<lparr>k_out := b\<rparr>)\<rparr>)))"

definition sendInLoop :: "nat \<Rightarrow> byte list \<Rightarrow> ('t, 'z) conns_scheme stmt" where
  "sendInLoop c xs = block [
     assertInLoopThread,
     withConn ''sendInLoop'' c (\<lambda>k.
       if k_status k = Disconnected then LOG WARN
       else callE (tryWrite c xs) (\<lambda>(nwrote, remaining). block [
         assertThat ''sendInLoop'' (\<lambda>_. remaining \<le> length xs),
         doIf (\<lambda>_. remaining > 0) (block [
           appendOut c (take remaining (drop nwrote xs)),
           connWriting c (\<lambda>w. if \<not> w then onChan (enableWriting EventLoop_updateChannel) c else Inr)])]))]"

definition send :: "'t connTasks \<Rightarrow> nat \<Rightarrow> byte list \<Rightarrow> (('t, 'z) conns_scheme, bool) func" where
  "send K c xs = withConn ''send'' c (\<lambda>k.
     if k_status k = Connected then
       thenDo (ifElse isInLoopThread (sendInLoop c xs) (runInLoop (ct_send K c xs) (sendInLoop c xs)))
       (retF True)
     else retF False)"

text \<open>\<^verbatim>\<open>send(Buffer &)\<close>: the result and the buffer as the caller gets it back.\<close>

definition sendBuffer :: "'t connTasks \<Rightarrow> nat \<Rightarrow> buffer \<Rightarrow> (('t, 'z) conns_scheme, bool \<times> buffer) func" where
  "sendBuffer K c b s = andThen (readableBytes b) (\<lambda>n.
     callE (send K c (take n (peek b))) (\<lambda>ok. retF (ok, if ok then retrieveAll b else b)) s)"

text \<open>\<^verbatim>\<open>send(const std::string &)\<close>.\<close>

definition sendString :: "'t connTasks \<Rightarrow> nat \<Rightarrow> byte list \<Rightarrow> (('t, 'z) conns_scheme, bool) func" where
  [simp]: "sendString K c msg = send K c msg"

section \<open>Events\<close>

definition connectionEstablished :: "('t \<Rightarrow> ('t, 'z) conns_scheme stmt) \<Rightarrow> nat \<Rightarrow> ('t, 'z) conns_scheme stmt" where
  "connectionEstablished exec c = block [
     assertInLoopThread,
     withConn ''connectionEstablished'' c (\<lambda>k.
       assertThat ''connectionEstablished'' (\<lambda>_. k_status k = Connecting)),
     setNetStatus Connected c,
     onChan (enableReading EventLoop_updateChannel) c,
     withConn ''connectionEstablished'' c (\<lambda>k. case k_onConn k of
         None \<Rightarrow> (\<lambda>_. Inl (BadFunctionCall ''_onConnCb'')) | Some f \<Rightarrow> exec (f c True))]"

definition connectionDestroyed :: "('t \<Rightarrow> ('t, 'z) conns_scheme stmt) \<Rightarrow> nat \<Rightarrow> ('t, 'z) conns_scheme stmt" where
  "connectionDestroyed exec c = block [
     assertInLoopThread,
     withConn ''connectionDestroyed'' c (\<lambda>k.
       if k_status k = Connected then block [
         setNetStatus Disconnected c,
         onChan (disableAll EventLoop_updateChannel) c,
         withConn ''connectionDestroyed'' c (\<lambda>k. case k_onConn k of
             None \<Rightarrow> (\<lambda>_. Inl (BadFunctionCall ''_onConnCb'')) | Some f \<Rightarrow> exec (f c False))]
       else Inr)]"

definition readInput :: "nat \<Rightarrow> (('t, 'z) conns_scheme, int) func" where
  "readInput c = connFd c (\<lambda>fd. withConn ''handleRead'' c (\<lambda>k s.
     andThen (readFd fd (k_in k) s) (\<lambda>(n, b, s').
       Inr (n, s'\<lparr>connHeap := (connHeap s')(c \<mapsto> k\<lparr>k_in := b\<rparr>)\<rparr>))))"

definition TcpConnection_handleRead :: "('t \<Rightarrow> ('t, 'z) conns_scheme stmt) \<Rightarrow> nat \<Rightarrow> ('t, 'z) conns_scheme stmt" where
  "TcpConnection_handleRead exec c = block [
     assertInLoopThread,
     callE (readInput c) (\<lambda>n. withConn ''handleRead'' c (\<lambda>k.
       if n > 0 \<and> k_onMsg k \<noteq> None then exec (the (k_onMsg k) c)
       else if n = 0 then handleClose exec c
       else LOG ERROR))]"

definition retrieveOut :: "nat \<Rightarrow> nat \<Rightarrow> ('t, 'z) conns_scheme stmt" where
  "retrieveOut c n = withConn ''handleWrite'' c (\<lambda>k s. andThen (retrieve n (k_out k)) (\<lambda>b.
     Inr (s\<lparr>connHeap := (connHeap s)(c \<mapsto> k\<lparr>k_out := b\<rparr>)\<rparr>)))"

definition TcpConnection_handleWrite :: "nat \<Rightarrow> ('t, 'z) conns_scheme stmt" where
  "TcpConnection_handleWrite c = block [
     assertInLoopThread,
     connWriting c (\<lambda>w. if w then
       connFd c (\<lambda>fd. outBytes c (\<lambda>out. call (ISocket_write fd out) (\<lambda>n.
         if n > 0 then block [
           retrieveOut c (nat n),
           outBytes c (\<lambda>left. if left = [] then block [
             onChan (disableWriting EventLoop_updateChannel) c,
             withConn ''handleWrite'' c (\<lambda>k.
               case k_onWrite k of None \<Rightarrow> Inr | Some f \<Rightarrow> queueInLoop (f c))]
             else Inr)]
         else LOG ERROR)))
       else LOG INFO)]"

definition TcpConnection_handleError :: "nat \<Rightarrow> ('t, 'z) conns_scheme stmt" where
  "TcpConnection_handleError c = block [
     assertInLoopThread,
     connFd c (\<lambda>fd. call (ISocket_getSocketError fd) (\<lambda>_. LOG ERROR))]"

definition defaultConnectionCallback :: "bool \<Rightarrow> 'z process_scheme stmt" where
  "defaultConnectionCallback up = LOG DEBUG"

definition defaultMessageCallback :: "nat \<Rightarrow> ('t, 'z) conns_scheme stmt" where
  "defaultMessageCallback c = modConn ''defaultMessageCallback'' (\<lambda>k. k\<lparr>k_in := retrieveAll (k_in k)\<rparr>) c"

end
