(* ===== verification/ConnStream.thy ===== *)
theory ConnStream
  imports TcpConnection
begin

text \<open>
  What a connection (\<open>TcpConnection\<close>) does with the bytes it is given: the invariant of an
  established connection, and the proofs that no byte is lost, duplicated or reordered between
  \<^verbatim>\<open>send\<close> and the kernel.
\<close>

section \<open>Steps that leave the channels alone\<close>

text \<open>
  \<open>ioStep s s'\<close>: only the trace (by plain calls), the kernel's answers, the log
  and the task queue differ.
\<close>

definition ioStep :: "('t, 'z) taskq_scheme \<Rightarrow> ('t, 'z) taskq_scheme \<Rightarrow> bool" where
  "ioStep s s' \<longleftrightarrow> (\<exists>tr ix e lo ts. s' = s\<lparr>trace := trace s @ tr, envIx := ix, errno := e, logOut := lo, tasks := ts\<rparr> \<and>
     (\<forall>c \<in> set tr. plain c))"

lemma interest_append: "\<forall>c \<in> set tr. \<not> isCtl c \<Longrightarrow> interest (tr0 @ tr) = interest tr0"
proof (induction tr rule: rev_induct)
  case Nil
  then show ?case by simp
next
  case (snoc c tr)
  then have "interest ((tr0 @ tr) @ [c]) = interest (tr0 @ tr)"
    unfolding interest_snoc by (cases c) (simp_all add: interestStep_def)
  with snoc show ?case by simp
qed

lemma interest_plain: "\<forall>c \<in> set tr. plain c \<Longrightarrow> interest (tr0 @ tr) = interest tr0"
  by (rule interest_append) (simp add: plain_noCtl)

lemma ioStep_refl [simp]: "ioStep s s"
  unfolding ioStep_def
  by (rule exI[of _ "[]"], rule exI[of _ "envIx s"], rule exI[of _ "errno s"], rule exI[of _ "logOut s"],
      rule exI[of _ "tasks s"]) simp

lemma ioStep_trans:
  assumes "ioStep s t" "ioStep t u"
  shows "ioStep s u"
proof -
  obtain tr ix e lo ts where t: "t = s\<lparr>trace := trace s @ tr, envIx := ix, errno := e, logOut := lo, tasks := ts\<rparr>"
    "\<forall>c \<in> set tr. plain c" using assms(1) by (auto simp: ioStep_def)
  obtain tr' ix' e' lo' ts' where u: "u = t\<lparr>trace := trace t @ tr', envIx := ix', errno := e', logOut := lo', tasks := ts'\<rparr>"
    "\<forall>c \<in> set tr'. plain c" using assms(2) by (auto simp: ioStep_def)
  show ?thesis unfolding ioStep_def
    by (rule exI[of _ "tr @ tr'"], rule exI[of _ ix'], rule exI[of _ e'], rule exI[of _ lo'], rule exI[of _ ts'])
      (use t u in auto)
qed

lemma ioStep_logged [simp]: "ioStep s (logged l s)"
  unfolding ioStep_def logged_def
  by (rule exI[of _ "[]"], rule exI[of _ "envIx s"], rule exI, rule exI, rule exI[of _ "tasks s"]) auto

lemma ioStep_afterSys [simp]: "plain c \<Longrightarrow> ioStep s (afterSys c s)"
  unfolding ioStep_def afterSys_def
  by (rule exI[of _ "[c]"], rule exI, rule exI, rule exI[of _ "logOut s"], rule exI[of _ "tasks s"]) auto

lemma ioStep_tasks [simp]: "ioStep s (s\<lparr>tasks := ts\<rparr>)"
  unfolding ioStep_def
  by (rule exI[of _ "[]"], rule exI[of _ "envIx s"], rule exI[of _ "errno s"], rule exI[of _ "logOut s"],
      rule exI[of _ ts]) simp

lemma ioStep_afterWakeup [simp]: "ioStep s (afterWakeup s)"
  unfolding ioStep_def afterWakeup_def Let_def afterSys_def
  by (rule exI[of _ "[SysWriteFd (wakeupFd s) 8]"], rule exI, rule exI, rule exI, rule exI[of _ "tasks s"]) auto

lemma ioStep_queueInLoop:
  obtains s' where "queueInLoop t s = Inr s'" "ioStep s s'"
    "trace s' = trace s \<or> trace s' = trace s @ [SysWriteFd (wakeupFd s) 8]" "tasks s' = tasks s @ [t]"
proof (cases "\<not> isInLoopThread s \<or> workingFlag s")
  case True
  then have "queueInLoop t s = Inr (afterWakeup (s\<lparr>tasks := tasks s @ [t]\<rparr>))"
    by (simp add: queueInLoop_eq Let_def)
  then show thesis by (rule that) (auto intro: ioStep_trans[of _ "s\<lparr>tasks := tasks s @ [t]\<rparr>"])
next
  case False
  then have "queueInLoop t s = Inr (s\<lparr>tasks := tasks s @ [t]\<rparr>)" by (simp add: queueInLoop_eq Let_def)
  then show thesis by (rule that) auto
qed

lemma ioStep_frame:
  fixes s s' :: "('t, 'z) conns_scheme"
  assumes "ioStep s s'"
  shows "connHeap s' = connHeap s" "nextConn s' = nextConn s" "chans s' = chans s"
    "curTid s' = curTid s" "loopTid s' = loopTid s" "interest (trace s') = interest (trace s)"
    "env s' = env s" "g_logLevel s' = g_logLevel s" "workingFlag s' = workingFlag s"
    "wakeupFd s' = wakeupFd s" "nextChan s' = nextChan s" "sockets (trace s') = sockets (trace s)"
  using assms interest_plain sockets_same by (auto simp: ioStep_def)

section \<open>Changing a channel's mask\<close>

text \<open>
  \<open>maskStep s s'\<close>: one \<^verbatim>\<open>epoll_ctl\<close> call was made and the channels changed.
\<close>

definition maskStep :: "('t, 'z) chanheap_scheme \<Rightarrow> ('t, 'z) chanheap_scheme \<Rightarrow> bool" where
  "maskStep s s' \<longleftrightarrow> (\<exists>op fd ev p e lo h. s' = s\<lparr>trace := trace s @ [SysEpollCtl op fd ev p],
     envIx := Suc (envIx s), errno := e, logOut := lo, chans := h\<rparr>)"

lemma maskStepI: "s' = s\<lparr>trace := trace s @ [SysEpollCtl op fd ev p], envIx := Suc (envIx s), errno := e, logOut := lo, chans := h\<rparr>
    \<Longrightarrow> maskStep s s'"
  unfolding maskStep_def by blast

lemma EPollPoller_update_maskStep:
  assumes "EPollPoller_update op cid s = Inr s'"
  shows "maskStep s s' \<and> chans s' = chans s"
proof -
  obtain ch where ch: "chans s cid = Some ch"
    using assms by (auto simp: EPollPoller_update_def withChan_def split: option.splits)
  let ?c = "SysEpollCtl op (c_fd ch) (c_events ch) cid"
  have "s' = afterSys ?c s \<or> s' = logged ERROR (afterSys ?c s)"
    using assms ch by (auto simp: EPollPoller_update_def withChan_def stmt_defs sysRet_eq split: if_splits)
  moreover have "maskStep s (afterSys ?c s)" unfolding afterSys_def
    by (rule maskStepI[where lo = "logOut s" and h = "chans s"]) simp
  moreover have "maskStep s (logged ERROR (afterSys ?c s))" unfolding logged_def afterSys_def
    by (rule maskStepI[where h = "chans s"]) simp
  ultimately show ?thesis by auto
qed

lemma maskStep_chans: "maskStep s t \<Longrightarrow> maskStep s (t\<lparr>chans := h\<rparr>)"
  unfolding maskStep_def by force

lemma maskStep_chans_before: "maskStep (s\<lparr>chans := h\<rparr>) t \<Longrightarrow> maskStep s t"
  unfolding maskStep_def by force

lemma updateChannel_maskStep:
  assumes "updateChannel cid s = Inr s'"
  shows "maskStep s s'"
  using assms EPollPoller_update_maskStep[of _ cid s] maskStep_chans[of s]
  by (auto simp: updateChannel_def assertInLoopThread_def assertThat_def withChan_def setAddToPoll_def
      modChan_def andThen_Inr_iff split: if_splits option.splits)

lemma maskOp_maskStep:
  assumes "block [modChan who f cid, updateChannel cid] s = Inr s'"
  shows "maskStep s s'"
proof -
  obtain h where "updateChannel cid (s\<lparr>chans := h\<rparr>) = Inr s'"
    using assms by (auto simp: modChan_def withChan_def andThen_Inr_iff split: option.splits)
  then show ?thesis using updateChannel_maskStep maskStep_chans_before by blast
qed

lemma maskStep_frame:
  fixes s s' :: "('t, 'z) conns_scheme"
  assumes "maskStep s s'"
  shows "connHeap s' = connHeap s" "nextConn s' = nextConn s" "tasks s' = tasks s"
    "workingFlag s' = workingFlag s" "wakeupFd s' = wakeupFd s" "curTid s' = curTid s" "loopTid s' = loopTid s"
    "\<exists>op fd ev p. trace s' = trace s @ [SysEpollCtl op fd ev p]" "env s' = env s" "sockets (trace s') = sockets (trace s)"
  using assms by (auto simp: maskStep_def)

text \<open>Nothing was opened or closed, and the timers, the clock and the log level are as before.\<close>

definition tame :: "('t, 'z) timerq_scheme \<Rightarrow> ('t, 'z) timerq_scheme \<Rightarrow> bool" where
  "tame s0 s \<longleftrightarrow> (\<exists>tr. trace s = trace s0 @ tr \<and> (\<forall>c \<in> set tr. plain c \<or> isCtl c)) \<and> timers s = timers s0 \<and>
     tmHeap s = tmHeap s0 \<and> nextTimer s = nextTimer s0 \<and> canceling s = canceling s0 \<and> timerWorking s = timerWorking s0 \<and>
     clock s = clock s0 \<and> clockIx s = clockIx s0 \<and> g_logLevel s = g_logLevel s0"

lemma tame_refl [simp]: "tame s s"
  by (simp add: tame_def)

lemma tame_fields:
  assumes "tame s0 s"
  shows "timers s = timers s0" "tmHeap s = tmHeap s0" "nextTimer s = nextTimer s0" "canceling s = canceling s0"
    "timerWorking s = timerWorking s0" "clock s = clock s0" "clockIx s = clockIx s0" "g_logLevel s = g_logLevel s0"
    "sockets (trace s) = sockets (trace s0)"
  using assms sockets_same by (auto simp: tame_def)

lemma tame_eq:
  assumes "tame s0 s" "timers t = timers s" "tmHeap t = tmHeap s" "nextTimer t = nextTimer s" "canceling t = canceling s"
    "timerWorking t = timerWorking s" "clock t = clock s" "clockIx t = clockIx s" "g_logLevel t = g_logLevel s"
    "trace t = trace s @ tr" "\<forall>c \<in> set tr. plain c \<or> isCtl c"
  shows "tame s0 t"
proof -
  obtain tr0 where "trace s = trace s0 @ tr0" "\<forall>c \<in> set tr0. plain c \<or> isCtl c" using assms(1) by (auto simp: tame_def)
  then have "trace t = trace s0 @ tr0 @ tr \<and> (\<forall>c \<in> set (tr0 @ tr). plain c \<or> isCtl c)" using assms(10,11) by auto
  then show ?thesis using assms(1-9) unfolding tame_def by auto
qed

lemma tame_trans:
  assumes "tame s t" "tame t u"
  shows "tame s u"
proof -
  obtain tr where "trace u = trace t @ tr" "\<forall>c \<in> set tr. plain c \<or> isCtl c" using assms(2) by (auto simp: tame_def)
  then show ?thesis using tame_fields(1-8)[OF assms(2)] by (intro tame_eq[OF assms(1)]) simp_all
qed

lemma ioStep_tame:
  fixes s t :: "('t, 'z) timerq_scheme"
  shows "ioStep s t \<Longrightarrow> tame s t"
  by (auto simp: ioStep_def tame_def)

lemma maskStep_tame:
  fixes s t :: "('t, 'z) timerq_scheme"
  shows "maskStep s t \<Longrightarrow> tame s t"
  by (auto simp: maskStep_def tame_def)

text \<open>
  \<open>dropStep cid s s'\<close>: the channel \<open>cid\<close> is gone, with at most one \<^verbatim>\<open>epoll_ctl\<close> call made.
\<close>

definition dropStep :: "nat \<Rightarrow> ('t, 'z) chanheap_scheme \<Rightarrow> ('t, 'z) chanheap_scheme \<Rightarrow> bool" where
  "dropStep cid s s' \<longleftrightarrow> (\<exists>tr ix e lo. s' = s\<lparr>trace := trace s @ tr, envIx := ix, errno := e, logOut := lo,
     chans := (chans s)(cid := None)\<rparr> \<and> ix = envIx s + length tr \<and> length tr \<le> 1 \<and> (\<forall>c \<in> set tr. isCtl c))"

lemma removeChannel_maskStep:
  assumes "removeChannel cid s = Inr s'"
  shows "s' = s \<or> maskStep s s'"
  using assms EPollPoller_update_maskStep[of _ cid s] maskStep_chans[of s]
  by (auto simp: removeChannel_def assertInLoopThread_def assertThat_def withChan_def setAddToPoll_def
      modChan_def andThen_Inr_iff split: if_splits option.splits)

text \<open>Destroying a channel that does not own its descriptor.\<close>

lemma destroy_unowned:
  assumes "pollSynced s" "chans s cid = Some ch" "curTid s = loopTid s" "\<not> c_mgmt ch"
  obtains s' where "Channel_destroy queue closeTask cid s = Inr s'" "dropStep cid s s'" "pollSynced s'"
    "c_added ch \<Longrightarrow> interest (trace s') (c_fd ch) = None"
proof -
  have "ep.synced s" using assms(1) by (simp add: pollSynced_eq)
  then obtain t where t: "removeChannel cid s = Inr t" "ep.synced t"
    "chans t = (chans s)(cid \<mapsto> ch\<lparr>c_added := False\<rparr>)" "c_added ch \<Longrightarrow> interest (trace t) (c_fd ch) = None"
    by (rule ep.remove_synced[OF _ assms(2,3)]) (rule that; assumption)
  let ?t = "if c_added ch then t else s"
  let ?s = "?t\<lparr>chans := (chans s)(cid := None)\<rparr>"
  have ch: "chans ?t cid = Some (ch\<lparr>c_added := False\<rparr>)" using t(3) assms(2) by (cases ch) auto
  have eq: "Channel_destroy queue closeTask cid s = Inr ?s"
    using assms t(1,3) by (simp add: Channel_destroy_def withChan_def doIf_def upd_def EventLoop_removeChannel_eq)
  have drop: "dropStep cid s ?s"
  proof (cases "t = s \<or> \<not> c_added ch")
    case True
    then have "?t = s" by auto
    then show ?thesis unfolding dropStep_def
      by (intro exI[of _ "[]"] exI[of _ "envIx s"] exI[of _ "errno s"] exI[of _ "logOut s"]) simp
  next
    case False
    then have "maskStep s t" using removeChannel_maskStep[OF t(1)] by simp
    then obtain op fd ev p e lo h where
      "t = s\<lparr>trace := trace s @ [SysEpollCtl op fd ev p], envIx := Suc (envIx s), errno := e, logOut := lo, chans := h\<rparr>"
      by (auto simp: maskStep_def)
    then show ?thesis unfolding dropStep_def using False
      by (intro exI[of _ "[SysEpollCtl op fd ev p]"] exI[of _ "Suc (envIx s)"] exI[of _ e] exI[of _ lo]) simp
  qed
  have "pollSynced ?s"
    using t(2,3) assms(1) by (auto simp: pollSynced_eq[symmetric] pollSynced_def split: if_splits)
  then show thesis using that[OF eq drop] t(4) by simp
qed

section \<open>The stream of a connection\<close>

text \<open>The bytes the kernel took from the writes to a descriptor.\<close>

definition writtenOf :: "int \<Rightarrow> syscall \<Rightarrow> byte list" where
  "writtenOf fd c = (case c of
       SysWrite fd' xs n \<Rightarrow> (if fd' = fd \<and> n > 0 then take (nat n) xs else [])
     | _ \<Rightarrow> [])"

definition written :: "int \<Rightarrow> syscall list \<Rightarrow> byte list" where
  "written fd tr = concat (map (writtenOf fd) tr)"

lemma written_simps [simp]:
  "written fd [] = []" "written fd (c # tr) = writtenOf fd c @ written fd tr"
  "written fd (tr1 @ tr2) = written fd tr1 @ written fd tr2"
  by (simp_all add: written_def)

lemma writtenOf_simps [simp]:
  "writtenOf fd (SysWriteFd w n) = []" "writtenOf fd (SysEpollCtl op d ev p) = []"
  "writtenOf fd (SysWrite d xs m) = (if d = fd \<and> m > 0 then take (nat m) xs else [])"
  by (simp_all add: writtenOf_def)

text \<open>The bytes the kernel delivered through reads of a descriptor.\<close>

definition receivedOf :: "int \<Rightarrow> syscall \<Rightarrow> byte list" where
  "receivedOf fd c = (case c of
       SysReadv fd' n got \<Rightarrow> (case got of Some xs \<Rightarrow> if fd' = fd then xs else [] | None \<Rightarrow> [])
     | _ \<Rightarrow> [])"

definition received :: "int \<Rightarrow> syscall list \<Rightarrow> byte list" where
  "received fd tr = concat (map (receivedOf fd) tr)"

lemma received_simps [simp]:
  "received fd [] = []" "received fd (c # tr) = receivedOf fd c @ received fd tr"
  "received fd (tr1 @ tr2) = received fd tr1 @ received fd tr2"
  by (simp_all add: received_def)

lemma receivedOf_simps [simp]:
  "receivedOf fd (SysReadv d n None) = []" "receivedOf fd (SysReadv d n (Some xs)) = (if d = fd then xs else [])"
  by (simp_all add: receivedOf_def)

text \<open>
  An open connection: its channel is registered and wants to write exactly when bytes wait in
  the output buffer.
\<close>

definition connUp :: "nat \<Rightarrow> int \<Rightarrow> ('t, 'z) conns_scheme \<Rightarrow> bool" where
  "connUp c fd s \<longleftrightarrow> pollSynced s \<and> curTid s = loopTid s \<and>
     (\<exists>k ch. connHeap s c = Some k \<and> chans s (k_chan k) = Some ch \<and> c_fd ch = fd \<and> k_sock k = fd \<and>
        (k_status k = Connected \<or> k_status k = Disconnecting) \<and> c_added ch \<and>
        c_events ch AND kReadEvent \<noteq> 0 \<and>
        buf_wf (k_out k) \<and> buf_wf (k_in k) \<and> (isWriting ch \<longleftrightarrow> content (k_out k) \<noteq> []))"

definition pending :: "nat \<Rightarrow> ('t, 'z) conns_scheme \<Rightarrow> byte list" where
  "pending c s = (case connHeap s c of None \<Rightarrow> [] | Some k \<Rightarrow> content (k_out k))"

lemma connUpE:
  assumes "connUp c fd s"
  obtains k ch where "pollSynced s" "curTid s = loopTid s" "connHeap s c = Some k"
    "chans s (k_chan k) = Some ch" "c_fd ch = fd" "k_sock k = fd"
    "k_status k = Connected \<or> k_status k = Disconnecting" "c_added ch" "c_events ch AND kReadEvent \<noteq> 0"
    "buf_wf (k_out k)" "buf_wf (k_in k)" "isWriting ch \<longleftrightarrow> content (k_out k) \<noteq> []"
  using assms unfolding connUp_def by blast

lemma pollSynced_ioStep:
  assumes "ioStep s s'" "pollSynced s"
  shows "pollSynced s'"
  using assms interest_plain by (auto simp: ioStep_def pollSynced_def)

lemma connUp_ioStep:
  assumes "ioStep s s'" "connUp c fd s"
  shows "connUp c fd s'" "pending c s' = pending c s"
  using assms(2) ioStep_frame[OF assms(1)] pollSynced_ioStep[OF assms(1)]
  by (simp_all add: connUp_def pending_def)

lemma tryWrite_ok:
  assumes "connUp c fd s"
  obtains n s' where "tryWrite c xs s = Inr ((n, length xs - n), s')" "n \<le> length xs" "ioStep s s'"
    "written fd (trace s') = written fd (trace s) @ take n xs" "pending c s \<noteq> [] \<Longrightarrow> n = 0"
proof -
  obtain k ch where up: "connHeap s c = Some k" "chans s (k_chan k) = Some ch" "c_fd ch = fd"
    "buf_wf (k_out k)" "isWriting ch \<longleftrightarrow> content (k_out k) \<noteq> []"
    by (rule connUpE[OF assms])
  note defs = tryWrite_def connWriting_def withConn_def withChan_def outBytes_def buf_simps take_peek
    connFd_def ISocket_write_eq stmt_defs
  show thesis
  proof (cases "content (k_out k) = []")
    case False
    then have "tryWrite c xs s = Inr ((0, length xs), s)" using up by (simp add: defs)
    then show thesis using False up by (intro that[of 0 s]) (simp_all add: pending_def)
  next
    case True
    let ?r = "writeResult (length xs) (nextAns s)"
    let ?s1 = "afterSys (SysWrite fd xs ?r) s"
    have io: "ioStep s ?s1" by simp
    have r: "- 1 \<le> ?r" "?r \<le> int (length xs)" by (rule writeResult_bounds)+
    show thesis
    proof (cases "?r \<ge> 0")
      case ok: True
      then have wr: "written fd (trace ?s1) = written fd (trace s) @ take (nat ?r) xs" by auto
      let ?cb = "doIf (\<lambda>_. length xs - nat ?r = 0) (withConn ''sendInLoop'' c (\<lambda>k.
          case k_onWrite k of None \<Rightarrow> Inr | Some f \<Rightarrow> queueInLoop (f c)))"
      have eq: "tryWrite c xs s = andThen (?cb ?s1) (\<lambda>s. Inr ((nat ?r, length xs - nat ?r), s))"
        using True up ok by (simp add: defs retF_def[abs_def])
      obtain s2 where s2: "?cb ?s1 = Inr s2" "ioStep ?s1 s2" "written fd (trace s2) = written fd (trace ?s1)"
      proof (cases "length xs - nat ?r = 0 \<and> k_onWrite k \<noteq> None")
        case True
        then obtain f where f: "k_onWrite k = Some f" by auto
        obtain s2 where "queueInLoop (f c) ?s1 = Inr s2" "ioStep ?s1 s2"
          "trace s2 = trace ?s1 \<or> trace s2 = trace ?s1 @ [SysWriteFd (wakeupFd ?s1) 8]"
          by (rule ioStep_queueInLoop)
        then show thesis using True f up by (intro that[of s2]) (auto simp: doIf_def withConn_def)
      next
        case False
        then show thesis using up by (intro that[of ?s1]) (auto simp: doIf_def withConn_def)
      qed
      show thesis
        by (rule that[of "nat ?r" s2]) (use eq s2 wr r ok ioStep_trans[OF io s2(2)] True up in
          \<open>simp_all add: pending_def nat_le_iff\<close>)
    next
      case bad: False
      let ?s2 = "if errno ?s1 \<noteq> EWOULDBLOCK then logged ERROR ?s1 else ?s1"
      have "tryWrite c xs s = Inr ((0, length xs), ?s2)"
        using True up bad by (simp add: defs)
      moreover have "ioStep s ?s2" using ioStep_trans[OF io, of "logged ERROR ?s1"] io by simp
      ultimately show thesis using bad True up
        by (intro that[of 0 ?s2]) (simp_all add: pending_def)
    qed
  qed
qed

text \<open>Changing the output buffer, and the mask with it.\<close>

lemma enableWriting_up:
  assumes "pollSynced s" "curTid s = loopTid s" "chans s cid = Some ch" "c_added ch"
  obtains s' where "enableWriting EventLoop_updateChannel cid s = Inr s'" "pollSynced s'" "maskStep s s'"
    "chans s' = (chans s)(cid \<mapsto> ch\<lparr>c_events := c_events ch OR kWriteEvent, c_added := True\<rparr>)"
proof -
  have sy: "ep.synced s" using assms(1) by (simp add: pollSynced_eq)
  obtain s' where s': "enableWriting updateChannel cid s = Inr s'" "ep.synced s'"
    "chans s' = (chans s)(cid \<mapsto> ch\<lparr>c_events := c_events ch OR kWriteEvent, c_added := True\<rparr>)"
    by (rule ep.enableWriting_ok[OF sy assms(3,2) ep.synced_soleOwner[OF sy assms(3,4)]])
  show thesis
  proof (rule that)
    show "enableWriting EventLoop_updateChannel cid s = Inr s'" using s'(1) by (simp add: EventLoop_updateChannel_eq)
    show "maskStep s s'" using s'(1) unfolding enableWriting_def by (rule maskOp_maskStep)
  qed (use s' in \<open>simp_all add: pollSynced_eq\<close>)
qed

lemma disableWriting_up:
  assumes "pollSynced s" "curTid s = loopTid s" "chans s cid = Some ch" "c_added ch"
  obtains s' where "disableWriting EventLoop_updateChannel cid s = Inr s'" "pollSynced s'" "maskStep s s'"
    "chans s' = (chans s)(cid \<mapsto> ch\<lparr>c_events := c_events ch AND NOT kWriteEvent,
       c_added := c_events ch AND NOT kWriteEvent \<noteq> 0\<rparr>)"
proof -
  have sy: "ep.synced s" using assms(1) by (simp add: pollSynced_eq)
  obtain s' where s': "disableWriting updateChannel cid s = Inr s'" "ep.synced s'"
    "chans s' = (chans s)(cid \<mapsto> ch\<lparr>c_events := c_events ch AND NOT kWriteEvent,
       c_added := c_events ch AND NOT kWriteEvent \<noteq> 0\<rparr>)"
    by (rule ep.disableWriting_ok[OF sy assms(3,2,4)])
  show thesis
  proof (rule that)
    show "disableWriting EventLoop_updateChannel cid s = Inr s'" using s'(1) by (simp add: EventLoop_updateChannel_eq)
    show "maskStep s s'" using s'(1) unfolding disableWriting_def by (rule maskOp_maskStep)
  qed (use s' in \<open>simp_all add: pollSynced_eq\<close>)
qed

lemma mask_facts:
  "isWriting (ch\<lparr>c_events := e OR kWriteEvent, c_added := a\<rparr>)"
  "\<not> isWriting (ch\<lparr>c_events := e AND NOT kWriteEvent, c_added := a\<rparr>)"
  "(e AND NOT kWriteEvent) AND kReadEvent = e AND kReadEvent"
  "(e OR kWriteEvent) AND kReadEvent = e AND kReadEvent"
proof -
  have w: "bit kWriteEvent n \<longleftrightarrow> n = 2" "bit kReadEvent n \<longleftrightarrow> n = 0 \<or> n = 1" for n
    by (auto simp: mask_defs bit_simps bit_0 bit_Suc numeral_eq_Suc less_Suc_eq)
  have "bit (e OR kWriteEvent AND kWriteEvent) 2" "bit ((e OR kWriteEvent) AND kWriteEvent) 2"
    by (simp_all add: bit_simps w)
  then show "isWriting (ch\<lparr>c_events := e OR kWriteEvent, c_added := a\<rparr>)"
    by (auto simp: isWriting_def)
  have "(e AND NOT kWriteEvent) AND kWriteEvent = 0"
    by (rule bit_word_eqI) (auto simp: bit_simps)
  then show "\<not> isWriting (ch\<lparr>c_events := e AND NOT kWriteEvent, c_added := a\<rparr>)"
    by (simp add: isWriting_def)
  show "(e AND NOT kWriteEvent) AND kReadEvent = e AND kReadEvent"
    "(e OR kWriteEvent) AND kReadEvent = e AND kReadEvent"
    by (rule bit_word_eqI; auto simp: bit_simps w)+
qed

lemma connUp_outBuffer:
  assumes up: "connUp c fd s" and k: "connHeap s c = Some k" and ch: "chans s (k_chan k) = Some ch"
    and b: "buf_wf b" and s': "pollSynced s'" "curTid s' = loopTid s'"
    "connHeap s' = (connHeap s)(c \<mapsto> k\<lparr>k_out := b\<rparr>)"
    "chans s' (k_chan k) = Some ch'" "c_fd ch' = c_fd ch" "c_added ch'" "c_events ch' AND kReadEvent \<noteq> 0"
    "isWriting ch' \<longleftrightarrow> content b \<noteq> []"
  shows "connUp c fd s'" "pending c s' = content b"
  using assms by (auto simp: connUp_def pending_def)

lemma sendInLoop_ok:
  assumes up: "connUp c fd s"
  obtains s' where "sendInLoop c xs s = Inr s'" "connUp c fd s'"
    "written fd (trace s') @ pending c s' = written fd (trace s) @ pending c s @ xs"
proof -
  obtain n s1 where t: "tryWrite c xs s = Inr ((n, length xs - n), s1)" "n \<le> length xs" "ioStep s s1"
    "written fd (trace s1) = written fd (trace s) @ take n xs" "pending c s \<noteq> [] \<Longrightarrow> n = 0"
    by (rule tryWrite_ok[OF up, of xs]) (rule that; assumption)
  note up1 = connUp_ioStep[OF t(3) up]
  obtain k ch where k: "pollSynced s1" "curTid s1 = loopTid s1" "connHeap s1 c = Some k"
    "chans s1 (k_chan k) = Some ch" "c_fd ch = fd" "k_status k = Connected \<or> k_status k = Disconnecting"
    "c_added ch" "c_events ch AND kReadEvent \<noteq> 0" "buf_wf (k_out k)"
    "isWriting ch \<longleftrightarrow> content (k_out k) \<noteq> []"
    by (rule connUpE[OF up1(1)])
  have k0: "connHeap s c = Some k" "curTid s = loopTid s" "pending c s = content (k_out k)"
    using k(3) ioStep_frame[OF t(3)] k(2) up1(2) by (simp_all add: pending_def)
  let ?ys = "drop n xs"
  let ?rest = "block [appendOut c (take (length xs - n) ?ys), connWriting c (\<lambda>w.
     if \<not> w then onChan (enableWriting EventLoop_updateChannel) c else Inr)]"
  have eq: "sendInLoop c xs s = doIf (\<lambda>_. length xs - n > 0) ?rest s1"
    using k0 k(6) t(1) by (auto simp: sendInLoop_def assertInLoopThread_def assertThat_def withConn_def callE_def)
  show thesis
  proof (cases "length xs - n > 0")
    case False
    then have "n = length xs" using t(2) by simp
    then show thesis using that[of s1] up1 t(4,5) eq False
      by (cases "pending c s = []") (auto simp: doIf_def)
  next
    case True
    obtain b where b: "append_bytes ?ys (k_out k) = Inr b" "buf_wf b" "content b = content (k_out k) @ ?ys"
      using bq.put_ok[OF k(9)] by blast
    let ?s2 = "s1\<lparr>connHeap := (connHeap s1)(c \<mapsto> k\<lparr>k_out := b\<rparr>)\<rparr>"
    have ap: "appendOut c (take (length xs - n) ?ys) s1 = Inr ?s2"
      using k(3) b(1) by (simp add: appendOut_def withConn_def)
    have ne: "content b \<noteq> []" using b(3) True by simp
    have sy2: "pollSynced ?s2" using k(1) by (simp add: pollSynced_def)
    have tid2: "curTid ?s2 = loopTid ?s2" using k(2) by simp
    have ch2: "chans ?s2 (k_chan k) = Some ch" using k(4) by simp
    have str: "(written fd (trace s) @ take n xs) @ content b = written fd (trace s) @ pending c s @ xs"
      using b(3) t(5) k0(3) by (cases "content (k_out k) = []") auto
    show thesis
    proof (cases "isWriting ch")
      case w: True
      have "sendInLoop c xs s = Inr ?s2"
        using eq True ap ch2 w by (simp add: doIf_def connWriting_def withConn_def withChan_def)
      moreover have "connUp c fd ?s2" "pending c ?s2 = content b"
        by (rule connUp_outBuffer[OF up1(1) k(3,4) b(2) sy2 tid2 _ ch2]; use k ne w in simp)+
      ultimately show thesis using that[of ?s2] str t(4) by simp
    next
      case w: False
      let ?ch = "ch\<lparr>c_events := c_events ch OR kWriteEvent, c_added := True\<rparr>"
      obtain s3 where s3: "enableWriting EventLoop_updateChannel (k_chan k) ?s2 = Inr s3" "pollSynced s3"
        "maskStep ?s2 s3" "chans s3 = (chans ?s2)(k_chan k \<mapsto> ?ch)"
        by (rule enableWriting_up[OF sy2 tid2 ch2 k(7)])
      note fr = maskStep_frame[OF s3(3)]
      have ch3: "chans s3 (k_chan k) = Some ?ch" using s3(4) by simp
      have "sendInLoop c xs s = Inr s3"
        using eq True ap ch2 w s3(1) by (simp add: doIf_def connWriting_def withConn_def withChan_def onChan_def)
      moreover have "connUp c fd s3" "pending c s3 = content b"
        by (rule connUp_outBuffer[OF up1(1) k(3,4) b(2) s3(2) _ _ ch3]; use k ne fr in \<open>simp add: mask_facts\<close>)+
      moreover have "written fd (trace s3) = written fd (trace s1)" using fr(8) by auto
      ultimately show thesis using that[of s3] str t(4) by simp
    qed
  qed
qed

lemma outBytes_eq:
  "connHeap s c = Some k \<Longrightarrow> buf_wf (k_out k) \<Longrightarrow> outBytes c f s = f (content (k_out k)) s"
  by (simp add: outBytes_def withConn_def buf_simps take_peek)

lemma handleWrite_idle:
  assumes "connUp c fd s" "pending c s = []"
  shows "TcpConnection_handleWrite c s = Inr (logged INFO s)"
proof -
  obtain k ch where "curTid s = loopTid s" "connHeap s c = Some k" "chans s (k_chan k) = Some ch"
    "isWriting ch \<longleftrightarrow> content (k_out k) \<noteq> []"
    by (rule connUpE[OF assms(1)])
  then show ?thesis using assms(2)
    by (simp add: TcpConnection_handleWrite_def assertInLoopThread_def assertThat_def connWriting_def
        withConn_def withChan_def pending_def)
qed

lemma handleWrite_ok:
  assumes up: "connUp c fd s"
  obtains s' where "TcpConnection_handleWrite c s = Inr s'" "connUp c fd s'"
    "written fd (trace s') @ pending c s' = written fd (trace s) @ pending c s"
    "\<exists>tr. trace s' = trace s @ tr \<and> (\<forall>d. SysShutdownWr d \<notin> set tr)"
    "pending c s' = drop (nat (writeResult (length (pending c s)) (nextAns s))) (pending c s)" "env s' = env s"
proof (cases "pending c s = []")
  case True
  then show thesis using that[OF handleWrite_idle[OF up True]] connUp_ioStep[OF ioStep_logged up, of INFO]
    by simp
next
  case False
  obtain k ch where k: "pollSynced s" "curTid s = loopTid s" "connHeap s c = Some k"
    "chans s (k_chan k) = Some ch" "c_fd ch = fd" "c_added ch" "c_events ch AND kReadEvent \<noteq> 0"
    "buf_wf (k_out k)" "isWriting ch \<longleftrightarrow> content (k_out k) \<noteq> []"
    by (rule connUpE[OF up])
  let ?out = "content (k_out k)"
  have p: "pending c s = ?out" using k(3) by (simp add: pending_def)
  let ?n = "writeResult (length ?out) (nextAns s)"
  let ?s1 = "afterSys (SysWrite fd ?out ?n) s"
  let ?done = "block [retrieveOut c (nat ?n), outBytes c (\<lambda>left. if left = [] then block [
      onChan (disableWriting EventLoop_updateChannel) c,
      withConn ''handleWrite'' c (\<lambda>k. case k_onWrite k of None \<Rightarrow> Inr | Some f \<Rightarrow> queueInLoop (f c))]
    else Inr)]"
  have eq: "TcpConnection_handleWrite c s = (if ?n > 0 then ?done else LOG ERROR) ?s1"
    using k False p by (simp add: TcpConnection_handleWrite_def assertInLoopThread_def assertThat_def
        connWriting_def withConn_def withChan_def connFd_def outBytes_eq call_def ISocket_write_eq)
  have io: "ioStep s ?s1" by simp
  show thesis
  proof (cases "?n > 0")
    case False
    then have "TcpConnection_handleWrite c s = Inr (logged ERROR ?s1)" using eq by simp
    moreover have io2: "ioStep s (logged ERROR ?s1)" by (rule ioStep_trans[OF io]) simp
    moreover have "written fd (trace (logged ERROR ?s1)) = written fd (trace s)" using False by simp
    ultimately show thesis using that connUp_ioStep[OF io2 up] False p by simp
  next
    case True
    have le: "nat ?n \<le> length ?out" using writeResult_bounds(2)[of "length ?out" "nextAns s"] by simp
    obtain b where b: "retrieve (nat ?n) (k_out k) = Inr b" "buf_wf b" "content b = drop (nat ?n) ?out"
      using bq.get_ok[OF k(8) le] by blast
    let ?s2 = "?s1\<lparr>connHeap := (connHeap s)(c \<mapsto> k\<lparr>k_out := b\<rparr>)\<rparr>"
    have re: "retrieveOut c (nat ?n) ?s1 = Inr ?s2"
      using k(3) b(1) by (simp add: retrieveOut_def withConn_def)
    have sy2: "pollSynced ?s2" using pollSynced_ioStep[OF io k(1)] by (simp add: pollSynced_def)
    have tid2: "curTid ?s2 = loopTid ?s2" using k(2) by simp
    have ch2: "chans ?s2 (k_chan k) = Some ch" using k(4) by simp
    have wr: "written fd (trace ?s2) @ content b = written fd (trace s) @ pending c s"
      using True b(3) p by simp
    show thesis
    proof (cases "content b = []")
      case more: False
      have "TcpConnection_handleWrite c s = Inr ?s2"
        using eq True re b more by (simp add: outBytes_eq)
      moreover have "connUp c fd ?s2" "pending c ?s2 = content b"
        by (rule connUp_outBuffer[OF up k(3,4) b(2) sy2 tid2 _ ch2]; use k more p \<open>pending c s \<noteq> []\<close> in simp)+
      ultimately show thesis using that[of ?s2] wr b(3) p by simp
    next
      case drained: True
      let ?ch = "ch\<lparr>c_events := c_events ch AND NOT kWriteEvent, c_added := c_events ch AND NOT kWriteEvent \<noteq> 0\<rparr>"
      obtain s3 where s3: "disableWriting EventLoop_updateChannel (k_chan k) ?s2 = Inr s3" "pollSynced s3"
        "maskStep ?s2 s3" "chans s3 = (chans ?s2)(k_chan k \<mapsto> ?ch)"
        by (rule disableWriting_up[OF sy2 tid2 ch2 k(6)])
      note fr = maskStep_frame[OF s3(3)]
      have ch3: "chans s3 (k_chan k) = Some ?ch" using s3(4) by simp
      have ev: "c_events ch AND NOT kWriteEvent \<noteq> 0"
        using k(7) mask_facts(3)[of "c_events ch"] by auto
      have up3: "connUp c fd s3" "pending c s3 = content b"
        by (rule connUp_outBuffer[OF up k(3,4) b(2) s3(2) _ _ ch3]; use k fr drained ev in \<open>simp add: mask_facts\<close>)+
      have wr3: "written fd (trace s3) = written fd (trace ?s2)" using fr(8) by auto
      let ?cb = "withConn ''handleWrite'' c (\<lambda>k. case k_onWrite k of None \<Rightarrow> Inr | Some f \<Rightarrow> queueInLoop (f c))"
      have eq3: "TcpConnection_handleWrite c s = ?cb s3"
        using eq True re b drained s3(1) by (simp add: outBytes_eq withConn_def onChan_def)
      show thesis
      proof (cases "k_onWrite k")
        case None
        then have "TcpConnection_handleWrite c s = Inr s3" using eq3 fr(1) by (simp add: withConn_def)
        moreover have "\<exists>tr. trace s3 = trace s @ tr \<and> (\<forall>d. SysShutdownWr d \<notin> set tr)" using fr(8) by auto
        ultimately show thesis using that[of s3] up3 wr wr3 b(3) p fr(9) by simp
      next
        case (Some f)
        obtain s4 where s4: "queueInLoop (f c) s3 = Inr s4" "ioStep s3 s4"
          "trace s4 = trace s3 \<or> trace s4 = trace s3 @ [SysWriteFd (wakeupFd s3) 8]"
          by (rule ioStep_queueInLoop)
        have "TcpConnection_handleWrite c s = Inr s4" using eq3 fr(1) s4(1) Some by (simp add: withConn_def)
        moreover have "written fd (trace s4) = written fd (trace s3)" using s4(3) by auto
        moreover have "\<exists>tr. trace s4 = trace s @ tr \<and> (\<forall>d. SysShutdownWr d \<notin> set tr)" using s4(3) fr(8) by auto
        ultimately show thesis using that[of s4] connUp_ioStep[OF s4(2) up3(1)] up3(2) wr wr3 b(3) p fr(9) ioStep_frame(7)[OF s4(2)]
          by simp
      qed
    qed
  qed
qed

section \<open>Reading and closing\<close>

lemma disableAll_up:
  assumes "pollSynced s" "curTid s = loopTid s" "chans s cid = Some ch" "c_added ch"
  obtains s' where "disableAll EventLoop_updateChannel cid s = Inr s'" "pollSynced s'" "maskStep s s'"
    "chans s' = (chans s)(cid \<mapsto> ch\<lparr>c_events := 0, c_added := False\<rparr>)"
    "interest (trace s') (c_fd ch) = None"
proof -
  have sy: "ep.synced s" using assms(1) by (simp add: pollSynced_eq)
  obtain s' where s': "disableAll updateChannel cid s = Inr s'" "ep.synced s'"
    "chans s' = (chans s)(cid \<mapsto> ch\<lparr>c_events := 0, c_added := False\<rparr>)"
    "interest (trace s') (c_fd ch) = None"
    by (rule ep.disableAll_ok[OF sy assms(3,2,4)])
  show thesis
  proof (rule that)
    show "disableAll EventLoop_updateChannel cid s = Inr s'" using s'(1) by (simp add: EventLoop_updateChannel_eq)
    show "maskStep s s'" using s'(1) unfolding disableAll_def by (rule maskOp_maskStep)
  qed (use s' in \<open>simp_all add: pollSynced_eq\<close>)
qed

lemma handleClose_ok:
  assumes up: "connUp c fd s" and k: "connHeap s c = Some k" and cb: "k_onConn k = Some f"
  obtains s1 where "handleClose exec c s = andThen (exec (f c False) s1) (withConn ''handleClose'' c (\<lambda>k.
       case k_onClose k of None \<Rightarrow> (\<lambda>_. Inl (BadFunctionCall ''_onCloseCb'')) | Some g \<Rightarrow> exec (g c)))"
    "connHeap s1 = (connHeap s)(c \<mapsto> k\<lparr>k_status := Disconnected\<rparr>)" "pollSynced s1"
    "\<exists>ch. chans s1 (k_chan k) = Some ch \<and> \<not> c_added ch" "interest (trace s1) fd = None"
    "written fd (trace s1) = written fd (trace s)" "curTid s1 = loopTid s1"
    "maskStep (s\<lparr>connHeap := (connHeap s)(c \<mapsto> k\<lparr>k_status := Disconnected\<rparr>)\<rparr>) s1"
    "\<exists>ch. chans s (k_chan k) = Some ch \<and> chans s1 = (chans s)(k_chan k \<mapsto> ch\<lparr>c_events := 0, c_added := False\<rparr>)"
proof -
  obtain k' ch where k': "pollSynced s" "curTid s = loopTid s" "connHeap s c = Some k'"
    "chans s (k_chan k') = Some ch" "c_fd ch = fd" "k_status k' = Connected \<or> k_status k' = Disconnecting"
    "c_added ch"
    by (rule connUpE[OF up])
  have kk: "k' = k" using k k'(3) by simp
  let ?s1 = "s\<lparr>connHeap := (connHeap s)(c \<mapsto> k\<lparr>k_status := Disconnected\<rparr>)\<rparr>"
  have "pollSynced ?s1" "curTid ?s1 = loopTid ?s1" "chans ?s1 (k_chan k) = Some ch"
    using k' kk by (simp_all add: pollSynced_def)
  then obtain s2 where s2: "disableAll EventLoop_updateChannel (k_chan k) ?s1 = Inr s2" "pollSynced s2"
    "maskStep ?s1 s2" "chans s2 = (chans ?s1)(k_chan k \<mapsto> ch\<lparr>c_events := 0, c_added := False\<rparr>)"
    "interest (trace s2) (c_fd ch) = None"
    by (rule disableAll_up) (rule k'(7))
  note fr = maskStep_frame[OF s2(3)]
  show thesis
  proof (rule that[of s2])
    show "handleClose exec c s = andThen (exec (f c False) s2) (withConn ''handleClose'' c (\<lambda>k.
       case k_onClose k of None \<Rightarrow> (\<lambda>_. Inl (BadFunctionCall ''_onCloseCb'')) | Some g \<Rightarrow> exec (g c)))"
      using k k' kk s2(1) fr(1) cb
      by (auto simp: handleClose_def assertInLoopThread_def assertThat_def withConn_def setNetStatus_def
          modConn_def onChan_def)
    show "connHeap s2 = (connHeap s)(c \<mapsto> k\<lparr>k_status := Disconnected\<rparr>)" using fr(1) by simp
    show "\<exists>ch. chans s2 (k_chan k) = Some ch \<and> \<not> c_added ch" using s2(4) by simp
    show "written fd (trace s2) = written fd (trace s)" using fr(8) by auto
    show "curTid s2 = loopTid s2" using fr k' by simp
    show "\<exists>ch. chans s (k_chan k) = Some ch \<and> chans s2 = (chans s)(k_chan k \<mapsto> ch\<lparr>c_events := 0, c_added := False\<rparr>)"
      using s2(4) k' kk by simp
  qed (use s2 k'(5) in simp_all)
qed

lemma kernelStep_fields:
  fixes s s' :: "('t, 'z) conns_scheme"
  assumes "kernelStep s s'"
  shows "connHeap s' = connHeap s" "chans s' = chans s" "curTid s' = curTid s" "loopTid s' = loopTid s"
    "tasks s' = tasks s" "evSize s' = evSize s" "workingFlag s' = workingFlag s"
proof -
  obtain tr ix e lo where "s' = s\<lparr>trace := tr, envIx := ix, errno := e, logOut := lo\<rparr>"
    using assms unfolding kernelStep_def by blast
  then show "connHeap s' = connHeap s" "chans s' = chans s" "curTid s' = curTid s" "loopTid s' = loopTid s"
    "tasks s' = tasks s" "evSize s' = evSize s" "workingFlag s' = workingFlag s" by simp_all
qed

lemmas plainStep_fields = kernelStep_fields[OF plainStep_kernel]

section \<open>Opening\<close>

lemma ioStep_chans: "ioStep s t \<Longrightarrow> ioStep (s\<lparr>chans := h\<rparr>) (t\<lparr>chans := h\<rparr>)"
proof -
  assume "ioStep s t"
  then obtain tr ix e lo ts where t: "t = s\<lparr>trace := trace s @ tr, envIx := ix, errno := e, logOut := lo, tasks := ts\<rparr>"
    and tr: "\<forall>c \<in> set tr. plain c" unfolding ioStep_def by blast
  have "t\<lparr>chans := h\<rparr> = (s\<lparr>chans := h\<rparr>)\<lparr>trace := trace (s\<lparr>chans := h\<rparr>) @ tr, envIx := ix, errno := e, logOut := lo,
      tasks := ts\<rparr>" unfolding t by simp
  with tr show ?thesis unfolding ioStep_def by blast
qed

lemma ioStep_setOption:
  obtains s' where "setOption fd opt enable s = Inr s'" "ioStep s s'" "tasks s' = tasks s"
proof (cases "a_ret (nextAns s) < 0")
  case True
  let ?t = "logged ERROR (afterSys (SysSetsockopt fd opt (if enable then 1 else 0)) s)"
  have "ioStep s ?t" by (rule ioStep_trans[OF ioStep_afterSys ioStep_logged]) simp
  with True show thesis using that[of ?t] by (simp add: setOption_def stmt_defs sysRet_eq)
next
  case False
  then show thesis using that[of "afterSys (SysSetsockopt fd opt (if enable then 1 else 0)) s"]
    by (simp add: setOption_def stmt_defs sysRet_eq)
qed

text \<open>The two names of a socket.\<close>

lemma getLocalAddr_ok:
  obtains l s' where "getLocalAddr fd s = Inr (l, s')" "ioStep s s'" "tasks s' = tasks s"
proof (cases "a_ret (nextAns s) < 0")
  case True
  let ?t = "logged ERROR (afterSys (SysGetsockname fd) s)"
  have "ioStep s ?t" by (rule ioStep_trans[OF ioStep_afterSys ioStep_logged]) simp
  with True show thesis using that[of "replicate 28 0" ?t] by (simp add: getLocalAddr_def stmt_defs sys_eq)
next
  case False
  then show thesis using that[of "filledAddr (nextAns s)" "afterSys (SysGetsockname fd) s"]
    by (simp add: getLocalAddr_def stmt_defs sys_eq)
qed

lemma getPeerAddr_ok:
  obtains l s' where "getPeerAddr fd s = Inr (l, s')" "ioStep s s'" "tasks s' = tasks s"
proof (cases "a_ret (nextAns s) < 0")
  case True
  let ?t = "logged ERROR (afterSys (SysGetpeername fd) s)"
  have "ioStep s ?t" by (rule ioStep_trans[OF ioStep_afterSys ioStep_logged]) simp
  with True show thesis using that[of "replicate 28 0" ?t] by (simp add: getPeerAddr_def stmt_defs sys_eq)
next
  case False
  then show thesis using that[of "filledAddr (nextAns s)" "afterSys (SysGetpeername fd) s"]
    by (simp add: getPeerAddr_def stmt_defs sys_eq)
qed

definition newConn :: "int \<Rightarrow> nat \<Rightarrow> endpoint \<Rightarrow> endpoint \<Rightarrow> 't conn" where
  "newConn fd cid local peer = \<lparr>k_status = Connecting, k_sock = fd, k_chan = cid, k_onMsg = None, k_onConn = None,
     k_onWrite = None, k_onClose = None, k_out = mkBuffer kInitSize, k_in = mkBuffer kInitSize,
     k_local = local, k_peer = peer\<rparr>"

lemma TcpConnection_ctor_ok:
  obtains s' ch where "TcpConnection_ctor K fd local peer s = Inr (nextConn s, s')"
    "ioStep (s\<lparr>nextChan := Suc (nextChan s), nextConn := Suc (nextConn s),
       connHeap := (connHeap s)(nextConn s \<mapsto> newConn fd (nextChan s) local peer),
       chans := (chans s)(nextChan s \<mapsto> ch)\<rparr>) s'"
    "c_fd ch = fd" "\<not> c_added ch" "c_events ch = 0" "c_mgmt ch"
    "c_onRead ch = Some (ct_read K (nextConn s))" "c_onWrite ch = Some (ct_write K (nextConn s))"
    "c_onClose ch = Some (ct_close K (nextConn s))" "c_onError ch = Some (ct_error K (nextConn s))"
    "tasks s' = tasks s"
proof -
  let ?cid = "nextChan s" and ?c = "nextConn s"
  let ?s1 = "s\<lparr>chans := (chans s)(?cid \<mapsto> mkChannel fd True), nextChan := Suc ?cid, nextConn := Suc ?c,
     connHeap := (connHeap s)(?c \<mapsto> newConn fd ?cid local peer)\<rparr>"
  let ?ch = "(mkChannel fd True)\<lparr>c_onRead := Some (ct_read K ?c), c_onWrite := Some (ct_write K ?c),
     c_onClose := Some (ct_close K ?c), c_onError := Some (ct_error K ?c)\<rparr>"
  obtain s2 where s2: "setTcpNoDelay fd True ?s1 = Inr s2" "ioStep ?s1 s2" "tasks s2 = tasks ?s1"
    unfolding setTcpNoDelay_def by (rule ioStep_setOption)
  have ch2: "chans s2 = chans ?s1" using ioStep_frame[OF s2(2)] by simp
  let ?h = "(chans s)(?cid \<mapsto> ?ch)"
  let ?s3 = "s2\<lparr>chans := ?h\<rparr>"
  have ctor: "TcpConnection_ctor K fd local peer s = Inr (?c, logged DEBUG ?s3)"
    using s2(1) ch2 by (simp add: TcpConnection_ctor_def newChannel_def newConn_def[symmetric] stmt_defs
        setReadableCallback_def setWritableCallback_def setCloseCallback_def setErrorCallback_def modChan_def
        withChan_def)
  have "ioStep (?s1\<lparr>chans := ?h\<rparr>) ?s3" using s2(2) by (rule ioStep_chans)
  moreover have "?s1\<lparr>chans := ?h\<rparr> = s\<lparr>nextChan := Suc ?cid, nextConn := Suc ?c,
      connHeap := (connHeap s)(?c \<mapsto> newConn fd ?cid local peer), chans := ?h\<rparr>" by simp
  ultimately have "ioStep (s\<lparr>nextChan := Suc ?cid, nextConn := Suc ?c,
      connHeap := (connHeap s)(?c \<mapsto> newConn fd ?cid local peer), chans := ?h\<rparr>) ?s3" by (rule subst[rotated])
  then have "ioStep (s\<lparr>nextChan := Suc ?cid, nextConn := Suc ?c,
      connHeap := (connHeap s)(?c \<mapsto> newConn fd ?cid local peer), chans := ?h\<rparr>) (logged DEBUG ?s3)"
    by (rule ioStep_trans[OF _ ioStep_logged])
  then show thesis by (rule that[OF ctor]) (use s2(3) in \<open>simp_all add: mkChannel_def\<close>)
qed

lemma enableReading_up:
  assumes "pollSynced s" "curTid s = loopTid s" "chans s cid = Some ch"
    "\<And>cid' ch'. cid' \<noteq> cid \<Longrightarrow> chans s cid' = Some ch' \<Longrightarrow> c_added ch' \<Longrightarrow> c_fd ch' \<noteq> c_fd ch"
  obtains s' where "enableReading EventLoop_updateChannel cid s = Inr s'" "pollSynced s'" "maskStep s s'"
    "chans s' = (chans s)(cid \<mapsto> ch\<lparr>c_events := c_events ch OR kReadEvent, c_added := True\<rparr>)"
    "interest (trace s') (c_fd ch) = Some (c_events ch OR kReadEvent, cid)"
proof -
  have sy: "ep.synced s" using assms(1) by (simp add: pollSynced_eq)
  have so: "ep.soleOwner cid s" using assms(3,4) by (auto simp: ep.soleOwner_def)
  obtain s' where s': "enableReading updateChannel cid s = Inr s'" "ep.synced s'"
    "chans s' = (chans s)(cid \<mapsto> ch\<lparr>c_events := c_events ch OR kReadEvent, c_added := True\<rparr>)"
    "interest (trace s') (c_fd ch) = Some (c_events ch OR kReadEvent, cid)"
    by (rule ep.enableReading_ok[OF sy assms(3,2) so])
  show thesis
  proof (rule that)
    show "enableReading EventLoop_updateChannel cid s = Inr s'" using s'(1) by (simp add: EventLoop_updateChannel_eq)
    show "maskStep s s'" using s'(1) unfolding enableReading_def by (rule maskOp_maskStep)
  qed (use s' in \<open>simp_all add: pollSynced_eq\<close>)
qed

text \<open>Establishing a fresh connection opens it and hands it to its connection callback.\<close>

lemma connectionEstablished_ok:
  assumes s: "pollSynced s" "curTid s = loopTid s" "connHeap s c = Some k" "chans s (k_chan k) = Some ch"
    and fresh: "k_status k = Connecting" "k_onConn k = Some f" "content (k_out k) = []" "buf_wf (k_out k)"
      "buf_wf (k_in k)" "c_fd ch = k_sock k" "c_events ch = 0"
    and sole: "\<And>cid' ch'. cid' \<noteq> k_chan k \<Longrightarrow> chans s cid' = Some ch' \<Longrightarrow> c_added ch' \<Longrightarrow> c_fd ch' \<noteq> c_fd ch"
  obtains s1 where "connectionEstablished exec c s = exec (f c True) s1" "connUp c (k_sock k) s1"
    "maskStep (s\<lparr>connHeap := (connHeap s)(c \<mapsto> k\<lparr>k_status := Connected\<rparr>)\<rparr>) s1"
    "interest (trace s1) (k_sock k) = Some (kReadEvent, k_chan k)"
    "chans s1 = (chans s)(k_chan k \<mapsto> ch\<lparr>c_events := kReadEvent, c_added := True\<rparr>)"
proof -
  let ?s = "s\<lparr>connHeap := (connHeap s)(c \<mapsto> k\<lparr>k_status := Connected\<rparr>)\<rparr>"
  have sy: "pollSynced ?s" and tid: "curTid ?s = loopTid ?s" and ch: "chans ?s (k_chan k) = Some ch"
    using s by (simp_all add: pollSynced_def)
  obtain s1 where s1: "enableReading EventLoop_updateChannel (k_chan k) ?s = Inr s1" "pollSynced s1" "maskStep ?s s1"
    "chans s1 = (chans ?s)(k_chan k \<mapsto> ch\<lparr>c_events := c_events ch OR kReadEvent, c_added := True\<rparr>)"
    "interest (trace s1) (c_fd ch) = Some (c_events ch OR kReadEvent, k_chan k)"
    by (rule enableReading_up[OF sy tid ch]) (use sole in auto)
  note fr = maskStep_frame[OF s1(3)]
  have m: "kReadEvent \<noteq> 0" "kReadEvent AND kWriteEvent = 0" by (simp_all add: mask_defs)
  show thesis
  proof (rule that[of s1])
    show "connectionEstablished exec c s = exec (f c True) s1"
      using s fresh s1(1) fr(1) by (simp add: connectionEstablished_def assertInLoopThread_def assertThat_def
          withConn_def setNetStatus_def modConn_def onChan_def)
    show "connUp c (k_sock k) s1"
      using fresh s1(2,4) fr m s(2) by (simp add: connUp_def isWriting_def)
    show "interest (trace s1) (k_sock k) = Some (kReadEvent, k_chan k)" using s1(5) fresh by simp
    show "chans s1 = (chans s)(k_chan k \<mapsto> ch\<lparr>c_events := kReadEvent, c_added := True\<rparr>)" using s1(4) fresh by simp
  qed (rule s1(3))
qed

section \<open>Properties\<close>

datatype connOp = Send "byte list" | Writable

fun runConnOp :: "nat \<Rightarrow> connOp \<Rightarrow> ('t, 'z) conns_scheme stmt" where
  "runConnOp c (Send xs) = sendInLoop c xs"
| "runConnOp c Writable = TcpConnection_handleWrite c"

fun sends :: "connOp list \<Rightarrow> byte list" where
  "sends [] = []"
| "sends (Send xs # ops) = xs @ sends ops"
| "sends (Writable # ops) = sends ops"

text \<open>An open connection on descriptor 9 whose callbacks log a level.\<close>

definition demoConn :: "connStatus \<Rightarrow> byte list \<Rightarrow> level conn" where
  "demoConn st out = \<lparr>k_status = st, k_sock = 9, k_chan = 4, k_onMsg = Some (\<lambda>_. INFO),
     k_onConn = Some (\<lambda>_ up. if up then DEBUG else WARN), k_onWrite = None, k_onClose = Some (\<lambda>_. ERROR),
     k_out = \<lparr>bdata = out, bsize = length out, bwriter = length out, breader = 0\<rparr>,
     k_in = mkBuffer 8, k_local = [], k_peer = []\<rparr>"

definition demoConns :: "(nat \<Rightarrow> answer) \<Rightarrow> connStatus \<Rightarrow> byte list \<Rightarrow> level conns" where
  "demoConns e st out = evloop.extend ((demoLoop [])\<lparr>env := e,
       chans := [4 \<mapsto> (mkChannel 9 True)\<lparr>c_added := True,
         c_events := if out = [] then kReadEvent else kReadEvent OR kWriteEvent\<rparr>],
       trace := [SysEpollCtl EPOLL_CTL_ADD 9 (if out = [] then kReadEvent else kReadEvent OR kWriteEvent) 4]\<rparr>)
     \<lparr>connHeap = [0 \<mapsto> demoConn st out], nextConn = 1\<rparr>"

lemmas demoConns_defs = demoConns_def evloop.defs demoLoop_defs demoConn_def mkChannel_def

lemma demoConns_up:
  assumes "st = Connected \<or> st = Disconnecting"
  shows "connUp 0 9 (demoConns e st out)" "pending 0 (demoConns e st out) = out"
    "written 9 (trace (demoConns e st out)) = []"
proof -
  have m: "kReadEvent \<noteq> 0" "kReadEvent OR kWriteEvent \<noteq> 0" "kReadEvent AND kWriteEvent = 0"
    "(kReadEvent OR kWriteEvent) AND kWriteEvent \<noteq> 0" "(kReadEvent OR kWriteEvent) AND kReadEvent \<noteq> 0"
    by (simp_all add: mask_defs)
  show "connUp 0 9 (demoConns e st out)" using assms m
    by (auto simp: connUp_def demoConns_defs pollSynced_def buf_wf_def content_def isWriting_def
        mkBuffer_def interest_def interestStep_def)
  show "pending 0 (demoConns e st out) = out" by (simp add: pending_def demoConns_defs content_def)
  show "written 9 (trace (demoConns e st out)) = []" by (simp add: demoConns_defs)
qed

lemma conn_stream_ops:
  assumes "connUp c fd s"
  shows "\<exists>s'. block (map (runConnOp c) ops) s = Inr s' \<and> connUp c fd s' \<and>
    written fd (trace s') @ pending c s' = written fd (trace s) @ pending c s @ sends ops"
  using assms
proof (induction ops arbitrary: s)
  case Nil
  then show ?case by simp
next
  case (Cons op ops)
  obtain t where t: "runConnOp c op s = Inr t" "connUp c fd t"
    "written fd (trace t) @ pending c t = written fd (trace s) @ pending c s @ sends [op]"
  proof (cases op)
    case (Send xs)
    obtain t where "sendInLoop c xs s = Inr t" "connUp c fd t"
      "written fd (trace t) @ pending c t = written fd (trace s) @ pending c s @ xs"
      by (rule sendInLoop_ok[OF Cons.prems])
    then show thesis using that[of t] Send by simp
  next
    case Writable
    obtain t where "TcpConnection_handleWrite c s = Inr t" "connUp c fd t"
      "written fd (trace t) @ pending c t = written fd (trace s) @ pending c s"
      by (rule handleWrite_ok[OF Cons.prems])
    then show thesis using that[of t] Writable by simp
  qed
  obtain s' where s': "block (map (runConnOp c) ops) t = Inr s'" "connUp c fd s'"
    "written fd (trace s') @ pending c s' = written fd (trace t) @ pending c t @ sends ops"
    using Cons.IH[OF t(2)] by blast
  have "sends (op # ops) = sends [op] @ sends ops" by (cases op) simp_all
  then have "written fd (trace s') @ pending c s' = written fd (trace s) @ pending c s @ sends (op # ops)"
    using s'(3) t(3) by (metis append.assoc)
  then show ?case using s' t(1) by (intro exI[of _ s']) simp
qed

text \<open>
  C1. No byte is lost, duplicated or reordered on the way out: over every sequence of sends and
  write events of an open connection, whatever the kernel accepts of each write and whichever
  writes fail, every step succeeds, and the bytes the kernel has taken followed by the bytes
  waiting in the output buffer are the bytes before followed by everything sent, in order.
  Throughout, the channel asks for write events exactly while bytes wait.
\<close>

theorem conn_stream:
  assumes "connUp c fd s"
  shows "\<exists>s'. block (map (runConnOp c) ops) s = Inr s' \<and> connUp c fd s' \<and>
    written fd (trace s') @ pending c s' = written fd (trace s) @ pending c s @ sends ops"
  by (rule conn_stream_ops[OF assms])

theorem conn_stream_witness:
  "\<exists>s'. block (map (runConnOp 0) [Send [1, 2, 3], Send [4], Writable])
       (demoConns (\<lambda>_. \<lparr>a_ret = 2, a_err = 0, a_payload = [], a_events = []\<rparr>) Connected []) = Inr s' \<and>
     written 9 (trace s') @ pending 0 s' = [1, 2, 3, 4]"
  using conn_stream[OF demoConns_up(1)[OF disjI1[OF refl]], of "[Send [1, 2, 3], Send [4], Writable]"
      "\<lambda>_. \<lparr>a_ret = 2, a_err = 0, a_payload = [], a_events = []\<rparr>" "[]"]
    demoConns_up(2,3)[of Connected _ "[]"]
  by auto

lemma writes_drain:
  assumes "connUp c fd s" and "\<And>m t. m < n \<Longrightarrow> block (replicate m (TcpConnection_handleWrite c)) s = Inr t \<Longrightarrow>
      pending c t \<noteq> [] \<Longrightarrow> 0 < a_ret (nextAns t)"
  shows "\<exists>s'. block (replicate n (TcpConnection_handleWrite c)) s = Inr s' \<and> connUp c fd s' \<and>
    written fd (trace s') @ pending c s' = written fd (trace s) @ pending c s \<and>
    length (pending c s') \<le> length (pending c s) - n"
  using assms
proof (induction n arbitrary: s)
  case 0
  then show ?case by simp
next
  case (Suc n)
  obtain t where t: "TcpConnection_handleWrite c s = Inr t" "connUp c fd t"
    "written fd (trace t) @ pending c t = written fd (trace s) @ pending c s"
    "pending c t = drop (nat (writeResult (length (pending c s)) (nextAns s))) (pending c s)"
    by (rule handleWrite_ok[OF Suc.prems(1)])
  have "pending c s \<noteq> [] \<Longrightarrow> 0 < a_ret (nextAns s)" using Suc.prems(2)[of 0 s] by simp
  then have len: "length (pending c t) \<le> length (pending c s) - 1"
    using t(4) by (cases "pending c s = []") (auto simp: writeResult_def)
  have "\<exists>s'. block (replicate n (TcpConnection_handleWrite c)) t = Inr s' \<and> connUp c fd s' \<and>
    written fd (trace s') @ pending c s' = written fd (trace t) @ pending c t \<and>
    length (pending c s') \<le> length (pending c t) - n"
    by (rule Suc.IH[OF t(2)]) (use Suc.prems(2)[of "Suc m" u for m u] t(1) in simp)
  then show ?case using t(1,3) len by fastforce
qed

text \<open>
  C8. The output of an open connection drains: if at each of the coming write events with bytes waiting the
  kernel takes at least one of them, then after at most as many events as there are bytes nothing waits any
  more; all of it has been written, in order, after what had been written before, and the
  connection, still open, has stopped asking for write events.
\<close>

theorem output_drains:
  assumes "connUp c fd s" and "length (pending c s) \<le> n"
    and "\<And>m t. m < n \<Longrightarrow> block (replicate m (TcpConnection_handleWrite c)) s = Inr t \<Longrightarrow>
      pending c t \<noteq> [] \<Longrightarrow> 0 < a_ret (nextAns t)"
  shows "\<exists>s' k ch. block (replicate n (TcpConnection_handleWrite c)) s = Inr s' \<and> connUp c fd s' \<and>
    pending c s' = [] \<and> written fd (trace s') = written fd (trace s) @ pending c s \<and>
    connHeap s' c = Some k \<and> chans s' (k_chan k) = Some ch \<and> \<not> isWriting ch"
proof -
  have "\<exists>s'. block (replicate n (TcpConnection_handleWrite c)) s = Inr s' \<and> connUp c fd s' \<and>
    written fd (trace s') @ pending c s' = written fd (trace s) @ pending c s \<and>
    length (pending c s') \<le> length (pending c s) - n"
    by (rule writes_drain[OF assms(1)]) (rule assms(3))
  then obtain s' where s': "block (replicate n (TcpConnection_handleWrite c)) s = Inr s'" "connUp c fd s'"
    "written fd (trace s') @ pending c s' = written fd (trace s) @ pending c s" "length (pending c s') \<le> length (pending c s) - n"
    by blast
  have "pending c s' = []" using s'(4) assms(2) by simp
  moreover obtain k ch where "connHeap s' c = Some k" "chans s' (k_chan k) = Some ch" "isWriting ch \<longleftrightarrow> content (k_out k) \<noteq> []"
    by (rule connUpE[OF s'(2)])
  ultimately show ?thesis using s' by (auto simp: pending_def)
qed

theorem output_drains_witness:
  "\<exists>s'. block (replicate 3 (TcpConnection_handleWrite 0))
       (demoConns (\<lambda>_. \<lparr>a_ret = 2, a_err = 0, a_payload = [], a_events = []\<rparr>) Disconnecting [1, 2, 3]) = Inr s' \<and>
     written 9 (trace s') = [1, 2, 3] \<and> pending 0 s' = []"
proof -
  let ?a = "\<lparr>a_ret = 2, a_err = 0, a_payload = [], a_events = []\<rparr>" and ?w = "TcpConnection_handleWrite 0 :: level conns stmt"
  let ?s = "demoConns (\<lambda>_. ?a) Disconnecting [1, 2, 3]"
  note up = demoConns_up[OF disjI2[OF refl], of "\<lambda>_. ?a" "[1, 2, 3]"]
  have "env t = env s" if "connUp 0 9 s" "block (replicate m ?w) s = Inr t" for m s t using that
  proof (induction m arbitrary: s)
    case (Suc m)
    obtain u where "?w s = Inr u" "connUp 0 9 u" "env u = env s" by (rule handleWrite_ok[OF Suc.prems(1)])
    then show ?case using Suc.IH[of u] Suc.prems(2) by simp
  qed simp
  from this[OF up(1)] have "nextAns t = ?a" if "block (replicate m ?w) ?s = Inr t" for m t
    using that by (auto simp: nextAns_def demoConns_defs)
  then show ?thesis using output_drains[OF up(1), of 3] up(2,3) by auto
qed

lemma handleWrites_no_shutdown:
  assumes "connUp c fd s"
  shows "\<exists>s'. block (replicate n (TcpConnection_handleWrite c)) s = Inr s' \<and>
    (\<exists>tr. trace s' = trace s @ tr \<and> (\<forall>d. SysShutdownWr d \<notin> set tr))"
  using assms
proof (induction n arbitrary: s)
  case 0
  then show ?case by simp
next
  case (Suc n)
  obtain t where t: "TcpConnection_handleWrite c s = Inr t" "connUp c fd t"
    "\<exists>tr. trace t = trace s @ tr \<and> (\<forall>d. SysShutdownWr d \<notin> set tr)"
    by (rule handleWrite_ok[OF Suc.prems])
  then obtain tr where tr: "trace t = trace s @ tr" "\<forall>d. SysShutdownWr d \<notin> set tr" by blast
  obtain s' tr' where s': "block (replicate n (TcpConnection_handleWrite c)) t = Inr s'"
    "trace s' = trace t @ tr'" "\<forall>d. SysShutdownWr d \<notin> set tr'"
    using Suc.IH[OF t(2)] by blast
  then show ?case using t(1) tr by (intro exI[of _ s']) simp
qed

text \<open>
  C29. A shutdown with output pending never closes the sending side: the request is remembered
  only in the state, and however many write events follow, even after the last byte has been
  written, no \<^verbatim>\<open>shutdown\<close> call is made.
\<close>

theorem shutdown_pending_never_closes:
  assumes "connUp c fd s" and "connHeap s c = Some k" and "k_status k = Connected" and "pending c s \<noteq> []"
  shows "\<exists>s1. shutdown K c s = Inr s1 \<and> map_option k_status (connHeap s1 c) = Some Disconnecting \<and>
    (\<forall>n. \<exists>s2 tr. block (replicate n (TcpConnection_handleWrite c)) s1 = Inr s2 \<and>
       trace s2 = trace s @ tr \<and> (\<forall>d. SysShutdownWr d \<notin> set tr))"
proof -
  obtain k' ch where k': "pollSynced s" "curTid s = loopTid s" "connHeap s c = Some k'"
    "chans s (k_chan k') = Some ch" "c_fd ch = fd" "k_sock k' = fd" "c_added ch" "c_events ch AND kReadEvent \<noteq> 0"
    "buf_wf (k_out k')" "buf_wf (k_in k')" "isWriting ch \<longleftrightarrow> content (k_out k') \<noteq> []"
    by (rule connUpE[OF assms(1)])
  have kk: "k' = k" using k'(3) assms(2) by simp
  let ?s = "s\<lparr>connHeap := (connHeap s)(c \<mapsto> k\<lparr>k_status := Disconnecting\<rparr>)\<rparr>"
  have w: "isWriting ch" using k' kk assms(4) by (simp add: pending_def)
  have up: "connUp c fd ?s" using k' kk by (auto simp: connUp_def pollSynced_def)
  have "shutdown K c s = Inr ?s"
    using assms(2,3) k' kk w
    by (auto simp: shutdown_def withConn_def setNetStatus_def modConn_def runInLoop_def ifElse_def
        isInLoopThread_def shutdownInLoop_def assertInLoopThread_def assertThat_def connWriting_def withChan_def)
  moreover have "\<exists>s2 tr. block (replicate n (TcpConnection_handleWrite c)) ?s = Inr s2 \<and>
       trace s2 = trace s @ tr \<and> (\<forall>d. SysShutdownWr d \<notin> set tr)" for n
    using handleWrites_no_shutdown[OF up, of n] by auto
  ultimately show ?thesis by (intro exI[of _ ?s]) simp
qed

definition demoTasks :: "level connTasks" where
  "demoTasks = \<lparr>ct_read = \<lambda>_. DEBUG, ct_write = \<lambda>_. DEBUG, ct_close = \<lambda>_. DEBUG, ct_error = \<lambda>_. DEBUG,
     ct_forceClose = \<lambda>_. DEBUG, ct_shutdown = \<lambda>_. DEBUG, ct_send = \<lambda>_ _. DEBUG, ct_chanClose = \<lambda>_. DEBUG\<rparr>"

theorem shutdown_pending_never_closes_witness:
  "\<exists>s1 s2 tr. shutdown demoTasks 0 (demoConns (\<lambda>_. okAns\<lparr>a_ret := 8\<rparr>) Connected [7, 8]) = Inr s1 \<and>
     block (replicate 5 (TcpConnection_handleWrite 0)) s1 = Inr s2 \<and>
     trace s2 = trace (demoConns (\<lambda>_. okAns\<lparr>a_ret := 8\<rparr>) Connected [7, 8]) @ tr \<and>
     (\<forall>d. SysShutdownWr d \<notin> set tr)"
proof -
  let ?s = "demoConns (\<lambda>_. okAns\<lparr>a_ret := 8\<rparr>) Connected [7, 8]"
  have k: "connHeap ?s 0 = Some (demoConn Connected [7, 8])" "k_status (demoConn Connected [7, 8]) = Connected"
    by (simp_all add: demoConns_defs)
  have up: "connUp 0 9 ?s" "pending 0 ?s \<noteq> []" using demoConns_up[of Connected] by simp_all
  show ?thesis using shutdown_pending_never_closes[OF up(1) k up(2), of demoTasks] by metis
qed

lemma connUp_kernelStep_in:
  assumes "connUp c fd s" "connHeap s c = Some k" "kernelStep s t" "buf_wf b"
    and "interest (trace t) = interest (trace s)"
  shows "connUp c fd (t\<lparr>connHeap := (connHeap t)(c \<mapsto> k\<lparr>k_in := b\<rparr>)\<rparr>)"
  using assms kernelStep_fields[OF assms(3)]
  by (auto simp: connUp_def pollSynced_def)

lemma readFd_plain:
  assumes "readFd fd b s = Inr (n, b', s')"
  shows "plainStep s s'"
  using assms by (auto simp: readFd_def andThen_Inr_iff ISocket_readv_eq Let_def split: option.splits if_splits
      intro!: plainStep_more)

lemma readFd_interest:
  "readFd fd b s = Inr (n, b', s') \<Longrightarrow> interest (trace s') = interest (trace s)"
  by (auto simp: readFd_def andThen_Inr_iff ISocket_readv_eq Let_def interestStep_def interest_append
      split: option.splits if_splits)

lemma readFd_written:
  "readFd fd b s = Inr (n, b', s') \<Longrightarrow> written d (trace s') = written d (trace s)"
  by (auto simp: readFd_def andThen_Inr_iff ISocket_readv_eq Let_def writtenOf_def split: option.splits if_splits)

lemma readFd_received:
  assumes "buf_wf b" "readFd fd b s = Inr (n, b', s')"
  shows "received fd (trace s') = received fd (trace s) @ readFdTaken b s"
proof -
  have nxt: "nextAns (logged ERROR (afterSys c s)) = env s (Suc (envIx s))" for c by (simp add: nextAns_def)
  show ?thesis using assms
    by (auto simp: readFd_def buf_simps andThen_Inr_iff ISocket_readv_eq Let_def readFdTaken_def readFdFirst_def
        readFdRetry_def nxt split: option.splits if_splits)
qed

lemma handleRead_cases:
  assumes "connUp c fd s" and "connHeap s c = Some k"
  shows "\<exists>s1 b. connUp c fd s1 \<and> connHeap s1 = (connHeap s)(c \<mapsto> k\<lparr>k_in := b\<rparr>) \<and>
    content b = content (k_in k) @ readFdTaken (k_in k) s \<and> written fd (trace s1) = written fd (trace s) \<and>
    chans s1 = chans s \<and> tasks s1 = tasks s \<and> evSize s1 = evSize s \<and>
    received fd (trace s1) = received fd (trace s) @ readFdTaken (k_in k) s \<and>
    (\<exists>t. plainStep s t \<and> s1 = t\<lparr>connHeap := (connHeap t)(c \<mapsto> k\<lparr>k_in := b\<rparr>)\<rparr>) \<and>
    TcpConnection_handleRead exec c s =
      (case readFdFirst (k_in k) s of
         None \<Rightarrow> Inr (logged ERROR s1)
       | Some xs \<Rightarrow> if xs = [] then handleClose exec c s1
           else case k_onMsg k of None \<Rightarrow> Inr (logged ERROR s1) | Some f \<Rightarrow> exec (f c) s1)"
proof -
  obtain k' ch where k': "curTid s = loopTid s" "connHeap s c = Some k'"
    "chans s (k_chan k') = Some ch" "c_fd ch = fd" "buf_wf (k_in k')"
    by (rule connUpE[OF assms(1)])
  have kk: "k' = k" using k'(2) assms(2) by simp
  have wf: "buf_wf (k_in k)" using k'(5) kk by simp
  let ?n = "case readFdFirst (k_in k) s of Some xs \<Rightarrow> int (length xs) | None \<Rightarrow> - 1"
  obtain b t where r: "readFd fd (k_in k) s = Inr (?n, b, t)" "buf_wf b"
    "content b = content (k_in k) @ readFdTaken (k_in k) s" "kernelStep s t"
    by (rule readFd_ok[OF wf])
  let ?s1 = "t\<lparr>connHeap := (connHeap t)(c \<mapsto> k\<lparr>k_in := b\<rparr>)\<rparr>"
  have "readInput c s = Inr (?n, ?s1)"
    using k' kk assms(2) r(1) by (simp add: readInput_def connFd_def withConn_def withChan_def)
  then have "TcpConnection_handleRead exec c s = withConn ''handleRead'' c (\<lambda>k.
       if ?n > 0 \<and> k_onMsg k \<noteq> None then exec (the (k_onMsg k) c)
       else if ?n = 0 then handleClose exec c else LOG ERROR) ?s1"
    using k'(1) by (simp add: TcpConnection_handleRead_def assertInLoopThread_def assertThat_def callE_def)
  also have "\<dots> = (case readFdFirst (k_in k) s of
         None \<Rightarrow> Inr (logged ERROR ?s1)
       | Some xs \<Rightarrow> if xs = [] then handleClose exec c ?s1
           else case k_onMsg k of None \<Rightarrow> Inr (logged ERROR ?s1) | Some f \<Rightarrow> exec (f c) ?s1)"
    by (auto simp: withConn_def split: option.split)
  finally have eq: "TcpConnection_handleRead exec c s = \<dots>" .
  show ?thesis
    using connUp_kernelStep_in[OF assms r(4,2) readFd_interest[OF r(1)]] kernelStep_fields(1,2,5,6)[OF r(4)] r(3)
      readFd_written[OF r(1)] readFd_received[OF wf r(1)]
    by - (rule exI[of _ ?s1], rule exI[of _ b], intro conjI exI[of _ t], simp_all add: readFd_plain[OF r(1)] eq)
qed

text \<open>
  C28. One read event of an open connection: the bytes the kernel delivers are appended to the
  input buffer and nothing else of the connection changes; then the message callback runs on
  that state if bytes came and one is set, the connection is closed if the kernel reported the
  end of the stream, and an error is logged in every other case.
\<close>

theorem handleRead_branches:
  assumes "connUp c fd s" and "connHeap s c = Some k"
  shows "\<exists>s1 b. connUp c fd s1 \<and> connHeap s1 = (connHeap s)(c \<mapsto> k\<lparr>k_in := b\<rparr>) \<and>
    content b = content (k_in k) @ readFdTaken (k_in k) s \<and>
    TcpConnection_handleRead exec c s =
      (case readFdFirst (k_in k) s of
         None \<Rightarrow> Inr (logged ERROR s1)
       | Some xs \<Rightarrow> if xs = [] then handleClose exec c s1
           else case k_onMsg k of None \<Rightarrow> Inr (logged ERROR s1) | Some f \<Rightarrow> exec (f c) s1)"
  using handleRead_cases[OF assms, of exec] by blast

lemma demoConns_in: "readFdFirst (mkBuffer 8) (demoConns e st out) = readResult 65544 (e 0)"
  by (simp add: readFdFirst_def mkBuffer_def readCap_def extraSize_def nextAns_def demoConns_defs)

theorem handleRead_branches_witness:
  "\<exists>s1 b. content b = [5, 6] \<and> TcpConnection_handleRead printer 0
      (demoConns (\<lambda>_. \<lparr>a_ret = 2, a_err = 0, a_payload = [5, 6], a_events = []\<rparr>) Connected []) = printer INFO s1 \<and>
     map_option k_in (connHeap s1 0) = Some b"
proof -
  let ?e = "\<lambda>_ :: nat. \<lparr>a_ret = 2, a_err = 0, a_payload = [5, 6], a_events = []\<rparr>"
  let ?s = "demoConns ?e Connected []"
  have k: "connHeap ?s 0 = Some (demoConn Connected [])" by (simp add: demoConns_defs)
  have f: "readFdFirst (k_in (demoConn Connected [])) ?s = Some [5, 6]"
    using demoConns_in[of ?e Connected "[]"] by (simp add: demoConn_def readResult_def)
  obtain s1 b where s1: "connHeap s1 = (connHeap ?s)(0 \<mapsto> (demoConn Connected [])\<lparr>k_in := b\<rparr>)"
    "content b = [5, 6]" "TcpConnection_handleRead printer 0 ?s = printer INFO s1"
    using handleRead_branches[OF demoConns_up(1)[OF disjI1[OF refl]] k, of printer] f
    by (auto simp: readFdTaken_def demoConn_def)
  then show ?thesis by (intro exI[of _ s1] exI[of _ b]) simp
qed

definition closedConn :: "nat \<Rightarrow> (nat \<Rightarrow> 't) \<Rightarrow> ('t, 'z) conns_scheme \<Rightarrow> bool" where
  "closedConn c g s \<longleftrightarrow> curTid s = loopTid s \<and>
     (\<exists>k. connHeap s c = Some k \<and> k_status k = Disconnected \<and> k_onClose k = Some g)"

text \<open>
  C27. A connection closes once: closing an open connection takes its descriptor out of the
  kernel's interest list and its status to disconnected before it runs the connection callback
  (with \<^verbatim>\<open>up\<close> false) and then the close callback, each exactly once; afterwards a forced close
  does nothing, and a second close event aborts.
\<close>

theorem close_once:
  assumes "connUp c fd s" and "connHeap s c = Some k" and "k_onConn k = Some f" and "k_onClose k = Some g"
    and "ensures (closedConn c g) (exec (f c False)) (closedConn c g)"
    and "ensures (closedConn c g) (exec (g c)) (closedConn c g)"
  shows "\<exists>s1 s2 s'. handleClose exec c s = Inr s' \<and> closedConn c g s1 \<and> interest (trace s1) fd = None \<and>
    exec (f c False) s1 = Inr s2 \<and> exec (g c) s2 = Inr s' \<and> closedConn c g s' \<and>
    forceCloseInLoop exec c s' = Inr s' \<and>
    handleClose exec c s' = Inl (AssertFailed ''TcpConnection::handleClose'')"
proof -
  obtain s1 where s1: "handleClose exec c s = andThen (exec (f c False) s1) (withConn ''handleClose'' c (\<lambda>k.
       case k_onClose k of None \<Rightarrow> (\<lambda>_. Inl (BadFunctionCall ''_onCloseCb'')) | Some g \<Rightarrow> exec (g c)))"
    "connHeap s1 = (connHeap s)(c \<mapsto> k\<lparr>k_status := Disconnected\<rparr>)" "interest (trace s1) fd = None"
    "curTid s1 = loopTid s1"
    by (rule handleClose_ok[OF assms(1-3)])
  have c1: "closedConn c g s1" using s1(2,4) assms(4) by (simp add: closedConn_def)
  obtain s2 where s2: "exec (f c False) s1 = Inr s2" "closedConn c g s2"
    using ensuresD[OF assms(5) c1] by blast
  obtain s' where s': "exec (g c) s2 = Inr s'" "closedConn c g s'"
    using ensuresD[OF assms(6) s2(2)] by blast
  have "handleClose exec c s = Inr s'"
    using s1(1) s2 s'(1) by (auto simp: closedConn_def withConn_def)
  moreover have "forceCloseInLoop exec c s' = Inr s'"
    "handleClose exec c s' = Inl (AssertFailed ''TcpConnection::handleClose'')"
    using s'(2) by (auto simp: closedConn_def forceCloseInLoop_def handleClose_def assertInLoopThread_def
        assertThat_def withConn_def)
  ultimately show ?thesis using c1 s1(3) s2(1) s' by blast
qed

theorem close_once_witness:
  "\<exists>s'. handleClose printer 0 (demoConns (\<lambda>_. okAns) Connected [1]) = Inr s' \<and>
     handleClose printer 0 s' = Inl (AssertFailed ''TcpConnection::handleClose'')"
proof -
  let ?s = "demoConns (\<lambda>_. okAns) Connected [1]"
  have k: "connHeap ?s 0 = Some (demoConn Connected [1])" by (simp add: demoConns_defs)
  have cb: "k_onConn (demoConn Connected [1]) = Some (\<lambda>_ up. if up then DEBUG else WARN)"
    "k_onClose (demoConn Connected [1]) = Some (\<lambda>_. ERROR)" by (simp_all add: demoConn_def)
  have p: "ensures (closedConn 0 (\<lambda>_. ERROR)) (printer l :: level conns stmt) (closedConn 0 (\<lambda>_. ERROR))" for l
    by (simp add: ensures_def printer_def upd_def closedConn_def)
  show ?thesis using close_once[where exec = printer, OF demoConns_up(1)[OF disjI1[OF refl]] k cb p p]
    by (elim exE conjE) (rule exI, rule conjI; assumption)
qed

end
