(* ===== verification/Acceptor.thy ===== *)
theory Acceptor
  imports ConnStream
begin

text \<open>
  src/net/Acceptor.h and Acceptor.cpp: the listening socket of a server. \<open>pton\<close> and \<open>mem\<close> are the
  address parser and the initial bytes of the local \<^verbatim>\<open>EndPoint peer\<close> of \<^verbatim>\<open>handleRead\<close>.
\<close>

record 't acceptor = "'t conns" +
  ac_listening :: bool
  ac_endpoint :: endpoint
  ac_sock :: int
  ac_chan :: nat
  ac_onNewConn :: "(int \<Rightarrow> endpoint \<Rightarrow> 't) option"
  ac_freeFd :: int

lemma acceptor_frame [simp]:
  "ac_listening (logged l s) = ac_listening s" "ac_listening (afterSys c s) = ac_listening s"
  "ac_sock (logged l s) = ac_sock s" "ac_sock (afterSys c s) = ac_sock s"
  "ac_chan (logged l s) = ac_chan s" "ac_chan (afterSys c s) = ac_chan s"
  "ac_onNewConn (logged l s) = ac_onNewConn s" "ac_onNewConn (afterSys c s) = ac_onNewConn s"
  "ac_freeFd (logged l s) = ac_freeFd s" "ac_freeFd (afterSys c s) = ac_freeFd s"
  by (simp_all add: logged_def afterSys_def)

definition EMFILE :: int where
  "EMFILE = 24"

definition Acceptor_ctor :: "'t \<Rightarrow> endpoint \<Rightarrow> bool \<Rightarrow> ('t, 'z) acceptor_scheme stmt" where
  "Acceptor_ctor readTask endpoint reusePort =
     callE (ISocket_createTcpSocket (uint (EndPoint_family endpoint))) (\<lambda>fd.
     call (newChannel fd True) (\<lambda>cid.
     call (sysRet SysOpenNull) (\<lambda>free. block [
       upd (\<lambda>s. s\<lparr>ac_listening := False, ac_endpoint := endpoint, ac_sock := fd, ac_chan := cid,
         ac_onNewConn := None, ac_freeFd := free\<rparr>),
       setReusePort fd reusePort,
       setReuseAddr fd True,
       TcpSocket_bind fd endpoint,
       setReadableCallback readTask cid])))"

definition Acceptor_dtor :: "(nat \<Rightarrow> 't) \<Rightarrow> ('t, 'z) acceptor_scheme stmt" where
  "Acceptor_dtor closeTask = block [
     letIn ac_freeFd (\<lambda>fd. call (sysRet (SysClose fd)) (\<lambda>_. Inr)),
     letIn ac_chan (Channel_dtor closeTask),
     letIn ac_sock TcpSocket_dtor]"

definition Acceptor_setNewConnectionCallback ::
  "(int \<Rightarrow> endpoint \<Rightarrow> 't) \<Rightarrow> ('t, 'z) acceptor_scheme \<Rightarrow> ('t, 'z) acceptor_scheme" where
  "Acceptor_setNewConnectionCallback cb s = s\<lparr>ac_onNewConn := Some cb\<rparr>"

definition Acceptor_listen :: "('t, 'z) acceptor_scheme stmt" where
  "Acceptor_listen = block [
     assertThat ''Acceptor::listen'' (\<lambda>s. \<not> ac_listening s),
     assertInLoopThread,
     upd (\<lambda>s. s\<lparr>ac_listening := True\<rparr>),
     letIn ac_sock TcpSocket_listen,
     letIn ac_chan (enableReading EventLoop_updateChannel)]"

text \<open>\<^verbatim>\<open>ISocket::close(_acceptSocket.fd() == 0)\<close>: the argument is the comparison, as an int.\<close>

definition stopListening :: "('t, 'z) acceptor_scheme stmt" where
  "stopListening = block [
     assertInLoopThread,
     upd (\<lambda>s. s\<lparr>ac_listening := False\<rparr>),
     letIn ac_chan (disableReading EventLoop_updateChannel),
     letIn ac_sock (\<lambda>fd. callE (ISocket_close (if fd = 0 then 1 else 0)) (\<lambda>r.
       if r \<noteq> 0 then call (sysRet (SysFcntlGetFl fd)) (\<lambda>flags.
         doIf (\<lambda>_. flags = - 1) (upd (\<lambda>s. s\<lparr>ac_sock := - 1\<rparr>)))
       else Inr))]"

definition Acceptor_handleRead ::
  "('t \<Rightarrow> ('t, 'z) acceptor_scheme stmt) \<Rightarrow> inet_pton \<Rightarrow> byte list \<Rightarrow> ('t, 'z) acceptor_scheme stmt" where
  "Acceptor_handleRead exec pton mem = block [
     assertInLoopThread,
     letIn ac_sock (\<lambda>fd. callE (TcpSocket_accept fd (EndPoint_port pton mem 0 False)) (\<lambda>(connfd, peer).
       if connfd \<ge> 0 then
         letIn ac_onNewConn (\<lambda>cb. case cb of
           Some f \<Rightarrow> exec (f connfd peer)
         | None \<Rightarrow> callE (ISocket_close connfd) (\<lambda>r.
             if r \<noteq> 0 then Inr
             else call (sysRet (SysFcntlGetFl fd)) (\<lambda>flags.
               doIf (\<lambda>_. flags = - 1) (upd (\<lambda>s. s\<lparr>ac_sock := - 1\<rparr>)))))
       else block [
         LOG ERROR,
         doIf (\<lambda>s. errno s = EMFILE) (block [
           letIn ac_freeFd (\<lambda>free. call (sysRet (SysClose free)) (\<lambda>_. Inr)),
           call (sys (\<lambda>a. SysAccept fd (a_ret a))) (\<lambda>a. upd (\<lambda>s. s\<lparr>ac_freeFd := a_ret a\<rparr>)),
           letIn ac_freeFd (\<lambda>free. call (sysRet (SysClose free)) (\<lambda>_. Inr)),
           call (sysRet SysOpenNull) (\<lambda>r. upd (\<lambda>s. s\<lparr>ac_freeFd := r\<rparr>))])]))]"

section \<open>Properties\<close>

definition demoAcceptor :: "answer \<Rightarrow> bool \<Rightarrow> nat acceptor" where
  "demoAcceptor a on = conns.extend (evloop.extend ((demoLoop [])\<lparr>env := (\<lambda>_. a),
       chans := [3 \<mapsto> (mkChannel 8 True)\<lparr>c_added := on, c_events := if on then kReadEvent else 0\<rparr>],
       trace := if on then [SysEpollCtl EPOLL_CTL_ADD 8 kReadEvent 3] else []\<rparr>)
       \<lparr>connHeap = Map.empty, nextConn = 0\<rparr>)
     \<lparr>ac_listening = on, ac_endpoint = [], ac_sock = 8, ac_chan = 3, ac_onNewConn = Some (\<lambda>fd _. nat fd),
      ac_freeFd = 6\<rparr>"

lemmas demoAcceptor_defs = demoAcceptor_def conns.defs evloop.defs demoLoop_defs

text \<open>
  Running out of descriptors is not handled: at every log level that prints errors, when
  \<^verbatim>\<open>accept\<close> fails with \<^verbatim>\<open>EMFILE\<close> the code that is to give up its spare descriptor does not run,
  because the log lines have reset \<^verbatim>\<open>errno\<close> before it is tested; the failed \<^verbatim>\<open>accept\<close> is the only
  system call made, so the connection stays in the queue and the next wait returns at once.
\<close>

lemma emfile_not_handled:
  assumes "curTid s = loopTid s" and "g_logLevel s \<le> ERROR"
    and "a_ret (nextAns s) < 0" and "a_err (nextAns s) = EMFILE"
  shows "\<exists>s'. Acceptor_handleRead exec pton mem s = Inr s' \<and> trace s' = trace s @ [SysAccept (ac_sock s) (a_ret (nextAns s))] \<and>
    chans s' = chans s \<and> ac_freeFd s' = ac_freeFd s"
proof -
  let ?s = "logged ERROR (logged ERROR (afterSys (SysAccept (ac_sock s) (a_ret (nextAns s))) s))"
  have "errno ?s = 0" using assms(2) by (simp add: errno_logged)
  then have "Acceptor_handleRead exec pton mem s = Inr ?s"
    using assms(1,3) by (simp add: Acceptor_handleRead_def assertInLoopThread_def stmt_defs TcpSocket_accept_def
        ISocket_accept_def sys_eq EMFILE_def)
  then show ?thesis by simp
qed

text \<open>After \<^verbatim>\<open>stopListening\<close>: the channel no longer reads, and a descriptor was closed.\<close>

lemma stopListening_ok:
  fixes s :: "('t, 'z) acceptor_scheme"
  assumes "curTid s = loopTid s" and "pollSynced s" and "chans s (ac_chan s) = Some ch" and "c_added ch"
  obtains s2 tr ix e lo sk where
    "stopListening s = Inr (s2\<lparr>trace := trace s2 @ tr, envIx := ix, errno := e, logOut := lo, ac_sock := sk\<rparr>)"
    "maskStep (s\<lparr>ac_listening := False\<rparr>) s2" "pollSynced s2"
    "chans s2 = (chans s)(ac_chan s \<mapsto> ch\<lparr>c_events := c_events ch AND NOT kReadEvent,
       c_added := c_events ch AND NOT kReadEvent \<noteq> 0\<rparr>)"
    "SysClose (if ac_sock s = 0 then 1 else 0) \<in> set tr" "SysClose (ac_sock s) \<notin> set tr"
    "\<forall>c \<in> set tr. \<not> isCtl c"
proof -
  let ?s1 = "s\<lparr>ac_listening := False\<rparr>" and ?w = "if ac_sock s = 0 then 1 else 0 :: int"
  have sy: "ep.synced ?s1" using assms(2) by (simp add: pollSynced_eq[symmetric] pollSynced_def)
  obtain s2 where s2: "disableReading updateChannel (ac_chan s) ?s1 = Inr s2" "ep.synced s2"
    "chans s2 = (chans ?s1)(ac_chan s \<mapsto> ch\<lparr>c_events := c_events ch AND NOT kReadEvent,
       c_added := c_events ch AND NOT kReadEvent \<noteq> 0\<rparr>)"
    by (rule ep.disableReading_ok[OF sy, of "ac_chan s" ch]) (use assms in auto)
  then have ms: "maskStep ?s1 s2" unfolding disableReading_def by (intro maskOp_maskStep) blast
  then have fr: "ac_sock s2 = ac_sock s" by (auto simp: maskStep_def)
  have eq: "stopListening s = callE (ISocket_close ?w) (\<lambda>r.
       if r \<noteq> 0 then call (sysRet (SysFcntlGetFl (ac_sock s))) (\<lambda>flags.
         doIf (\<lambda>_. flags = - 1) (upd (\<lambda>s. s\<lparr>ac_sock := - 1\<rparr>))) else Inr) s2"
    using assms(1) s2(1) fr by (simp add: stopListening_def assertInLoopThread_def assertThat_def letIn_def
        upd_def EventLoop_updateChannel_eq cong: if_cong)
  let ?s3 = "afterClose ?w s2"
  have s3: "?s3 = s2\<lparr>trace := trace s2 @ [SysClose ?w], envIx := envIx ?s3, errno := errno ?s3,
      logOut := logOut ?s3, ac_sock := ac_sock s2\<rparr>"
    by (simp add: afterClose_def)
  have chs: "chans s2 = (chans s)(ac_chan s \<mapsto> ch\<lparr>c_events := c_events ch AND NOT kReadEvent,
       c_added := c_events ch AND NOT kReadEvent \<noteq> 0\<rparr>)" using s2(3) by simp
  have sy2: "pollSynced s2" using s2(2) by (simp add: pollSynced_eq)
  have ne: "ac_sock s \<noteq> ?w" by simp
  show thesis
  proof (cases "closeResult ?w (nextAns s2) = 0")
    case True
    then have "stopListening s = Inr ?s3" using eq by (simp add: callE_def ISocket_close_eq)
    from trans[OF this arg_cong[OF s3, of Inr]] show thesis by (rule that[OF _ ms sy2 chs]) (use ne in auto)
  next
    case False
    let ?s4 = "afterSys (SysFcntlGetFl (ac_sock s)) ?s3"
    let ?s5 = "if a_ret (nextAns ?s3) = - 1 then ?s4\<lparr>ac_sock := - 1\<rparr> else ?s4"
    have "stopListening s = Inr ?s5"
      using eq False by (simp add: callE_def ISocket_close_eq call_def sysRet_eq doIf_def upd_def)
    moreover have s5: "?s5 = s2\<lparr>trace := trace s2 @ [SysClose ?w, SysFcntlGetFl (ac_sock s)], envIx := envIx ?s5,
      errno := errno ?s5, logOut := logOut ?s5, ac_sock := ac_sock ?s5\<rparr>"
      by (simp add: afterClose_def afterSys_def)
    ultimately have "stopListening s = Inr (s2\<lparr>trace := trace s2 @ [SysClose ?w, SysFcntlGetFl (ac_sock s)],
      envIx := envIx ?s5, errno := errno ?s5, logOut := logOut ?s5, ac_sock := ac_sock ?s5\<rparr>)" by (rule trans[OF _ arg_cong[of _ _ Inr]])
    then show thesis by (rule that[OF _ ms sy2 chs]) (use ne in auto)
  qed
qed

text \<open>
  C37. Stopping a server never closes its listening socket: whatever the kernel answers, the
  descriptor closed is 0 (or 1, when the socket's descriptor is 0), the standard input (or
  output) of the process, and the listening socket stays open.
\<close>

theorem stop_closes_wrong_descriptor:
  assumes "curTid s = loopTid s" and "pollSynced s" and "chans s (ac_chan s) = Some ch" and "c_added ch"
  shows "\<exists>s' tr. stopListening s = Inr s' \<and> trace s' = trace s @ tr \<and>
    SysClose (if ac_sock s = 0 then 1 else 0) \<in> set tr \<and> SysClose (ac_sock s) \<notin> set tr \<and> \<not> ac_listening s'"
proof -
  obtain s2 tr ix e lo sk where s':
    "stopListening s = Inr (s2\<lparr>trace := trace s2 @ tr, envIx := ix, errno := e, logOut := lo, ac_sock := sk\<rparr>)"
    "maskStep (s\<lparr>ac_listening := False\<rparr>) s2"
    "SysClose (if ac_sock s = 0 then 1 else 0) \<in> set tr" "SysClose (ac_sock s) \<notin> set tr"
    by (rule stopListening_ok[OF assms])
  from s'(2) obtain op fd ev p where "trace s2 = trace s @ [SysEpollCtl op fd ev p]" "\<not> ac_listening s2"
    by (auto simp: maskStep_def)
  with s' show ?thesis
    by (intro exI[of _ "SysEpollCtl op fd ev p # tr"] exI[of _ "s2\<lparr>trace := trace s2 @ tr, envIx := ix, errno := e,
        logOut := lo, ac_sock := sk\<rparr>"]) simp
qed

theorem stop_closes_wrong_descriptor_witness:
  "\<exists>s'. stopListening (demoAcceptor okAns True) = Inr s' \<and> SysClose 0 \<in> set (trace s') \<and>
     SysClose 8 \<notin> set (trace s')"
proof -
  let ?s = "demoAcceptor okAns True"
  let ?ch = "(mkChannel 8 True)\<lparr>c_added := True, c_events := kReadEvent\<rparr>"
  have "pollSynced ?s"
    by (simp add: pollSynced_def demoAcceptor_defs mkChannel_def interest_def interestStep_def mask_defs)
  moreover have "curTid ?s = loopTid ?s" "chans ?s (ac_chan ?s) = Some ?ch" "c_added ?ch" "ac_sock ?s = 8"
    "trace ?s = [SysEpollCtl EPOLL_CTL_ADD 8 kReadEvent 3]"
    by (simp_all add: demoAcceptor_defs)
  ultimately show ?thesis using stop_closes_wrong_descriptor[of ?s ?ch] by auto
qed



end
