(* ===== verification/Connector.thy ===== *)
theory Connector
  imports ConnStream
begin

text \<open>
  src/net/Connector.h and Connector.cpp: the active side of a connection, with its retries. The
  member functions bound into callbacks and tasks are the fields of \<open>connectorTasks\<close>.
\<close>

datatype netStatus = NsDisconnected | NsConnecting | NsConnected

record 't connector = "'t conns" +
  cn_peer :: endpoint
  cn_connFlag :: bool
  cn_status :: netStatus
  cn_chan :: "nat option"
  cn_onNewConn :: "(int \<Rightarrow> 't) option"
  cn_retryMs :: int

lemma connector_frame [simp]:
  "cn_peer (logged l s) = cn_peer s" "cn_peer (afterSys c s) = cn_peer s"
  "cn_connFlag (logged l s) = cn_connFlag s" "cn_connFlag (afterSys c s) = cn_connFlag s"
  "cn_status (logged l s) = cn_status s" "cn_status (afterSys c s) = cn_status s"
  "cn_chan (logged l s) = cn_chan s" "cn_chan (afterSys c s) = cn_chan s"
  "cn_onNewConn (logged l s) = cn_onNewConn s" "cn_onNewConn (afterSys c s) = cn_onNewConn s"
  "cn_retryMs (logged l s) = cn_retryMs s" "cn_retryMs (afterSys c s) = cn_retryMs s"
  by (simp_all add: logged_def afterSys_def)

record 't connectorTasks =
  cnt_start :: 't
  cnt_stop :: 't
  cnt_write :: 't
  cnt_error :: 't
  cnt_addTimer :: "nat \<Rightarrow> 't"
  cnt_chanClose :: "nat \<Rightarrow> 't"

definition kRetryMsDelay :: int where "kRetryMsDelay = 500"
definition kMaxRetryMsDelay :: int where "kMaxRetryMsDelay = 30000"

definition Connector_ctor :: "endpoint \<Rightarrow> ('t, 'z) connector_scheme stmt" where
  "Connector_ctor peer = block [
     upd (\<lambda>s. s\<lparr>cn_peer := peer, cn_connFlag := False, cn_status := NsDisconnected, cn_chan := None,
       cn_onNewConn := None, cn_retryMs := kRetryMsDelay\<rparr>),
     LOG DEBUG]"

definition Connector_setNetStatus :: "netStatus \<Rightarrow> ('t, 'z) connector_scheme stmt" where
  "Connector_setNetStatus st = upd (\<lambda>s. s\<lparr>cn_status := st\<rparr>)"

definition Connector_setNewConnectionCallback :: "(int \<Rightarrow> 't) \<Rightarrow> ('t, 'z) connector_scheme stmt" where
  "Connector_setNewConnectionCallback cb = upd (\<lambda>s. s\<lparr>cn_onNewConn := Some cb\<rparr>)"

text \<open>\<^verbatim>\<open>_chan.reset()\<close> on a pointer that is set.\<close>

definition resetChan :: "'t connectorTasks \<Rightarrow> nat \<Rightarrow> ('t, 'z) connector_scheme stmt" where
  "resetChan K cid = block [upd (\<lambda>s. s\<lparr>cn_chan := None\<rparr>), Channel_dtor (cnt_chanClose K) cid]"

definition Connector_dtor :: "'t connectorTasks \<Rightarrow> ('t, 'z) connector_scheme stmt" where
  "Connector_dtor K = block [
     LOG DEBUG,
     letIn cn_chan (\<lambda>chan. case chan of
       None \<Rightarrow> Inr
     | Some cid \<Rightarrow> withChan ''Connector::~Connector'' cid (\<lambda>ch. block [
         resetChan K cid,
         callE (ISocket_close (c_fd ch)) (\<lambda>r.
           if r = 0 then letIn cn_chan (\<lambda>chan. case chan of
             None \<Rightarrow> (\<lambda>_. Inl (NullDeref ''Connector::~Connector''))
           | Some cid \<Rightarrow> withChan ''Connector::~Connector'' cid (\<lambda>ch.
               call (sysRet (SysFcntlGetFl (c_fd ch))) (\<lambda>f.
               if f = - 1 then resetFdAfterClose (- 1) cid else Inr)))
           else Inr)]))]"

section \<open>Connecting\<close>

definition connecting :: "'t connectorTasks \<Rightarrow> int \<Rightarrow> ('t, 'z) connector_scheme stmt" where
  "connecting K sockfd = block [
     LOG DEBUG,
     Connector_setNetStatus NsConnecting,
     call (newChannel sockfd False) (\<lambda>cid. block [
       letIn cn_chan (\<lambda>old. block [
         upd (\<lambda>s. s\<lparr>cn_chan := Some cid\<rparr>),
         (case old of None \<Rightarrow> Inr | Some q \<Rightarrow> Channel_dtor (cnt_chanClose K) q)]),
       setWritableCallback (cnt_write K) cid,
       setErrorCallback (cnt_error K) cid,
       enableWriting EventLoop_updateChannel cid])]"

text \<open>\<^verbatim>\<open>_retryMsDelay / 1000.0\<close> and the doubling of the delay.\<close>

definition retryDelay :: "int \<Rightarrow> double" where
  "retryDelay ms = doubleDiv (doubleOfInt ms) (doubleOfInt 1000)"

definition nextRetryMs :: "int \<Rightarrow> int" where
  "nextRetryMs ms = min (ms * 2) kMaxRetryMsDelay"

definition Connector_retry :: "'t connectorTasks \<Rightarrow> int \<Rightarrow> ('t, 'z) connector_scheme stmt" where
  "Connector_retry K sockfd = block [
     (\<lambda>s. callE (ISocket_close sockfd) (\<lambda>_. Inr) s),
     Connector_setNetStatus NsDisconnected,
     ifElse cn_connFlag
       (block [
         LOG DEBUG,
         letIn cn_retryMs (\<lambda>ms. callE (runAfter (cnt_addTimer K) (retryDelay ms) (cnt_start K)) (\<lambda>_. Inr)),
         upd (\<lambda>s. s\<lparr>cn_retryMs := nextRetryMs (cn_retryMs s)\<rparr>)])
       (LOG DEBUG)]"

definition EINPROGRESS :: int where "EINPROGRESS = 115"
definition EINTR :: int where "EINTR = 4"
definition EISCONN :: int where "EISCONN = 106"
definition EAGAIN :: int where "EAGAIN = 11"
definition EADDRINUSE :: int where "EADDRINUSE = 98"
definition EADDRNOTAVAIL :: int where "EADDRNOTAVAIL = 99"
definition ECONNREFUSED :: int where "ECONNREFUSED = 111"
definition ENETUNREACH :: int where "ENETUNREACH = 101"

lemmas errno_values = EINPROGRESS_def EINTR_def EISCONN_def EAGAIN_def EADDRINUSE_def EADDRNOTAVAIL_def
  ECONNREFUSED_def ENETUNREACH_def

text \<open>The three outcomes of the \<^verbatim>\<open>switch\<close>; its last two groups do the same.\<close>

definition connect :: "'t connectorTasks \<Rightarrow> ('t, 'z) connector_scheme stmt" where
  "connect K = letIn cn_peer (\<lambda>peer.
     callE (ISocket_createTcpSocket (uint (EndPoint_family peer))) (\<lambda>sockfd.
     call (getSockAddr peer) (\<lambda>addr.
     call (ISocket_connect sockfd (passedAddr addr)) (\<lambda>ret.
     letIn (\<lambda>s. if ret = 0 then 0 else errno s) (\<lambda>savedErrno.
       if savedErrno \<in> {0, EINPROGRESS, EINTR, EISCONN} then connecting K sockfd
       else if savedErrno \<in> {EAGAIN, EADDRINUSE, EADDRNOTAVAIL, ECONNREFUSED, ENETUNREACH} then
         Connector_retry K sockfd
       else block [LOG ERROR, (\<lambda>s. callE (ISocket_close sockfd) (\<lambda>_. Inr) s)])))))"

definition startInLoop :: "'t connectorTasks \<Rightarrow> ('t, 'z) connector_scheme stmt" where
  "startInLoop K = block [
     LOG DEBUG,
     assertInLoopThread,
     LOG INFO,
     ifElse cn_connFlag (connect K) (LOG DEBUG)]"

definition Connector_start :: "'t connectorTasks \<Rightarrow> ('t, 'z) connector_scheme stmt" where
  "Connector_start K = block [
     upd (\<lambda>s. s\<lparr>cn_connFlag := True\<rparr>),
     runInLoop (cnt_start K) (startInLoop K)]"

definition Connector_restart :: "'t connectorTasks \<Rightarrow> ('t, 'z) connector_scheme stmt" where
  "Connector_restart K = block [
     assertInLoopThread,
     Connector_setNetStatus NsDisconnected,
     upd (\<lambda>s. s\<lparr>cn_retryMs := kRetryMsDelay\<rparr>),
     upd (\<lambda>s. s\<lparr>cn_connFlag := True\<rparr>),
     startInLoop K]"

section \<open>Events and stopping\<close>

definition Connector_handleWrite ::
  "('t \<Rightarrow> ('t, 'z) connector_scheme stmt) \<Rightarrow> 't connectorTasks \<Rightarrow> ('t, 'z) connector_scheme stmt" where
  "Connector_handleWrite exec K = ifElse (\<lambda>s. cn_status s = NsConnecting)
     (letIn cn_chan (\<lambda>chan. case chan of
        None \<Rightarrow> (\<lambda>_. Inl (AssertFailed ''Connector::handleWrite''))
      | Some cid \<Rightarrow> withChan ''Connector::handleWrite'' cid (\<lambda>ch.
          thenDo (resetChan K cid)
          (call (ISocket_getSocketError (c_fd ch)) (\<lambda>err.
            if err \<noteq> 0 then block [LOG ERROR, Connector_retry K (c_fd ch)]
            else callE (isSelfConnect (c_fd ch)) (\<lambda>self.
              if self then block [LOG WARN, Connector_retry K (c_fd ch)]
              else block [
                Connector_setNetStatus NsConnected,
                ifElse cn_connFlag
                  (letIn cn_onNewConn (\<lambda>cb. case cb of
                     None \<Rightarrow> (\<lambda>_. Inl (BadFunctionCall ''_onNewConnCb'')) | Some f \<Rightarrow> exec (f (c_fd ch))))
                  (\<lambda>s. callE (ISocket_close (c_fd ch)) (\<lambda>_. Inr) s)]))))))
     Inr"

definition Connector_handleError :: "('t, 'z) connector_scheme stmt" where
  "Connector_handleError = LOG ERROR"

definition Connector_stop :: "'t connectorTasks \<Rightarrow> ('t, 'z) connector_scheme stmt" where
  "Connector_stop K = block [
     upd (\<lambda>s. s\<lparr>cn_connFlag := False\<rparr>),
     queueInLoop (cnt_stop K)]"

definition stopInLoop :: "'t connectorTasks \<Rightarrow> ('t, 'z) connector_scheme stmt" where
  "stopInLoop K = block [
     assertInLoopThread,
     ifElse (\<lambda>s. cn_status s = NsConnecting)
       (block [
         Connector_setNetStatus NsDisconnected,
         letIn cn_chan (\<lambda>chan. case chan of
           None \<Rightarrow> Inr
         | Some cid \<Rightarrow> withChan ''Connector::stopInLoop'' cid (\<lambda>ch. block [
             resetChan K cid,
             (\<lambda>s. callE (ISocket_close (c_fd ch)) (\<lambda>_. Inr) s),
             Connector_retry K (c_fd ch)]))])
       Inr]"

section \<open>Properties\<close>

text \<open>The delays that occur: half a second, doubled up to half a minute.\<close>

definition retryDelays :: "int set" where
  "retryDelays = {500, 1000, 2000, 4000, 8000, 16000, 30000}"

lemma retryDelay_exact:
  assumes "ms \<in> retryDelays"
  shows "addTime (retryDelay ms) t0 = t0 + ms * 1000"
proof -
  have "doubleToInt (doubleMul (retryDelay m) (doubleOfInt kMicroSecondsPerSecond)) = m * 1000"
    if "m \<in> set [500, 1000, 2000, 4000, 8000, 16000, 30000]" for m
  proof -
    have "list_all (\<lambda>m. doubleToInt (doubleMul (retryDelay m) (doubleOfInt kMicroSecondsPerSecond)) = m * 1000)
        [500, 1000, 2000, 4000, 8000, 16000, 30000]" by code_simp
    with that show ?thesis by (auto simp: list_all_iff)
  qed
  with assms show ?thesis by (simp add: addTime_def retryDelays_def)
qed

lemma nextRetryMs_delays: "ms \<in> retryDelays \<Longrightarrow> nextRetryMs ms \<in> retryDelays"
  by (auto simp: retryDelays_def nextRetryMs_def kMaxRetryMsDelay_def)

lemma afterClose_connector [simp]:
  "cn_connFlag (afterClose fd s) = cn_connFlag s" "cn_retryMs (afterClose fd s) = cn_retryMs s"
  by (simp_all add: afterClose_def)

lemma afterClose_timerq [simp]:
  "tmHeap (afterClose fd s) = tmHeap s" "timers (afterClose fd s) = timers s"
  "nextTimer (afterClose fd s) = nextTimer s" "numCreated (afterClose fd s) = numCreated s"
  "timerFd (afterClose fd s) = timerFd s" "loopTid (afterClose fd s) = loopTid s"
  by (simp_all add: afterClose_def)

lemma afterClose_clock [simp]:
  "clock (afterClose fd s) = clock s" "clockIx (afterClose fd s) = clockIx s"
  by (simp_all add: afterClose_def)

text \<open>
  Retries back off and stay on schedule: a retry while the connection is wanted closes the
  socket once, marks the connector disconnected and leaves a one-shot timer that starts it again
  exactly the current delay later (to the microsecond, through the floating-point conversion),
  and the next delay is twice this one, at most half a minute; no other delay ever occurs.
\<close>

lemma retry_backoff:
  assumes "curTid s = loopTid s" and "timerInv [] s" and "cn_connFlag s" and "cn_retryMs s \<in> retryDelays"
    and "0 \<le> fd"
  shows "Connector_retry K fd s = Inl FatalLog \<or>
    (\<exists>s' tr. Connector_retry K fd s = Inr s' \<and> cn_status s' = NsDisconnected \<and> timerInv [] s' \<and>
      tmHeap s' (nextTimer s) = Some \<lparr>tm_cb = cnt_start K, tm_expire = fst (now s) + cn_retryMs s * 1000,
        tm_interval = Dbl 0 0, tm_id = numCreated s\<rparr> \<and>
      (\<exists>q \<in> set (timers s'). keyIn (tmHeap s') q = keyIn (tmHeap s') (nextTimer s)) \<and>
      cn_retryMs s' = min (2 * cn_retryMs s) 30000 \<and> cn_retryMs s' \<in> retryDelays \<and>
      trace s' = trace s @ SysClose fd # tr \<and> (\<forall>d. SysClose d \<notin> set tr))"
proof -
  let ?a = "(logged DEBUG ((afterClose fd s)\<lparr>cn_status := NsDisconnected\<rparr>))"
  let ?b = "?a\<lparr>clockIx := Suc (clockIx s)\<rparr>" and ?ms = "cn_retryMs s"
  have t0: "fst (now ?a) = fst (now s)" by (simp add: now_def split: prod.split)
  have nw: "now ?a = (fst (now s), ?b)" using now_eq[of ?a] t0 by simp
  have add: "addTime (retryDelay ?ms) (fst (now s)) = fst (now s) + ?ms * 1000"
    by (rule retryDelay_exact[OF assms(4)])
  have inv: "timerInv [] ?b" using assms(2) by (simp add: timerInv_def)
  have loop: "isInLoopThread ?b" using assms(1) by (simp add: isInLoopThread_def)
  let ?add = "addTimer (cnt_addTimer K) (cnt_start K) (fst (now s) + ?ms * 1000) (Dbl 0 0)"
  have eq: "Connector_retry K fd s = callE ?add (\<lambda>_ s. Inr (s\<lparr>cn_retryMs := nextRetryMs (cn_retryMs s)\<rparr>)) ?b"
    using assms(3) by (simp add: Connector_retry_def callE_def ISocket_close_eq Connector_setNetStatus_def
        upd_def ifElse_def letIn_def runAfter_def call_def nw add andThen_assoc split_def)
  show ?thesis
  proof (cases rule: addTimer_ok[OF inv loop, of "cnt_addTimer K" "cnt_start K" "fst (now s) + ?ms * 1000" "Dbl 0 0"])
    case 1
    then show ?thesis using eq by (simp add: callE_def)
  next
    case (2 ts tr ix e ck)
    have "\<forall>d. SysClose d \<notin> set tr" using 2(4) by auto
    then show ?thesis
      using eq 2 assms(5) nextRetryMs_delays[OF assms(4)]
      by (intro disjI2) (simp add: callE_def timerInv_def nextRetryMs_def kMaxRetryMsDelay_def mult.commute)
  qed
qed

definition demoConnector :: "netStatus \<Rightarrow> nat option \<Rightarrow> nat connector" where
  "demoConnector st chan = conns.extend (evloop.extend ((demoLoop [])\<lparr>
       chans := [3 \<mapsto> (mkChannel 8 False)\<lparr>c_added := True, c_events := kWriteEvent\<rparr>],
       trace := [SysEpollCtl EPOLL_CTL_ADD 8 kWriteEvent 3]\<rparr>)
       \<lparr>connHeap = Map.empty, nextConn = 0\<rparr>)
     \<lparr>cn_peer = mem_bytes AF_INET @ replicate 26 0, cn_connFlag = True, cn_status = st, cn_chan = chan,
      cn_onNewConn = Some nat, cn_retryMs = 500\<rparr>"

lemmas demoConnector_defs = demoConnector_def conns.defs evloop.defs demoLoop_defs

definition demoConnTasks :: "nat connectorTasks" where
  "demoConnTasks = \<lparr>cnt_start = 1, cnt_stop = 2, cnt_write = 3, cnt_error = 4, cnt_addTimer = (\<lambda>_. 5),
     cnt_chanClose = (\<lambda>_. 6)\<rparr>"

section \<open>Letting go of the channel\<close>

lemma resetChan_ok:
  fixes s :: "('t, 'z) connector_scheme"
  assumes "pollSynced s" "chans s cid = Some ch" "curTid s = loopTid s" "\<not> c_mgmt ch"
  obtains tr ix e lo where "resetChan K cid s = Inr (s\<lparr>cn_chan := None, trace := trace s @ tr, envIx := ix,
      errno := e, logOut := lo, chans := (chans s)(cid := None)\<rparr>)" "\<forall>c \<in> set tr. isCtl c"
    "c_added ch \<Longrightarrow> interest (trace s @ tr) (c_fd ch) = None" "ix = envIx s + length tr"
    "c_added ch \<Longrightarrow> length tr = 1"
    "pollSynced (s\<lparr>cn_chan := None, trace := trace s @ tr, envIx := ix, errno := e, logOut := lo,
      chans := (chans s)(cid := None)\<rparr>)"
proof -
  let ?s = "s\<lparr>cn_chan := None\<rparr>"
  have "pollSynced ?s" "chans ?s cid = Some ch" "curTid ?s = loopTid ?s"
    using assms by (simp_all add: pollSynced_def)
  then obtain s' where s': "Channel_dtor (cnt_chanClose K) cid ?s = Inr s'" "dropStep cid ?s s'" "pollSynced s'"
    "c_added ch \<Longrightarrow> interest (trace s') (c_fd ch) = None"
    by (rule destroy_unowned) (use assms(4) in auto)
  from s'(2) obtain tr ix e lo where d: "s' = ?s\<lparr>trace := trace ?s @ tr, envIx := ix, errno := e, logOut := lo,
     chans := (chans ?s)(cid := None)\<rparr>" "\<forall>c \<in> set tr. isCtl c" "ix = envIx s + length tr" "length tr \<le> 1"
    by (auto simp: dropStep_def)
  have len: "length tr = 1" if "c_added ch"
  proof (cases tr)
    case Nil
    then have "interest (trace s) (c_fd ch) = None" using s'(4)[OF that] d(1) by simp
    then show ?thesis using assms(1,2) that by (auto simp: pollSynced_def)
  qed (use d(4) in simp)
  show thesis
    by (rule that[where tr = tr and ix = ix and e = e and lo = lo])
      (use s'(1,3,4) d len in \<open>simp_all add: resetChan_def upd_def\<close>)
qed

text \<open>
  Stopping while a connection is being made closes its descriptor twice: once directly and
  once more in the retry that follows, with nothing between the two but the destruction of the
  channel before them; the second call hits whatever has been given that number since.
\<close>

lemma stop_closes_twice:
  assumes "curTid s = loopTid s" and "pollSynced s" and "cn_status s = NsConnecting"
    and "cn_chan s = Some cid" and "chans s cid = Some ch" and "\<not> c_mgmt ch" and "0 \<le> c_fd ch"
    and "\<not> cn_connFlag s"
  shows "\<exists>s' tr. stopInLoop K s = Inr s' \<and> cn_status s' = NsDisconnected \<and> cn_chan s' = None \<and>
    trace s' = trace s @ tr @ [SysClose (c_fd ch), SysClose (c_fd ch)] \<and> (\<forall>c \<in> set tr. isCtl c)"
proof -
  let ?s1 = "s\<lparr>cn_status := NsDisconnected\<rparr>"
  have "pollSynced ?s1" "chans ?s1 cid = Some ch" "curTid ?s1 = loopTid ?s1"
    using assms by (simp_all add: pollSynced_def)
  then obtain tr ix e lo where r: "resetChan K cid ?s1 = Inr (?s1\<lparr>cn_chan := None, trace := trace ?s1 @ tr,
      envIx := ix, errno := e, logOut := lo, chans := (chans ?s1)(cid := None)\<rparr>)" "\<forall>c \<in> set tr. isCtl c"
    by (rule resetChan_ok) (use assms(6) in auto)
  let ?s2 = "?s1\<lparr>cn_chan := None, trace := trace ?s1 @ tr, envIx := ix, errno := e, logOut := lo,
      chans := (chans ?s1)(cid := None)\<rparr>"
  let ?s3 = "afterClose (c_fd ch) ?s2"
  let ?s4 = "logged DEBUG ((afterClose (c_fd ch) ?s3)\<lparr>cn_status := NsDisconnected\<rparr>)"
  have cn: "cn_chan (afterClose fd t) = cn_chan t" for fd and t :: "('a, 'b) connector_scheme"
    by (simp add: afterClose_def)
  have "stopInLoop K s = Inr ?s4"
    using assms r(1) by (simp add: stopInLoop_def assertInLoopThread_def assertThat_def ifElse_def
        Connector_setNetStatus_def upd_def letIn_def withChan_def callE_def ISocket_close_eq Connector_retry_def)
  then show ?thesis using r(2) assms(7) cn
    by (intro exI[of _ ?s4] exI[of _ tr]) (simp add: cn)
qed

lemma demoConnector_synced: "pollSynced (demoConnector st chan)"
  by (simp add: pollSynced_def demoConnector_defs mkChannel_def interest_def interestStep_def mask_defs)

section \<open>Starting to connect\<close>

text \<open>\<^verbatim>\<open>connecting\<close> watches the socket for writing through a channel of its own; an old channel goes.\<close>

definition oldGone :: "nat option \<Rightarrow> ('t, 'z) connector_scheme \<Rightarrow> bool" where
  "oldGone old s \<longleftrightarrow> (case old of None \<Rightarrow> True | Some q \<Rightarrow> q < nextChan s \<and>
     (\<exists>ch. chans s q = Some ch \<and> \<not> c_mgmt ch))"

definition noClose :: "syscall list \<Rightarrow> bool" where
  "noClose tr \<longleftrightarrow> (\<forall>d. SysClose d \<notin> set tr)"

lemma noClose_simps [simp]:
  "noClose []" "noClose (c # tr) \<longleftrightarrow> (\<forall>d. c \<noteq> SysClose d) \<and> noClose tr"
  "noClose (tr1 @ tr2) \<longleftrightarrow> noClose tr1 \<and> noClose tr2"
  by (auto simp: noClose_def)

lemma noClose_ctl: "\<forall>c \<in> set tr. isCtl c \<Longrightarrow> noClose tr"
  by (auto simp: noClose_def)

lemma enableWriting_new:
  assumes "pollSynced s" "curTid s = loopTid s" "chans s cid = Some ch" "c_events ch = 0"
    "\<And>cid' ch'. cid' \<noteq> cid \<Longrightarrow> chans s cid' = Some ch' \<Longrightarrow> c_added ch' \<Longrightarrow> c_fd ch' \<noteq> c_fd ch"
  obtains s' where "enableWriting EventLoop_updateChannel cid s = Inr s'" "pollSynced s'" "maskStep s s'"
    "interest (trace s') (c_fd ch) = Some (kWriteEvent, cid)"
    "chans s' = (chans s)(cid \<mapsto> ch\<lparr>c_events := kWriteEvent, c_added := True\<rparr>)"
proof -
  have sy: "ep.synced s" using assms(1) by (simp add: pollSynced_eq)
  have so: "ep.soleOwner cid s" using assms(3,5) by (auto simp: ep.soleOwner_def)
  obtain s' where s': "enableWriting updateChannel cid s = Inr s'" "ep.synced s'"
    "chans s' = (chans s)(cid \<mapsto> ch\<lparr>c_events := c_events ch OR kWriteEvent, c_added := True\<rparr>)"
    by (rule ep.enableWriting_ok[OF sy assms(3,2) so])
  have "pollSynced s'" using s'(2) by (simp add: pollSynced_eq)
  moreover from this have "interest (trace s') (c_fd ch) = Some (kWriteEvent, cid)"
    using s'(3) assms(4) unfolding pollSynced_def by (elim allE[of _ cid]) auto
  ultimately show thesis
    using s' assms(4) maskOp_maskStep[OF s'(1)[unfolded enableWriting_def]]
    by (intro that) (simp_all add: EventLoop_updateChannel_eq)
qed

lemma connecting_ok:
  fixes s :: "('t, 'z) connector_scheme"
  assumes s: "pollSynced s" "curTid s = loopTid s" "oldGone (cn_chan s) s"
    and fresh: "\<And>cid ch. chans s cid = Some ch \<Longrightarrow> cid < nextChan s"
    and sole: "\<And>cid ch. chans s cid = Some ch \<Longrightarrow> c_added ch \<Longrightarrow> c_fd ch \<noteq> fd"
  obtains s' tr where "connecting K fd s = Inr s'" "cn_status s' = NsConnecting" "cn_chan s' = Some (nextChan s)"
    "interest (trace s') fd = Some (kWriteEvent, nextChan s)" "pollSynced s'" "trace s' = trace s @ tr" "noClose tr"
    "\<And>q. cn_chan s = Some q \<Longrightarrow> chans s' q = None"
proof -
  let ?cid = "nextChan s" and ?ch = "mkChannel fd False"
  let ?s1 = "(logged DEBUG s)\<lparr>cn_status := NsConnecting, chans := (chans s)(?cid \<mapsto> ?ch), nextChan := Suc ?cid,
     cn_chan := Some ?cid\<rparr>"
  let ?drop = "case cn_chan s of None \<Rightarrow> Inr | Some q \<Rightarrow> Channel_dtor (cnt_chanClose K) q"
  have old: "chans s cid = Some ch' \<Longrightarrow> cid \<noteq> ?cid" for cid ch' using fresh by blast
  have sy1: "pollSynced ?s1" using s(1) old by (auto simp: pollSynced_def mkChannel_def)
  obtain s2 tr2 where s2: "?drop ?s1 = Inr s2" "pollSynced s2" "trace s2 = trace s @ tr2" "noClose tr2"
    "chans s2 ?cid = Some ?ch" "\<And>cid ch. cid \<noteq> ?cid \<Longrightarrow> chans s2 cid = Some ch \<Longrightarrow> chans s cid = Some ch"
    "\<And>q. cn_chan s = Some q \<Longrightarrow> chans s2 q = None" "curTid s2 = loopTid s2" "cn_status s2 = NsConnecting"
    "cn_chan s2 = Some ?cid"
  proof (cases "cn_chan s")
    case None
    then show thesis using sy1 s(2) by (intro that[of ?s1 "[]"]) simp_all
  next
    case (Some q)
    then obtain chq where q: "q < ?cid" "chans s q = Some chq" "\<not> c_mgmt chq" using s(3) by (auto simp: oldGone_def)
    then have "chans ?s1 q = Some chq" "curTid ?s1 = loopTid ?s1" using s(2) by simp_all
    from destroy_unowned[OF sy1 this q(3), of queueInLoop "cnt_chanClose K"] obtain s2 where d:
      "Channel_dtor (cnt_chanClose K) q ?s1 = Inr s2" "dropStep q ?s1 s2" "pollSynced s2" by blast
    from d(2) obtain tr ix e lo where e: "s2 = ?s1\<lparr>trace := trace ?s1 @ tr, envIx := ix, errno := e, logOut := lo,
        chans := (chans ?s1)(q := None)\<rparr>" "\<forall>c \<in> set tr. isCtl c" by (auto simp: dropStep_def)
    show thesis
      by (rule that[of s2 tr]) (use Some d e q(1) s(2) noClose_ctl[OF e(2)] in \<open>auto split: if_splits\<close>)
  qed
  let ?ch3 = "?ch\<lparr>c_onWrite := Some (cnt_write K), c_onError := Some (cnt_error K)\<rparr>"
  let ?s3 = "s2\<lparr>chans := (chans s2)(?cid \<mapsto> ?ch3)\<rparr>"
  have sy3: "pollSynced ?s3" using s2(2,5) by (auto simp: pollSynced_def mkChannel_def)
  have so3: "c_fd ch' \<noteq> c_fd ?ch3" if "cid' \<noteq> ?cid" "chans ?s3 cid' = Some ch'" "c_added ch'" for cid' ch'
  proof -
    have "chans s cid' = Some ch'" by (rule s2(6)[OF that(1)]) (use that in simp)
    then show ?thesis using sole that(3) by (simp add: mkChannel_def)
  qed
  obtain s' where s': "enableWriting EventLoop_updateChannel ?cid ?s3 = Inr s'" "pollSynced s'" "maskStep ?s3 s'"
    "interest (trace s') (c_fd ?ch3) = Some (kWriteEvent, ?cid)"
    "chans s' = (chans ?s3)(?cid \<mapsto> ?ch3\<lparr>c_events := kWriteEvent, c_added := True\<rparr>)"
    by (rule enableWriting_new[OF sy3, of ?cid ?ch3]) (use s2(8) so3 in \<open>simp_all add: mkChannel_def\<close>)
  have ms: "cn_status s' = cn_status ?s3" "cn_chan s' = cn_chan ?s3" "\<exists>c. isCtl c \<and> trace s' = trace ?s3 @ [c]"
    using s'(3) by (auto simp: maskStep_def)
  then obtain c where c: "isCtl c" "trace s' = trace s @ tr2 @ [c]" using s2(3) by auto
  show thesis
  proof (rule that[of s' "tr2 @ [c]"])
    show "connecting K fd s = Inr s'"
      using s2(1,5) s'(1) by (simp add: connecting_def Connector_setNetStatus_def upd_def call_def newChannel_def
          letIn_def setWritableCallback_def setErrorCallback_def modChan_def withChan_def)
    show "noClose (tr2 @ [c])" using s2(4) c(1) by (cases c) simp_all
    show "\<And>q. cn_chan s = Some q \<Longrightarrow> chans s' q = None"
      using s'(5) s2(7) s(3) by (auto simp: oldGone_def)
  qed (use s2 s' ms c in \<open>simp_all add: mkChannel_def\<close>)
qed

text \<open>Starting while the kernel has a socket to give and the connection proceeds.\<close>

definition proceeds :: "answer \<Rightarrow> bool" where
  "proceeds a \<longleftrightarrow> a_ret a = 0 \<or> (a_ret a < 0 \<and> a_err a = EINPROGRESS)"

lemma pollSynced_frame:
  "pollSynced s \<Longrightarrow> interest (trace t) = interest (trace s) \<Longrightarrow> chans t = chans s \<Longrightarrow> pollSynced t"
  by (simp add: pollSynced_def)

lemma getSockAddr_ok:
  obtains a st where "getSockAddr ep s = (a, s\<lparr>addrStorage := st\<rparr>)"
proof (cases "EndPoint_family ep = AF_INET")
  case True
  then show thesis by (intro that) (simp add: getSockAddr_def Let_def)
next
  case n4: False
  show thesis
  proof (cases "EndPoint_family ep = AF_INET6")
    case True
    then show thesis using n4 by (intro that) (simp add: getSockAddr_def Let_def)
  next
    case False
    then have "getSockAddr ep s = (None, s\<lparr>addrStorage := addrStorage s\<rparr>)" using n4 by (simp add: getSockAddr_def)
    then show thesis by (rule that)
  qed
qed

lemma start_connecting:
  fixes s :: "('t, 'z) connector_scheme"
  assumes "curTid s = loopTid s" "pollSynced s" "a_ret (env s (envIx s)) = fd" "0 \<le> fd"
    "proceeds (env s (Suc (envIx s)))"
  obtains t tr where "Connector_start K s = connecting K fd t" "pollSynced t" "curTid t = loopTid t"
    "cn_chan t = cn_chan s" "chans t = chans s" "nextChan t = nextChan s" "trace t = trace s @ tr" "noClose tr"
proof -
  let ?s1 = "afterSys (SysSocket (uint (EndPoint_family (cn_peer s))) fd) (logged INFO (logged DEBUG (s\<lparr>cn_connFlag := True\<rparr>)))"
  obtain a st where g: "getSockAddr (cn_peer s) ?s1 = (a, ?s1\<lparr>addrStorage := st\<rparr>)"
    by (rule getSockAddr_ok)
  let ?t = "afterSys (SysConnect fd (passedAddr a)) (?s1\<lparr>addrStorage := st\<rparr>)"
  have n: "nextAns (logged INFO (logged DEBUG (s\<lparr>cn_connFlag := True\<rparr>))) = env s (envIx s)"
    "nextAns (?s1\<lparr>addrStorage := st\<rparr>) = env s (Suc (envIx s))"
    by (simp_all add: nextAns_def)
  have e: "errno ?t = EINPROGRESS" if "a_ret (env s (Suc (envIx s))) \<noteq> 0"
    using assms(5) that n(2) by (simp add: proceeds_def afterSys_def)
  have c: "connect K (logged INFO (logged DEBUG (s\<lparr>cn_connFlag := True\<rparr>))) = connecting K fd ?t"
    using assms(3,4) g n e
    by (cases "a_ret (env s (Suc (envIx s))) = 0") (simp_all add: connect_def letIn_def callE_def call_def
        ISocket_createTcpSocket_def sys_eq sysRet_eq thenDo_def doIf_def retF_def ISocket_connect_def)
  show thesis
  proof (rule that[of ?t "[SysSocket (uint (EndPoint_family (cn_peer s))) fd, SysConnect fd (passedAddr a)]"])
    show "Connector_start K s = connecting K fd ?t"
      using assms(1) c by (simp add: Connector_start_def upd_def runInLoop_def ifElse_def isInLoopThread_def
          startInLoop_def assertInLoopThread_def assertThat_def)
    show "pollSynced ?t" by (rule pollSynced_frame[OF assms(2)]) (simp_all add: interest_append)
  qed (use assms(1) in simp_all)
qed

text \<open>
  Starting a connector that is already connecting leaks its socket: the second start makes a
  new socket and a new channel, which takes the place of the old one; the old channel is
  destroyed, but it does not own its descriptor, and nobody else knows it: it is never closed. (The
  log line that looks at the status does nothing about it, and the assertion is commented out.)
\<close>

lemma second_start_leaks:
  assumes "curTid s = loopTid s" and "pollSynced s"
    and "cn_chan s = Some q" and "chans s q = Some chq" and "\<not> c_mgmt chq"
    and "\<forall>cid ch. chans s cid = Some ch \<longrightarrow> cid < nextChan s \<and> (c_added ch \<longrightarrow> c_fd ch \<noteq> fd)"
    and "a_ret (env s (envIx s)) = fd" and "0 \<le> fd" and "proceeds (env s (Suc (envIx s)))"
  shows "\<exists>s' tr. Connector_start K s = Inr s' \<and> trace s' = trace s @ tr \<and> SysClose (c_fd chq) \<notin> set tr \<and>
    cn_chan s' = Some (nextChan s) \<and> chans s' q = None \<and>
    interest (trace s') fd = Some (kWriteEvent, nextChan s) \<and> cn_status s' = NsConnecting"
proof -
  obtain t tr where t: "Connector_start K s = connecting K fd t" "pollSynced t" "curTid t = loopTid t"
    "cn_chan t = cn_chan s" "chans t = chans s" "nextChan t = nextChan s" "trace t = trace s @ tr" "noClose tr"
    by (rule start_connecting[OF assms(1,2,7-9), of K])
  have old: "oldGone (cn_chan t) t" using t(4-6) assms(3-6) by (simp add: oldGone_def)
  obtain s' tr' where s': "connecting K fd t = Inr s'" "cn_status s' = NsConnecting" "cn_chan s' = Some (nextChan t)"
    "interest (trace s') fd = Some (kWriteEvent, nextChan t)" "trace s' = trace t @ tr'" "noClose tr'"
    "\<And>q. cn_chan t = Some q \<Longrightarrow> chans s' q = None"
    by (rule connecting_ok[OF t(2,3) old, of fd K]) (use assms(6) t(5,6) in auto)
  show ?thesis using t s' assms(3) by (intro exI[of _ s'] exI[of _ "tr @ tr'"]) (simp add: noClose_def)
qed

end
