(* ===== verification/LoopPool.thy ===== *)
theory LoopPool
  imports Channel
begin

text \<open>
  src/net/EventLoopThreadPool.h and EventLoopThreadPool.cpp: the pool of loops a server spreads
  its connections over. A loop is a number; \<open>startLoop i\<close> is the loop that thread \<open>i\<close> of the pool
  publishes (\<^verbatim>\<open>EventLoopThread::startLoop\<close>). The state the functions run on is that of the base loop;
  the pool itself is an argument and comes back changed.
\<close>

record pool =
  p_base :: nat
  p_threads :: "64 word"
  p_next :: "64 word"
  p_loops :: "nat list"

definition EventLoopThreadPool_ctor :: "nat \<Rightarrow> pool" where
  "EventLoopThreadPool_ctor base = \<lparr>p_base = base, p_threads = 0, p_next = 0, p_loops = []\<rparr>"

definition setThreadNum :: "64 word \<Rightarrow> pool \<Rightarrow> pool" where
  "setThreadNum num p = p\<lparr>p_threads := num\<rparr>"

text \<open>The loop of \<^verbatim>\<open>start\<close>, counting \<open>i\<close> up in 64 bits.\<close>

function startThreads :: "(nat \<Rightarrow> nat) \<Rightarrow> 64 word \<Rightarrow> pool \<Rightarrow> pool" where
  "startThreads startLoop i p =
     (if i < p_threads p then startThreads startLoop (i + 1) (p\<lparr>p_loops := p_loops p @ [startLoop (unat i)]\<rparr>)
      else p)"
  by pat_completeness auto
termination
proof (relation "measure (\<lambda>(f, i, p). unat (p_threads p) - unat i)")
  fix f i and p :: pool
  assume "i < p_threads p"
  then have "unat i < unat (p_threads p)" by (simp add: word_less_nat_alt)
  moreover from this have "unat (i + 1) = Suc (unat i)"
    using unsigned_less[of "p_threads p", where ?'a = nat] by (simp add: unat_word_ariths)
  ultimately show "((f, i + 1, p\<lparr>p_loops := p_loops p @ [f (unat i)]\<rparr>), f, i, p)
      \<in> measure (\<lambda>(f, i, p). unat (p_threads p) - unat i)" by simp
qed simp

declare startThreads.simps [simp del]

definition pool_start :: "(nat \<Rightarrow> nat) \<Rightarrow> (nat \<Rightarrow> ('t, 'z) chanheap_scheme stmt) option \<Rightarrow> pool \<Rightarrow>
    (('t, 'z) chanheap_scheme, pool) func" where
  "pool_start startLoop cb p =
     thenDo assertInLoopThread
     (letIn (\<lambda>_. startThreads startLoop 0 p) (\<lambda>p'.
      thenDo (if p_threads p = 0 then (case cb of None \<Rightarrow> Inr | Some f \<Rightarrow> f (p_base p)) else Inr)
      (retF p')))"

definition getLoopForHash :: "pool \<Rightarrow> 64 word \<Rightarrow> (('t, 'z) chanheap_scheme, nat) func" where
  "getLoopForHash p hashCode =
     thenDo assertInLoopThread
     (retF (if p_loops p = [] then p_base p
            else p_loops p ! unat (hashCode mod of_nat (length (p_loops p)))))"

definition getNextLoop :: "pool \<Rightarrow> (('t, 'z) chanheap_scheme, nat \<times> pool) func" where
  "getNextLoop p =
     thenDo assertInLoopThread
     (callE (getLoopForHash p (p_next p)) (\<lambda>l. retF (l, p\<lparr>p_next := p_next p + 1\<rparr>)))"

section \<open>Properties\<close>

lemma startThreads_loops:
  "startThreads f i p = p\<lparr>p_loops := p_loops p @ map f [unat i..<unat (p_threads p)]\<rparr>"
proof (induction f i p rule: startThreads.induct)
  case (1 f i p)
  show ?case
  proof (cases "i < p_threads p")
    case True
    then have lt: "unat i < unat (p_threads p)" by (simp add: word_less_nat_alt)
    then have "unat (i + 1) = Suc (unat i)"
      using unsigned_less[of "p_threads p", where ?'a = nat] by (simp add: unat_word_ariths)
    with 1[OF True] True lt show ?thesis by (subst startThreads.simps) (simp add: upt_conv_Cons)
  next
    case False
    then have "unat (p_threads p) \<le> unat i" by (simp add: word_less_nat_alt)
    with False show ?thesis by (subst startThreads.simps) simp
  qed
qed

text \<open>\<open>n\<close> connections are assigned one after another.\<close>

fun nextLoops :: "nat \<Rightarrow> pool \<Rightarrow> (('t, 'z) chanheap_scheme, nat list \<times> pool) func" where
  "nextLoops 0 p = retF ([], p)"
| "nextLoops (Suc n) p = callE (getNextLoop p) (\<lambda>(l, p'). callE (nextLoops n p') (\<lambda>(ls, p''). retF (l # ls, p'')))"

lemma nextLoops_eq:
  assumes "curTid s = loopTid s" "p_loops p \<noteq> []" "length (p_loops p) < 2 ^ 64" "unat (p_next p) + n \<le> 2 ^ 64"
  shows "\<exists>p'. nextLoops n p s =
    Inr ((map (\<lambda>i. p_loops p ! (i mod length (p_loops p))) [unat (p_next p)..<unat (p_next p) + n], p'), s) \<and>
    p_next p' = p_next p + of_nat n \<and> p_loops p' = p_loops p"
  using assms
proof (induction n arbitrary: p)
  case 0
  then show ?case by (simp add: retF_def)
next
  case (Suc n)
  let ?p = "p\<lparr>p_next := p_next p + 1\<rparr>" and ?L = "p_loops p"
  have "unat (of_nat (length ?L) :: 64 word) = length ?L"
    using Suc.prems(3) by (simp add: unat_of_nat take_bit_eq_mod)
  then have g: "getNextLoop p s = Inr ((?L ! (unat (p_next p) mod length ?L), ?p), s)"
    using Suc.prems(1,2) by (simp add: getNextLoop_def getLoopForHash_def stmt_defs assertInLoopThread_def unat_mod)
  show ?case
  proof (cases n)
    case 0
    then show ?thesis using g by (simp add: callE_def retF_def)
  next
    case n: (Suc m)
    then have nx: "unat (p_next p + 1) = Suc (unat (p_next p))"
      using Suc.prems(4) by (simp add: unat_word_ariths)
    obtain p' where "nextLoops n ?p s =
      Inr ((map (\<lambda>i. ?L ! (i mod length ?L)) [Suc (unat (p_next p))..<Suc (unat (p_next p) + n)], p'), s)"
      "p_next p' = p_next p + 1 + of_nat n" "p_loops p' = ?L"
      using Suc.IH[of ?p] Suc.prems nx by auto
    then show ?thesis using g n
      by (simp add: callE_def retF_def upt_conv_Cons add.commute add.left_commute del: upt_Suc)
  qed
qed

lemma turn_rotate:
  assumes "0 < length xs"
  shows "map (\<lambda>i. xs ! (i mod length xs)) [a..<a + length xs] = rotate (a mod length xs) xs"
  using assms by (intro nth_equalityI) (simp_all add: nth_rotate mod_add_left_eq)

text \<open>
  C36. The pool deals out its loops in turn: as long as the 64-bit counter does not wrap around,
  any \<open>k\<close> consecutive connections on a pool of \<open>k\<close> loops go to \<open>k\<close> different positions, each loop
  of the pool getting exactly one, and the turn starts where the last one ended.
\<close>

theorem pool_round_robin:
  assumes "curTid s = loopTid s" and "p_loops p \<noteq> []" and "length (p_loops p) < 2 ^ 64"
    and "unat (p_next p) + length (p_loops p) \<le> 2 ^ 64"
  shows "\<exists>p'. nextLoops (length (p_loops p)) p s =
      Inr ((rotate (unat (p_next p) mod length (p_loops p)) (p_loops p), p'), s) \<and>
    p_next p' = p_next p + of_nat (length (p_loops p)) \<and> p_loops p' = p_loops p"
  using nextLoops_eq[OF assms] turn_rotate[of "p_loops p" "unat (p_next p)"] assms(2) by auto

definition demoPool :: pool where
  "demoPool = \<lparr>p_base = 0, p_threads = 3, p_next = 4, p_loops = [7, 8, 9]\<rparr>"

theorem pool_round_robin_witness:
  "\<exists>p'. nextLoops 3 demoPool (demoHeap 0) = Inr (([8, 9, 7], p'), demoHeap 0)"
proof -
  have p: "length (p_loops demoPool) = 3" "unat (p_next demoPool) = 4" "p_loops demoPool \<noteq> []"
    "rotate (4 mod 3) (p_loops demoPool) = [8, 9, 7]"
    by (simp_all add: demoPool_def)
  have tid: "curTid (demoHeap 0) = loopTid (demoHeap 0)" by (simp add: demoHeap_def)
  show ?thesis using pool_round_robin[OF tid p(3)] unfolding p(1,2,4) by fastforce
qed

text \<open>
  Starting the pool starts exactly as many threads as were asked for, in order, and without
  any thread the initialisation callback runs on the base loop instead, which then gets every
  connection.
\<close>

lemma pool_start_threads:
  assumes "curTid s = loopTid s" and "p_loops p = []"
  shows "pool_start startLoop cb p s =
    (if p_threads p = 0 then
       thenDo (case cb of None \<Rightarrow> Inr | Some f \<Rightarrow> f (p_base p)) (retF p) s
     else Inr (p\<lparr>p_loops := map startLoop [0..<unat (p_threads p)]\<rparr>, s))"
  using assms by (cases p) (auto simp: pool_start_def stmt_defs assertInLoopThread_def startThreads_loops)

end
