(* ===== verification/TcpServer.thy ===== *)
theory TcpServer
  imports Acceptor LoopPool
begin

text \<open>
  src/net/TcpServer.h and TcpServer.cpp: a server on its base loop. The state is that of the base
  loop (whose thread runs these functions) with the acceptor, the pool and the set of
  connections. \<open>sv_owner c\<close> is the loop of a connection (\<^verbatim>\<open>getLoop()\<close>); tasks for a loop of another
  thread are appended to \<open>sv_remote\<close> with its number: what that loop does with them is the
  matter of that loop's own state.
\<close>

record 't server = "'t acceptor" +
  sv_started :: bool
  sv_pool :: pool
  sv_onConn :: "(nat \<Rightarrow> bool \<Rightarrow> 't) option"
  sv_onMsg :: "(nat \<Rightarrow> 't) option"
  sv_onWrite :: "(nat \<Rightarrow> 't) option"
  sv_conns :: "nat list"
  sv_threadInit :: "(nat \<Rightarrow> 't) option"
  sv_owner :: "nat \<Rightarrow> nat"
  sv_remote :: "(nat \<times> 't) list"

lemma server_frame [simp]:
  "sv_pool (logged l s) = sv_pool s" "sv_pool (afterSys c s) = sv_pool s"
  "sv_onConn (logged l s) = sv_onConn s" "sv_onConn (afterSys c s) = sv_onConn s"
  "sv_onMsg (logged l s) = sv_onMsg s" "sv_onMsg (afterSys c s) = sv_onMsg s"
  "sv_onWrite (logged l s) = sv_onWrite s" "sv_onWrite (afterSys c s) = sv_onWrite s"
  "sv_conns (logged l s) = sv_conns s" "sv_conns (afterSys c s) = sv_conns s"
  "sv_owner (logged l s) = sv_owner s" "sv_owner (afterSys c s) = sv_owner s"
  "sv_remote (logged l s) = sv_remote s" "sv_remote (afterSys c s) = sv_remote s"
  "sv_started (logged l s) = sv_started s" "sv_started (afterSys c s) = sv_started s"
  by (simp_all add: logged_def afterSys_def)

text \<open>The tasks the server makes of its own and of its connections' member functions.\<close>

record 't serverTasks =
  st_conn :: "'t connTasks"
  st_newConn :: "int \<Rightarrow> endpoint \<Rightarrow> 't"
  st_remove :: "nat \<Rightarrow> 't"
  st_removeInLoop :: "nat \<Rightarrow> 't"
  st_established :: "nat \<Rightarrow> 't"
  st_destroyed :: "nat \<Rightarrow> 't"
  st_acceptRead :: 't
  st_defaultConn :: "nat \<Rightarrow> bool \<Rightarrow> 't"
  st_defaultMsg :: "nat \<Rightarrow> 't"

section \<open>Loops by number\<close>

definition baseLoop :: "('t, 'z) server_scheme \<Rightarrow> nat" where
  "baseLoop s = p_base (sv_pool s)"

definition runInOwner :: "nat \<Rightarrow> 't \<Rightarrow> ('t, 'z) server_scheme stmt \<Rightarrow> ('t, 'z) server_scheme stmt" where
  "runInOwner l task body = ifElse (\<lambda>s. l = baseLoop s) (runInLoop task body)
     (upd (\<lambda>s. s\<lparr>sv_remote := sv_remote s @ [(l, task)]\<rparr>))"

definition queueInOwner :: "nat \<Rightarrow> 't \<Rightarrow> ('t, 'z) server_scheme stmt" where
  "queueInOwner l task = ifElse (\<lambda>s. l = baseLoop s) (queueInLoop task)
     (upd (\<lambda>s. s\<lparr>sv_remote := sv_remote s @ [(l, task)]\<rparr>))"

section \<open>The class\<close>

definition TcpServer_ctor :: "'t serverTasks \<Rightarrow> nat \<Rightarrow> endpoint \<Rightarrow> bool \<Rightarrow> ('t, 'z) server_scheme stmt" where
  "TcpServer_ctor K base endpoint reusePort = block [
     upd (\<lambda>s. s\<lparr>sv_started := False\<rparr>),
     Acceptor_ctor (st_acceptRead K) endpoint reusePort,
     upd (\<lambda>s. s\<lparr>sv_pool := EventLoopThreadPool_ctor base, sv_onConn := Some (st_defaultConn K),
       sv_onMsg := Some (st_defaultMsg K), sv_onWrite := None, sv_conns := [], sv_threadInit := None,
       sv_remote := []\<rparr>),
     upd (Acceptor_setNewConnectionCallback (st_newConn K)),
     LOG DEBUG]"

definition TcpServer_setMessageCallback :: "(nat \<Rightarrow> 't) \<Rightarrow> ('t, 'z) server_scheme stmt" where
  "TcpServer_setMessageCallback cb = upd (\<lambda>s. s\<lparr>sv_onMsg := Some cb\<rparr>)"

definition TcpServer_setConnectionCallback :: "(nat \<Rightarrow> bool \<Rightarrow> 't) \<Rightarrow> ('t, 'z) server_scheme stmt" where
  "TcpServer_setConnectionCallback cb = upd (\<lambda>s. s\<lparr>sv_onConn := Some cb\<rparr>)"

definition TcpServer_setWriteCompleteCallback :: "(nat \<Rightarrow> 't) \<Rightarrow> ('t, 'z) server_scheme stmt" where
  "TcpServer_setWriteCompleteCallback cb = upd (\<lambda>s. s\<lparr>sv_onWrite := Some cb\<rparr>)"

definition setThreadInitCallback :: "(nat \<Rightarrow> 't) \<Rightarrow> ('t, 'z) server_scheme stmt" where
  "setThreadInitCallback cb = upd (\<lambda>s. s\<lparr>sv_threadInit := Some cb\<rparr>)"

definition TcpServer_setThreadNum :: "64 word \<Rightarrow> ('t, 'z) server_scheme stmt" where
  "TcpServer_setThreadNum num = upd (\<lambda>s. s\<lparr>sv_pool := setThreadNum num (sv_pool s)\<rparr>)"

definition TcpServer_start ::
  "('t \<Rightarrow> ('t, 'z) server_scheme stmt) \<Rightarrow> (nat \<Rightarrow> nat) \<Rightarrow> ('t, 'z) server_scheme stmt" where
  "TcpServer_start exec startLoop = ifElse sv_started Inr (block [
     upd (\<lambda>s. s\<lparr>sv_started := True\<rparr>),
     letIn sv_pool (\<lambda>p. letIn sv_threadInit (\<lambda>cb.
       callE (pool_start startLoop (map_option (\<lambda>f l. exec (f l)) cb) p) (\<lambda>p'. upd (\<lambda>s. s\<lparr>sv_pool := p'\<rparr>)))),
     Acceptor_listen,
     LOG DEBUG])"

text \<open>
  The set of connections is emptied, which destroys those that nothing else owns (a queued task,
  the application).
\<close>

definition clearConns :: "'t serverTasks \<Rightarrow> (nat \<Rightarrow> bool) \<Rightarrow> ('t, 'z) server_scheme stmt" where
  "clearConns K owned = letIn sv_conns (\<lambda>cs. block [
     upd (\<lambda>s. s\<lparr>sv_conns := []\<rparr>),
     block (map (dropPtr (st_conn K) owned) cs)])"

definition TcpServer_stop :: "'t serverTasks \<Rightarrow> (nat \<Rightarrow> bool) \<Rightarrow> ('t, 'z) server_scheme stmt" where
  "TcpServer_stop K owned = block [
     stopListening,
     clearConns K owned,
     LOG DEBUG]"

text \<open>The destructor: its body, then the members that do something, from the last to the first.\<close>

definition TcpServer_dtor ::
  "'t serverTasks \<Rightarrow> (nat \<Rightarrow> 't) \<Rightarrow> (nat \<Rightarrow> bool) \<Rightarrow> ('t, 'z) server_scheme stmt" where
  "TcpServer_dtor K closeTask owned = block [
     LOG DEBUG,
     clearConns K owned,
     Acceptor_dtor closeTask]"

definition newConnection ::
  "('t \<Rightarrow> ('t, 'z) server_scheme stmt) \<Rightarrow> 't serverTasks \<Rightarrow> int \<Rightarrow> endpoint \<Rightarrow> ('t, 'z) server_scheme stmt" where
  "newConnection exec K sockfd peer =
     letIn sv_pool (\<lambda>p. callE (getNextLoop p) (\<lambda>(ownerLoop, p').
     thenDo (upd (\<lambda>s. s\<lparr>sv_pool := p'\<rparr>))
     (callE (getLocalAddr sockfd) (\<lambda>local.
     callE (TcpConnection_ctor (st_conn K) sockfd (EndPoint_in6 (replicate 28 0) local) peer) (\<lambda>c. block [
       upd (\<lambda>s. s\<lparr>sv_owner := (sv_owner s)(c := ownerLoop)\<rparr>),
       letIn sv_onMsg (\<lambda>cb. setMessageCallback cb c),
       letIn sv_onConn (\<lambda>cb. setConnectionCallback cb c),
       letIn sv_onWrite (\<lambda>cb. setWriteCompleteCallback cb c),
       TcpConnection_setCloseCallback (Some (st_remove K)) c,
       upd (\<lambda>s. s\<lparr>sv_conns := List.insert c (sv_conns s)\<rparr>),
       runInOwner ownerLoop (st_established K c) (connectionEstablished exec c)])))))"

definition removeConnectionInLoop :: "'t serverTasks \<Rightarrow> nat \<Rightarrow> ('t, 'z) server_scheme stmt" where
  "removeConnectionInLoop K c = block [
     assertInLoopThread,
     assertThat ''TcpServer::removeConnectionInLoop'' (\<lambda>s. c \<in> set (sv_conns s)),
     upd (\<lambda>s. s\<lparr>sv_conns := remove1 c (sv_conns s)\<rparr>),
     letIn (\<lambda>s. sv_owner s c) (\<lambda>ownerLoop. queueInOwner ownerLoop (st_destroyed K c))]"

definition removeConnection :: "'t serverTasks \<Rightarrow> nat \<Rightarrow> ('t, 'z) server_scheme stmt" where
  "removeConnection K c = runInLoop (st_removeInLoop K c) (removeConnectionInLoop K c)"

section \<open>Accepting\<close>

lemma server_ioStep:
  fixes s s' :: "('t, 'z) server_scheme"
  assumes "ioStep s s'"
  shows "sv_pool s' = sv_pool s" "sv_conns s' = sv_conns s" "sv_owner s' = sv_owner s"
    "sv_onMsg s' = sv_onMsg s" "sv_onConn s' = sv_onConn s" "sv_onWrite s' = sv_onWrite s"
    "sv_remote s' = sv_remote s"
  using assms by (auto simp: ioStep_def)

lemma server_maskStep:
  fixes s s' :: "('t, 'z) server_scheme"
  assumes "maskStep s s'"
  shows "sv_pool s' = sv_pool s" "sv_conns s' = sv_conns s" "sv_owner s' = sv_owner s"
    "sv_remote s' = sv_remote s" "sv_onConn s' = sv_onConn s" "sv_onMsg s' = sv_onMsg s" "sv_onWrite s' = sv_onWrite s"
    "nextChan s' = nextChan s"
  using assms by (auto simp: maskStep_def)

text \<open>The connection as the server hands it to its loop, and the state it is handed in.\<close>

definition acceptedConn ::
  "'t serverTasks \<Rightarrow> int \<Rightarrow> endpoint \<Rightarrow> endpoint \<Rightarrow> ('t, 'z) server_scheme \<Rightarrow> 't conn" where
  "acceptedConn K fd local peer s = (newConn fd (nextChan s) local peer)
     \<lparr>k_onMsg := sv_onMsg s, k_onConn := sv_onConn s, k_onWrite := sv_onWrite s, k_onClose := Some (st_remove K)\<rparr>"

definition nextLoopOf :: "pool \<Rightarrow> nat" where
  "nextLoopOf p = (if p_loops p = [] then p_base p else p_loops p ! unat (p_next p mod of_nat (length (p_loops p))))"

lemma getNextLoop_eq:
  "curTid s = loopTid s \<Longrightarrow> getNextLoop p s = Inr ((nextLoopOf p, p\<lparr>p_next := p_next p + 1\<rparr>), s)"
  by (simp add: getNextLoop_def getLoopForHash_def stmt_defs assertInLoopThread_def nextLoopOf_def)

text \<open>
  Up to the hand-over a new connection is only recorded: the connection and its channel are in
  the heaps, the connection in the set, and the kernel's interests are as before.
\<close>

lemma newConnection_prepare:
  assumes tid: "curTid s = loopTid s"
  obtains t l ch where
    "newConnection exec K fd peer s = runInOwner (nextLoopOf (sv_pool s)) (st_established K (nextConn s))
       (connectionEstablished exec (nextConn s)) t"
    "connHeap t = (connHeap s)(nextConn s \<mapsto> acceptedConn K fd l peer s)"
    "chans t = (chans s)(nextChan s \<mapsto> ch)" "c_fd ch = fd" "c_events ch = 0" "\<not> c_added ch"
    "interest (trace t) = interest (trace s)" "curTid t = loopTid t"
    "sv_conns t = List.insert (nextConn s) (sv_conns s)" "sv_pool t = (sv_pool s)\<lparr>p_next := p_next (sv_pool s) + 1\<rparr>"
    "sv_owner t = (sv_owner s)(nextConn s := nextLoopOf (sv_pool s))" "sv_remote t = sv_remote s"
    "nextConn t = Suc (nextConn s)" "nextChan t = Suc (nextChan s)" "tasks t = tasks s"
    "sv_onConn t = sv_onConn s" "sv_onMsg t = sv_onMsg s" "sv_onWrite t = sv_onWrite s"
proof -
  let ?c = "nextConn s" and ?p = "(sv_pool s)\<lparr>p_next := p_next (sv_pool s) + 1\<rparr>" and ?l = "nextLoopOf (sv_pool s)"
  let ?s0 = "s\<lparr>sv_pool := ?p\<rparr>"
  obtain a s1 where s1: "getLocalAddr fd ?s0 = Inr (a, s1)" "ioStep ?s0 s1" "tasks s1 = tasks ?s0" by (rule getLocalAddr_ok)
  note f1 = ioStep_frame[OF s1(2)] server_ioStep[OF s1(2)]
  let ?loc = "EndPoint_in6 (replicate 28 0) a"
  obtain s2 ch where s2: "TcpConnection_ctor (st_conn K) fd ?loc peer s1 = Inr (nextConn s1, s2)"
    "ioStep (s1\<lparr>nextChan := Suc (nextChan s1), nextConn := Suc (nextConn s1),
       connHeap := (connHeap s1)(nextConn s1 \<mapsto> newConn fd (nextChan s1) ?loc peer),
       chans := (chans s1)(nextChan s1 \<mapsto> ch)\<rparr>) s2" "c_fd ch = fd" "\<not> c_added ch" "c_events ch = 0" "tasks s2 = tasks s1"
    by (rule TcpConnection_ctor_ok)
  note f2 = ioStep_frame[OF s2(2)] server_ioStep[OF s2(2)]
  let ?k = "acceptedConn K fd ?loc peer s"
  let ?t = "s2\<lparr>sv_owner := (sv_owner s2)(?c := ?l), connHeap := (connHeap s2)(?c \<mapsto> ?k),
    sv_conns := List.insert ?c (sv_conns s2)\<rparr>"
  have "newConnection exec K fd peer s = runInOwner ?l (st_established K ?c) (connectionEstablished exec ?c) ?t"
    using s1(1) s2(1) f1 f2 by (simp add: newConnection_def getNextLoop_eq[OF tid] callE_def letIn_def thenDo_def
        upd_def setMessageCallback_def setConnectionCallback_def setWriteCompleteCallback_def
        TcpConnection_setCloseCallback_def modConn_def withConn_def acceptedConn_def newConn_def)
  then show thesis
    by (rule that[where ch = ch]) (use f1 f2 s1(3) s2(3-6) tid in \<open>simp_all\<close>)
qed

lemma enroll_base:
  assumes s: "curTid s = loopTid s" "pollSynced s" "sv_onConn s = Some f"
    and fresh: "\<And>cid ch. chans s cid = Some ch \<Longrightarrow> cid < nextChan s"
    and sole: "\<And>cid ch. chans s cid = Some ch \<Longrightarrow> c_added ch \<Longrightarrow> c_fd ch \<noteq> fd"
    and base: "nextLoopOf (sv_pool s) = p_base (sv_pool s)"
  obtains s1 where "newConnection exec K fd peer s = exec (f (nextConn s) True) s1" "connUp (nextConn s) fd s1"
    "pending (nextConn s) s1 = []" "interest (trace s1) fd = Some (kReadEvent, nextChan s)"
    "sv_conns s1 = List.insert (nextConn s) (sv_conns s)"
    "sv_pool s1 = (sv_pool s)\<lparr>p_next := p_next (sv_pool s) + 1\<rparr>" "sv_owner s1 (nextConn s) = p_base (sv_pool s)"
    "\<exists>l. connHeap s1 = (connHeap s)(nextConn s \<mapsto> (acceptedConn K fd l peer s)\<lparr>k_status := Connected\<rparr>)"
    "\<exists>ch. chans s1 = (chans s)(nextChan s \<mapsto> ch) \<and> c_fd ch = fd \<and> c_added ch"
    "nextConn s1 = Suc (nextConn s)" "nextChan s1 = Suc (nextChan s)" "tasks s1 = tasks s"
    "sv_owner s1 = (sv_owner s)(nextConn s := p_base (sv_pool s))"
    "sv_onConn s1 = sv_onConn s" "sv_onMsg s1 = sv_onMsg s" "sv_onWrite s1 = sv_onWrite s"
proof -
  let ?c = "nextConn s"
  obtain t l ch where t: "newConnection exec K fd peer s = runInOwner (p_base (sv_pool s)) (st_established K ?c)
       (connectionEstablished exec ?c) t"
    "connHeap t = (connHeap s)(?c \<mapsto> acceptedConn K fd l peer s)"
    "chans t = (chans s)(nextChan s \<mapsto> ch)" "c_fd ch = fd" "c_events ch = 0" "\<not> c_added ch"
    "interest (trace t) = interest (trace s)" "curTid t = loopTid t"
    "sv_conns t = List.insert ?c (sv_conns s)" "sv_pool t = (sv_pool s)\<lparr>p_next := p_next (sv_pool s) + 1\<rparr>"
    "sv_owner t = (sv_owner s)(?c := p_base (sv_pool s))"
    "nextConn t = Suc (nextConn s)" "nextChan t = Suc (nextChan s)" "tasks t = tasks s"
    "sv_onConn t = sv_onConn s" "sv_onMsg t = sv_onMsg s" "sv_onWrite t = sv_onWrite s"
    by (rule newConnection_prepare[OF s(1), of exec K fd peer, unfolded base]) (rule that; assumption)
  let ?k = "acceptedConn K fd l peer s"
  have old: "chans s cid = Some ch' \<Longrightarrow> cid \<noteq> nextChan s" for cid ch' using fresh by blast
  have sy: "pollSynced t" using s(2) t(3,6,7) old by (auto simp: pollSynced_def)
  have k: "connHeap t ?c = Some ?k" "chans t (k_chan ?k) = Some ch"
    using t(2,3) by (simp_all add: acceptedConn_def newConn_def)
  have fr: "k_status ?k = Connecting" "k_onConn ?k = Some f" "content (k_out ?k) = []" "buf_wf (k_out ?k)"
      "buf_wf (k_in ?k)" "c_fd ch = k_sock ?k" "k_sock ?k = fd" "k_chan ?k = nextChan s"
    using s(3) t(4) by (simp_all add: acceptedConn_def newConn_def buf_wf_def content_def mkBuffer_def)
  have so: "\<And>cid' ch'. cid' \<noteq> k_chan ?k \<Longrightarrow> chans t cid' = Some ch' \<Longrightarrow> c_added ch' \<Longrightarrow> c_fd ch' \<noteq> c_fd ch"
    using sole t(3,4) fr(8) by auto
  obtain s1 where s1: "connectionEstablished exec ?c t = exec (f ?c True) s1" "connUp ?c (k_sock ?k) s1"
    "maskStep (t\<lparr>connHeap := (connHeap t)(?c \<mapsto> ?k\<lparr>k_status := Connected\<rparr>)\<rparr>) s1"
    "interest (trace s1) (k_sock ?k) = Some (kReadEvent, k_chan ?k)"
    "chans s1 = (chans t)(k_chan ?k \<mapsto> ch\<lparr>c_events := kReadEvent, c_added := True\<rparr>)"
    by (rule connectionEstablished_ok[OF sy t(8) k fr(1-6) t(5) so])
  note sf = server_maskStep[OF s1(3)] maskStep_frame[OF s1(3)]
  let ?ch = "ch\<lparr>c_events := kReadEvent, c_added := True\<rparr>"
  have "chans s1 = (chans s)(nextChan s \<mapsto> ?ch) \<and> c_fd ?ch = fd \<and> c_added ?ch" using s1(5) t(3,4) fr(8) by simp
  then have chs: "\<exists>ch. chans s1 = (chans s)(nextChan s \<mapsto> ch) \<and> c_fd ch = fd \<and> c_added ch" by blast
  have heap: "\<exists>l. connHeap s1 = (connHeap s)(?c \<mapsto> (acceptedConn K fd l peer s)\<lparr>k_status := Connected\<rparr>)"
    using sf(9) t(2) by auto
  show thesis
    by (rule that[OF _ _ _ _ _ _ _ heap chs]) (use t s1 fr sf in \<open>simp_all add: runInOwner_def ifElse_def baseLoop_def
        runInLoop_def isInLoopThread_def pending_def\<close>)
qed

section \<open>Removing\<close>

text \<open>The set and the owner's queue after a removal on the base loop.\<close>

lemma removeConnectionInLoop_eq:
  "curTid s = loopTid s \<Longrightarrow> removeConnectionInLoop K c s =
     (if c \<in> set (sv_conns s) then queueInOwner (sv_owner s c) (st_destroyed K c) (s\<lparr>sv_conns := remove1 c (sv_conns s)\<rparr>)
      else Inl (AssertFailed ''TcpServer::removeConnectionInLoop''))"
  by (simp add: removeConnectionInLoop_def assertInLoopThread_def assertThat_def upd_def letIn_def)

section \<open>Properties\<close>


definition demoServerTasks :: "nat serverTasks" where
  "demoServerTasks = \<lparr>st_conn = \<lparr>ct_read = (\<lambda>c. 1), ct_write = (\<lambda>c. 2), ct_close = (\<lambda>c. 3), ct_error = (\<lambda>c. 4),
       ct_forceClose = (\<lambda>c. 5), ct_shutdown = (\<lambda>c. 6), ct_send = (\<lambda>c xs. 7), ct_chanClose = (\<lambda>c. 8)\<rparr>,
     st_newConn = (\<lambda>fd p. 9), st_remove = (\<lambda>c. 10), st_removeInLoop = (\<lambda>c. 11), st_established = (\<lambda>c. 12),
     st_destroyed = (\<lambda>c. 13), st_acceptRead = 14, st_defaultConn = (\<lambda>c up. 15), st_defaultMsg = (\<lambda>c. 16)\<rparr>"

text \<open>A listening server with one open connection (number 0, on descriptor 9).\<close>

definition demoServer :: "nat server" where
  "demoServer = acceptor.extend ((demoAcceptor okAns True)\<lparr>
       chans := [3 \<mapsto> (mkChannel 8 True)\<lparr>c_added := True, c_events := kReadEvent\<rparr>,
                 4 \<mapsto> (mkChannel 9 True)\<lparr>c_added := True, c_events := kReadEvent\<rparr>], nextChan := 5,
       trace := [SysEpollCtl EPOLL_CTL_ADD 8 kReadEvent 3, SysEpollCtl EPOLL_CTL_ADD 9 kReadEvent 4],
       connHeap := [0 \<mapsto> (newConn 9 4 [] [])\<lparr>k_status := Connected, k_onConn := Some (\<lambda>c up. 15),
                          k_onClose := Some (st_remove demoServerTasks)\<rparr>], nextConn := 1\<rparr>)
     \<lparr>sv_started = True, sv_pool = EventLoopThreadPool_ctor 0, sv_onConn = Some (\<lambda>c up. 15), sv_onMsg = None,
      sv_onWrite = None, sv_conns = [0], sv_threadInit = None, sv_owner = (\<lambda>_. 0), sv_remote = []\<rparr>"

lemmas demoServer_defs = demoServer_def acceptor.defs demoAcceptor_defs

lemma demoServer_synced: "pollSynced demoServer" "curTid demoServer = loopTid demoServer"
  by (simp_all add: pollSynced_def demoServer_defs mkChannel_def interest_def interestStep_def mask_defs)


text \<open>An open connection of the server after \<^verbatim>\<open>stop\<close>.\<close>

lemma block_drop: "\<forall>c \<in> set cs. owned c \<Longrightarrow> block (map (dropPtr K owned) cs) = Inr"
  by (induction cs) (auto simp: dropPtr_def fun_eq_iff)

lemma TcpServer_stop_ok:
  fixes s :: "('t, 'z) server_scheme"
  assumes "curTid s = loopTid s" and "chans s (ac_chan s) = Some ch" and "c_added ch"
    and up: "connUp c fd s" and k: "connHeap s c = Some k" "k_chan k \<noteq> ac_chan s"
    and owned: "\<forall>c \<in> set (sv_conns s). owned c"
  obtains s1 where "TcpServer_stop K owned s = Inr s1" "connUp c fd s1" "connHeap s1 = connHeap s" "sv_conns s1 = []"
    "curTid s1 = loopTid s1"
proof -
  obtain k' ch' where k': "pollSynced s" "connHeap s c = Some k'" "chans s (k_chan k') = Some ch'"
    by (rule connUpE[OF up])
  obtain s2 tr ix e lo sk where st:
    "stopListening s = Inr (s2\<lparr>trace := trace s2 @ tr, envIx := ix, errno := e, logOut := lo, ac_sock := sk\<rparr>)"
    "maskStep (s\<lparr>ac_listening := False\<rparr>) s2" "pollSynced s2"
    "chans s2 = (chans s)(ac_chan s \<mapsto> ch\<lparr>c_events := c_events ch AND NOT kReadEvent,
       c_added := c_events ch AND NOT kReadEvent \<noteq> 0\<rparr>)" "\<forall>c \<in> set tr. \<not> isCtl c"
    by (rule stopListening_ok[OF assms(1) k'(1) assms(2,3)]) (rule that; assumption)
  let ?t = "s2\<lparr>trace := trace s2 @ tr, envIx := ix, errno := e, logOut := lo, ac_sock := sk, sv_conns := []\<rparr>"
  note fr = maskStep_frame[OF st(2)]
  have sy: "pollSynced ?t" using st(3) interest_append[OF st(5)] by (simp add: pollSynced_def)
  show thesis
  proof (rule that[of "logged DEBUG ?t"])
    have "set (sv_conns s) = set (sv_conns s2)" using server_maskStep(2)[OF st(2)] by simp
    then have "block (map (dropPtr (st_conn K) owned) (sv_conns s2)) t = Inr t" for t :: "('t, 'z) server_scheme"
      using owned by (simp add: block_drop)
    then show "TcpServer_stop K owned s = Inr (logged DEBUG ?t)"
      using st(1) by (simp add: TcpServer_stop_def clearConns_def letIn_def upd_def)
    have "connUp c fd ?t" using up sy fr st(4) k assms(1) by (auto simp: connUp_def)
    then show "connUp c fd (logged DEBUG ?t)" by (rule connUp_ioStep[OF ioStep_logged])
  qed (use fr assms(1) in simp_all)
qed

definition forgotten :: "'t serverTasks \<Rightarrow> nat \<Rightarrow> ('t, 'z) server_scheme \<Rightarrow> bool" where
  "forgotten K c s \<longleftrightarrow> curTid s = loopTid s \<and> sv_conns s = [] \<and>
     (\<exists>k. connHeap s c = Some k \<and> k_onClose k = Some (st_remove K))"

text \<open>
  C38. Stopping a server dooms the open connections it shares with others: \<^verbatim>\<open>stop\<close> forgets them
  without closing them, so each goes on working, and when it closes, by the peer or from this side, its close callback
  asks the server to remove a connection it no longer has, and the assertion on the set aborts the
  process.
\<close>

theorem stop_dooms_connections:
  assumes "chans s (ac_chan s) = Some ch" and "c_added ch"
    and "connUp c fd s" and "connHeap s c = Some k" and "k_chan k \<noteq> ac_chan s"
    and "k_onConn k = Some f" and "k_onClose k = Some (st_remove K)"
    and "exec (st_remove K c) = removeConnection K c"
    and "\<forall>c \<in> set (sv_conns s). owned c"
    and "ensures (forgotten K c) (exec (f c False)) (forgotten K c)"
  shows "\<exists>s1. TcpServer_stop K owned s = Inr s1 \<and> connUp c fd s1 \<and>
    handleClose exec c s1 = Inl (AssertFailed ''TcpServer::removeConnectionInLoop'')"
proof -
  have "curTid s = loopTid s" using assms(3) by (simp add: connUp_def)
  then obtain s1 where s1: "TcpServer_stop K owned s = Inr s1" "connUp c fd s1" "connHeap s1 = connHeap s" "sv_conns s1 = []"
    "curTid s1 = loopTid s1"
    by (rule TcpServer_stop_ok[OF _ assms(1-5,9)])
  have k1: "connHeap s1 c = Some k" using s1(3) assms(4) by simp
  let ?k = "k\<lparr>k_status := Disconnected\<rparr>"
  obtain s2 where s2: "handleClose exec c s1 = andThen (exec (f c False) s2) (withConn ''handleClose'' c (\<lambda>k.
       case k_onClose k of None \<Rightarrow> (\<lambda>_. Inl (BadFunctionCall ''_onCloseCb'')) | Some g \<Rightarrow> exec (g c)))"
    "connHeap s2 = (connHeap s1)(c \<mapsto> ?k)" "curTid s2 = loopTid s2"
    "maskStep (s1\<lparr>connHeap := (connHeap s1)(c \<mapsto> ?k)\<rparr>) s2"
    by (rule handleClose_ok[OF s1(2) k1 assms(6)])
  have "sv_conns s2 = []" using server_maskStep(2)[OF s2(4)] s1(4) by simp
  then have "forgotten K c s2" using s2(2-3) assms(7) by (simp add: forgotten_def)
  then obtain s3 where s3: "exec (f c False) s2 = Inr s3" "forgotten K c s3" using ensuresD[OF assms(10)] by blast
  then show ?thesis using s1(1,2) s2(1) assms(8)
    by (auto simp: forgotten_def withConn_def removeConnection_def runInLoop_def ifElse_def isInLoopThread_def
        removeConnectionInLoop_eq)
qed

lemma demoServer_up: "connUp 0 9 demoServer"
proof -
  have "kReadEvent \<noteq> 0" "kReadEvent AND kWriteEvent = 0" by (simp_all add: mask_defs)
  then show ?thesis using demoServer_synced
    by (simp add: connUp_def demoServer_defs mkChannel_def newConn_def buf_wf_def content_def mkBuffer_def
        isWriting_def)
qed

theorem stop_dooms_connections_witness:
  "\<exists>s1. TcpServer_stop demoServerTasks (\<lambda>_. True) demoServer = Inr s1 \<and> connUp 0 9 s1 \<and>
     handleClose (\<lambda>t. if t = 10 then removeConnection demoServerTasks 0 else Inr) 0 s1 =
       Inl (AssertFailed ''TcpServer::removeConnectionInLoop'')"
proof -
  let ?exec = "(\<lambda>t. if t = 10 then removeConnection demoServerTasks 0 else Inr) :: nat \<Rightarrow> nat server stmt"
  let ?k = "(newConn 9 4 [] [])\<lparr>k_status := Connected, k_onConn := Some (\<lambda>c up. 15),
      k_onClose := Some (st_remove demoServerTasks)\<rparr>"
  have s: "chans demoServer (ac_chan demoServer) = Some ((mkChannel 8 True)\<lparr>c_added := True, c_events := kReadEvent\<rparr>)"
    "connHeap demoServer 0 = Some ?k" "k_chan ?k \<noteq> ac_chan demoServer"
    "k_onConn ?k = Some (\<lambda>c up. 15)" "k_onClose ?k = Some (st_remove demoServerTasks)"
    by (simp_all add: demoServer_defs newConn_def)
  have e: "?exec (st_remove demoServerTasks 0) = removeConnection demoServerTasks 0"
    by (simp add: demoServerTasks_def)
  have p: "ensures (forgotten demoServerTasks 0) (?exec ((\<lambda>c up. 15 :: nat) 0 False)) (forgotten demoServerTasks 0)"
    by (simp add: ensures_def)
  show ?thesis
    using stop_dooms_connections[OF s(1) _ demoServer_up s(2-5), of ?exec "\<lambda>_. True", OF _ e _ p] by simp
qed

end
