(* ===== verification/TcpClient.thy ===== *)
theory TcpClient
  imports Connector
begin

text \<open>
  src/net/TcpClient.h and TcpClient.cpp: a client that keeps at most one connection. The state is
  that of its loop with its connector. The client itself is a plain object whose member functions
  are bound to its address: \<open>cl_alive\<close> says whether it still exists, and a member function run
  after its destruction is the fault \<open>UseAfterFree\<close>. Who else owns a connection (a queued task, the
  application) is not part of the state: \<open>owned\<close>, an argument, says whether another
  \<^verbatim>\<open>shared_ptr\<close> to it exists.
\<close>

record 't client = "'t connector" +
  cl_alive :: bool
  cl_retry :: bool
  cl_connFlag :: bool
  cl_onConn :: "(nat \<Rightarrow> bool \<Rightarrow> 't) option"
  cl_onMsg :: "(nat \<Rightarrow> 't) option"
  cl_onWrite :: "(nat \<Rightarrow> 't) option"
  cl_conn :: "nat option"

lemma client_frame [simp]:
  "cl_alive (logged l s) = cl_alive s" "cl_alive (afterSys c s) = cl_alive s"
  "cl_retry (logged l s) = cl_retry s" "cl_retry (afterSys c s) = cl_retry s"
  "cl_connFlag (logged l s) = cl_connFlag s" "cl_connFlag (afterSys c s) = cl_connFlag s"
  "cl_onConn (logged l s) = cl_onConn s" "cl_onConn (afterSys c s) = cl_onConn s"
  "cl_onMsg (logged l s) = cl_onMsg s" "cl_onMsg (afterSys c s) = cl_onMsg s"
  "cl_onWrite (logged l s) = cl_onWrite s" "cl_onWrite (afterSys c s) = cl_onWrite s"
  "cl_conn (logged l s) = cl_conn s" "cl_conn (afterSys c s) = cl_conn s"
  by (simp_all add: logged_def afterSys_def)

text \<open>The tasks the client makes of member functions, its own and those of what it owns.\<close>

record 't clientTasks =
  tk_conn :: "'t connTasks"
  tk_connector :: "'t connectorTasks"
  tk_newConn :: "int \<Rightarrow> 't"
  tk_removeByPeer :: "nat \<Rightarrow> 't"
  tk_remove :: "nat \<Rightarrow> 't"
  tk_destroyed :: "nat \<Rightarrow> 't"
  tk_setClose :: "nat \<Rightarrow> 't"
  tk_defaultConn :: "nat \<Rightarrow> bool \<Rightarrow> 't"

definition withClient :: "string \<Rightarrow> ('t, 'z) client_scheme stmt \<Rightarrow> ('t, 'z) client_scheme stmt" where
  "withClient who f = ifElse cl_alive f (\<lambda>_. Inl (UseAfterFree who))"

text \<open>A \<^verbatim>\<open>shared_ptr\<close> to a connection goes.\<close>

definition release ::
  "'t clientTasks \<Rightarrow> (nat \<Rightarrow> bool) \<Rightarrow> nat option \<Rightarrow> ('t, 'z) client_scheme stmt" where
  "release K owned p = (case p of None \<Rightarrow> Inr
     | Some c \<Rightarrow> dropPtr (tk_conn K) owned c)"

section \<open>The class\<close>

definition TcpClient_ctor :: "'t clientTasks \<Rightarrow> endpoint \<Rightarrow> ('t, 'z) client_scheme stmt" where
  "TcpClient_ctor K peer = block [
     Connector_ctor peer,
     upd (\<lambda>s. s\<lparr>cl_alive := True, cl_retry := False, cl_connFlag := True, cl_onConn := Some (tk_defaultConn K),
       cl_onMsg := None, cl_onWrite := None, cl_conn := None\<rparr>),
     Connector_setNewConnectionCallback (tk_newConn K)]"

definition TcpClient_retry :: "('t, 'z) client_scheme \<Rightarrow> bool" where
  "TcpClient_retry s = cl_retry s"

definition enableRetry :: "('t, 'z) client_scheme stmt" where
  "enableRetry = upd (\<lambda>s. s\<lparr>cl_retry := True\<rparr>)"

definition TcpClient_setConnectionCallback :: "(nat \<Rightarrow> bool \<Rightarrow> 't) \<Rightarrow> ('t, 'z) client_scheme stmt" where
  "TcpClient_setConnectionCallback cb = upd (\<lambda>s. s\<lparr>cl_onConn := Some cb\<rparr>)"

definition TcpClient_setMessageCallback :: "(nat \<Rightarrow> 't) \<Rightarrow> ('t, 'z) client_scheme stmt" where
  "TcpClient_setMessageCallback cb = upd (\<lambda>s. s\<lparr>cl_onMsg := Some cb\<rparr>)"

definition TcpClient_setWriteCompleteCallback :: "(nat \<Rightarrow> 't) \<Rightarrow> ('t, 'z) client_scheme stmt" where
  "TcpClient_setWriteCompleteCallback cb = upd (\<lambda>s. s\<lparr>cl_onWrite := Some cb\<rparr>)"

definition TcpClient_connect :: "'t clientTasks \<Rightarrow> ('t, 'z) client_scheme stmt" where
  "TcpClient_connect K = block [
     upd (\<lambda>s. s\<lparr>cl_connFlag := True\<rparr>),
     Connector_start (tk_connector K)]"

definition TcpClient_disconnect :: "'t clientTasks \<Rightarrow> ('t, 'z) client_scheme stmt" where
  "TcpClient_disconnect K = block [
     upd (\<lambda>s. s\<lparr>cl_connFlag := False\<rparr>),
     letIn cl_conn (\<lambda>conn. case conn of None \<Rightarrow> Inr | Some c \<Rightarrow> shutdown (tk_conn K) c)]"

definition TcpClient_stop :: "'t clientTasks \<Rightarrow> ('t, 'z) client_scheme stmt" where
  "TcpClient_stop K = block [
     upd (\<lambda>s. s\<lparr>cl_connFlag := False\<rparr>),
     Connector_stop (tk_connector K)]"

section \<open>Connections\<close>

definition TcpClient_newConnection ::
  "('t \<Rightarrow> ('t, 'z) client_scheme stmt) \<Rightarrow> 't clientTasks \<Rightarrow> (nat \<Rightarrow> bool) \<Rightarrow> int \<Rightarrow> ('t, 'z) client_scheme stmt" where
  "TcpClient_newConnection exec K owned sockfd = withClient ''TcpClient::newConnection'' (
     thenDo assertInLoopThread
     (callE (getLocalAddr sockfd) (\<lambda>local.
      callE (getPeerAddr sockfd) (\<lambda>peer.
      callE (TcpConnection_ctor (tk_conn K) sockfd (EndPoint_in6 (replicate 28 0) local)
          (EndPoint_in6 (replicate 28 0) peer)) (\<lambda>c. block [
        letIn cl_onMsg (\<lambda>cb. setMessageCallback cb c),
        letIn cl_onConn (\<lambda>cb. setConnectionCallback cb c),
        letIn cl_onWrite (\<lambda>cb. setWriteCompleteCallback cb c),
        TcpConnection_setCloseCallback (Some (tk_removeByPeer K)) c,
        letIn cl_conn (\<lambda>old. block [
          upd (\<lambda>s. s\<lparr>cl_conn := Some c\<rparr>),
          release K owned old]),
        connectionEstablished exec c])))))"

definition removeConnectionByPeer :: "'t clientTasks \<Rightarrow> nat \<Rightarrow> ('t, 'z) client_scheme stmt" where
  "removeConnectionByPeer K c = withClient ''TcpClient::removeConnectionByPeer'' (block [
     assertThat ''TcpClient::removeConnectionByPeer'' (\<lambda>s. cl_conn s = Some c),
     upd (\<lambda>s. s\<lparr>cl_conn := None\<rparr>),
     queueInLoop (tk_destroyed K c),
     doIf (\<lambda>s. cl_retry s \<and> cl_connFlag s) (block [
       LOG DEBUG,
       Connector_restart (tk_connector K)])])"

definition TcpClient_removeConnection :: "'t clientTasks \<Rightarrow> nat \<Rightarrow> ('t, 'z) client_scheme stmt" where
  "TcpClient_removeConnection K c = withClient ''TcpClient::removeConnection'' (queueInLoop (tk_destroyed K c))"

text \<open>
  The destructor. \<^verbatim>\<open>unique\<close> is read first; the local copy of the pointer and the member go at the
  end, when the tasks just queued may own the connection too; the connector (which its channel and its queued tasks own too) is left to them.
\<close>

definition TcpClient_dtor :: "'t clientTasks \<Rightarrow> (nat \<Rightarrow> bool) \<Rightarrow> ('t, 'z) client_scheme stmt" where
  "TcpClient_dtor K owned = letIn cl_conn (\<lambda>conn. block [
     (case conn of
        Some c \<Rightarrow> block [
          runInLoop (tk_setClose K c) (TcpConnection_setCloseCallback (Some (tk_remove K)) c),
          doIf (\<lambda>_. \<not> owned c) (forceClose (tk_conn K) c)]
      | None \<Rightarrow> Connector_stop (tk_connector K)),
     upd (\<lambda>s. s\<lparr>cl_alive := False, cl_conn := None\<rparr>),
     letIn tasks (\<lambda>ts. release K (\<lambda>c. owned c \<or> ct_forceClose (tk_conn K) c \<in> set ts \<or> tk_setClose K c \<in> set ts) conn)])"

section \<open>Properties\<close>

lemma client_maskStep:
  fixes s s' :: "('t, 'z) client_scheme"
  assumes "maskStep s s'"
  shows "cl_alive s' = cl_alive s" "cl_conn s' = cl_conn s" "cl_retry s' = cl_retry s" "cl_connFlag s' = cl_connFlag s"
  using assms by (auto simp: maskStep_def)

lemma client_ioStep:
  fixes s s' :: "('t, 'z) client_scheme"
  assumes "ioStep s s'"
  shows "cl_alive s' = cl_alive s" "cl_conn s' = cl_conn s" "cl_retry s' = cl_retry s" "cl_connFlag s' = cl_connFlag s"
    "cn_status s' = cn_status s" "cn_chan s' = cn_chan s" "cn_connFlag s' = cn_connFlag s"
  using assms by (auto simp: ioStep_def)

text \<open>Queueing a task, with what it leaves of a connection.\<close>

lemma connUp_fields:
  assumes "connUp c fd s" "connHeap s c = Some k"
    and "k_chan k' = k_chan k" "k_sock k' = k_sock k" "k_out k' = k_out k" "k_in k' = k_in k"
    and "k_status k' = Connected \<or> k_status k' = Disconnecting"
  shows "connUp c fd (s\<lparr>connHeap := (connHeap s)(c \<mapsto> k')\<rparr>)"
  using assms by (auto simp: connUp_def pollSynced_def)

definition orphaned :: "'t clientTasks \<Rightarrow> nat \<Rightarrow> ('t, 'z) client_scheme \<Rightarrow> bool" where
  "orphaned K c s \<longleftrightarrow> \<not> cl_alive s \<and> (\<exists>k. connHeap s c = Some k \<and> k_onClose k = Some (tk_remove K))"

lemma TcpClient_dtor_ok:
  assumes up: "connUp c fd s" and k: "connHeap s c = Some k" and conn: "cl_conn s = Some c" and own: "\<not> owned c"
  obtains s1 where "TcpClient_dtor K owned s = Inr s1" "connUp c fd s1" "\<not> cl_alive s1"
    "connHeap s1 = (connHeap s)(c \<mapsto> k\<lparr>k_onClose := Some (tk_remove K), k_status := Disconnecting\<rparr>)"
    "tasks s1 = tasks s @ [ct_forceClose (tk_conn K) c]"
proof -
  have tid: "curTid s = loopTid s" and st: "k_status k = Connected \<or> k_status k = Disconnecting"
    using up k by (auto simp: connUp_def)
  let ?k = "k\<lparr>k_onClose := Some (tk_remove K), k_status := Disconnecting\<rparr>" and ?t = "ct_forceClose (tk_conn K) c"
  let ?s1 = "s\<lparr>connHeap := (connHeap s)(c \<mapsto> ?k)\<rparr>"
  have up1: "connUp c fd ?s1" by (rule connUp_fields[OF up k]) simp_all
  obtain s2 where s2: "queueInLoop ?t ?s1 = Inr s2" "ioStep ?s1 s2" by (rule ioStep_queueInLoop)
  obtain s2' where s2': "queueInLoop ?t ?s1 = Inr s2'" "tasks s2' = tasks ?s1 @ [?t]" by (rule queueInLoop_ok)
  have t2: "tasks s2 = tasks s @ [?t]" using s2(1) s2' by simp
  note up2 = connUp_ioStep(1)[OF s2(2) up1] and fr = ioStep_frame[OF s2(2)] client_ioStep[OF s2(2)]
  let ?u = "s2\<lparr>cl_alive := False, cl_conn := None\<rparr>"
  show thesis
  proof (rule that[of ?u])
    have set: "TcpConnection_setCloseCallback (Some (tk_remove K)) c s =
        Inr (s\<lparr>connHeap := (connHeap s)(c \<mapsto> k\<lparr>k_onClose := Some (tk_remove K)\<rparr>)\<rparr>)"
      using k by (simp add: TcpConnection_setCloseCallback_def modConn_def withConn_def)
    have force: "forceClose (tk_conn K) c (s\<lparr>connHeap := (connHeap s)(c \<mapsto> k\<lparr>k_onClose := Some (tk_remove K)\<rparr>)\<rparr>) = Inr s2"
      using st s2(1) by (simp add: forceClose_def withConn_def setNetStatus_def modConn_def)
    show "TcpClient_dtor K owned s = Inr ?u"
      using conn own tid t2 set force
      by (simp add: TcpClient_dtor_def letIn_def runInLoop_def ifElse_def isInLoopThread_def doIf_def upd_def release_def dropPtr_def)
    show "connUp c fd ?u" using up2 by (simp add: connUp_def pollSynced_def)
  qed (use t2 fr in simp_all)
qed

text \<open>
  C39. Destroying a client with an open connection that nobody else owns uses the client after its
  destruction: the destructor gives the connection a close callback bound to the client being
  destroyed and forces it to close in a queued task; when the loop runs that task, the callback
  calls \<^verbatim>\<open>removeConnection\<close> on the destroyed client.
\<close>

theorem client_dtor_use_after_free:
  assumes "connUp c fd s" and "connHeap s c = Some k" and "k_onConn k = Some f"
    and "cl_conn s = Some c" and "\<not> owned c"
    and "exec (tk_remove K c) = TcpClient_removeConnection K c"
    and "ensures (orphaned K c) (exec (f c False)) (orphaned K c)"
  shows "\<exists>s1. TcpClient_dtor K owned s = Inr s1 \<and> tasks s1 = tasks s @ [ct_forceClose (tk_conn K) c] \<and>
    forceCloseInLoop exec c s1 = Inl (UseAfterFree ''TcpClient::removeConnection'')"
proof -
  let ?k = "k\<lparr>k_onClose := Some (tk_remove K), k_status := Disconnecting\<rparr>"
  obtain s1 where s1: "TcpClient_dtor K owned s = Inr s1" "connUp c fd s1" "\<not> cl_alive s1"
    "connHeap s1 = (connHeap s)(c \<mapsto> ?k)" "tasks s1 = tasks s @ [ct_forceClose (tk_conn K) c]"
    by (rule TcpClient_dtor_ok[where owned = owned, OF assms(1,2,4,5)])
  have k1: "connHeap s1 c = Some ?k" "k_onConn ?k = Some f" using s1(4) assms(3) by simp_all
  obtain s2 where s2: "handleClose exec c s1 = andThen (exec (f c False) s2) (withConn ''handleClose'' c (\<lambda>k.
       case k_onClose k of None \<Rightarrow> (\<lambda>_. Inl (BadFunctionCall ''_onCloseCb'')) | Some g \<Rightarrow> exec (g c)))"
    "connHeap s2 = (connHeap s1)(c \<mapsto> ?k\<lparr>k_status := Disconnected\<rparr>)"
    "maskStep (s1\<lparr>connHeap := (connHeap s1)(c \<mapsto> ?k\<lparr>k_status := Disconnected\<rparr>)\<rparr>) s2"
    by (rule handleClose_ok[OF s1(2) k1])
  have "orphaned K c s2" using client_maskStep(1)[OF s2(3)] s1(3) s2(2) by (simp add: orphaned_def)
  then obtain s3 where s3: "exec (f c False) s2 = Inr s3" "orphaned K c s3" using ensuresD[OF assms(7)] by blast
  have "handleClose exec c s1 = Inl (UseAfterFree ''TcpClient::removeConnection'')"
    using s2(1) s3 assms(6)
    by (auto simp: orphaned_def withConn_def TcpClient_removeConnection_def withClient_def ifElse_def)
  moreover have "curTid s1 = loopTid s1" using s1(2) by (simp add: connUp_def)
  ultimately show ?thesis using s1(1,5) k1(1)
    by (intro exI[of _ s1]) (simp add: forceCloseInLoop_def assertInLoopThread_def assertThat_def withConn_def)
qed

definition demoClientTasks :: "nat clientTasks" where
  "demoClientTasks = \<lparr>tk_conn = \<lparr>ct_read = (\<lambda>c. 10), ct_write = (\<lambda>c. 11), ct_close = (\<lambda>c. 12), ct_error = (\<lambda>c. 13),
       ct_forceClose = (\<lambda>c. 14), ct_shutdown = (\<lambda>c. 15), ct_send = (\<lambda>c xs. 16), ct_chanClose = (\<lambda>c. 17)\<rparr>,
     tk_connector = demoConnTasks, tk_newConn = (\<lambda>fd. 20), tk_removeByPeer = (\<lambda>c. 21), tk_remove = (\<lambda>c. 22),
     tk_destroyed = (\<lambda>c. 23), tk_setClose = (\<lambda>c. 24), tk_defaultConn = (\<lambda>c up. 25)\<rparr>"

text \<open>A client whose connection, on descriptor 9, is open.\<close>

definition demoClient :: "nat client" where
  "demoClient = connector.extend ((demoConnector NsConnected None)\<lparr>
       chans := [4 \<mapsto> (mkChannel 9 True)\<lparr>c_added := True, c_events := kReadEvent\<rparr>], nextChan := 5,
       trace := [SysEpollCtl EPOLL_CTL_ADD 9 kReadEvent 4],
       connHeap := [0 \<mapsto> (newConn 9 4 [] [])\<lparr>k_status := Connected, k_onConn := Some (\<lambda>c up. 25),
                          k_onClose := Some (tk_removeByPeer demoClientTasks)\<rparr>], nextConn := 1\<rparr>)
     \<lparr>cl_alive = True, cl_retry = True, cl_connFlag = True, cl_onConn = Some (\<lambda>c up. 25), cl_onMsg = None,
      cl_onWrite = None, cl_conn = Some 0\<rparr>"

lemmas demoClient_defs = demoClient_def connector.defs demoConnector_defs

lemma demoClient_up: "connUp 0 9 demoClient"
proof -
  have "kReadEvent \<noteq> 0" "kReadEvent AND kWriteEvent = 0" by (simp_all add: mask_defs)
  then show ?thesis
    by (simp add: connUp_def demoClient_defs mkChannel_def newConn_def buf_wf_def content_def mkBuffer_def
        isWriting_def pollSynced_def interest_def interestStep_def)
qed

theorem client_dtor_use_after_free_witness:
  "\<exists>s1. TcpClient_dtor demoClientTasks (\<lambda>_. False) demoClient = Inr s1 \<and> tasks s1 = [14] \<and>
     forceCloseInLoop (\<lambda>t. if t = 22 then TcpClient_removeConnection demoClientTasks 0 else Inr) 0 s1 =
       Inl (UseAfterFree ''TcpClient::removeConnection'')"
proof -
  let ?exec = "(\<lambda>t. if t = 22 then TcpClient_removeConnection demoClientTasks 0 else Inr) :: nat \<Rightarrow> nat client stmt"
  let ?k = "(newConn 9 4 [] [])\<lparr>k_status := Connected, k_onConn := Some (\<lambda>c up. 25),
      k_onClose := Some (tk_removeByPeer demoClientTasks)\<rparr>"
  have s: "connHeap demoClient 0 = Some ?k" "k_onConn ?k = Some (\<lambda>c up. 25)" "cl_conn demoClient = Some 0"
    "tasks demoClient = []" "\<not> (\<lambda>_. False) (0 :: nat)"
    by (simp_all add: demoClient_defs)
  have e: "?exec (tk_remove demoClientTasks 0) = TcpClient_removeConnection demoClientTasks 0"
    "ct_forceClose (tk_conn demoClientTasks) 0 = 14"
    by (simp_all add: demoClientTasks_def)
  have p: "ensures (orphaned demoClientTasks 0) (?exec ((\<lambda>c up. 25) (0 :: nat) False)) (orphaned demoClientTasks 0)"
    by (simp add: ensures_def)
  show ?thesis
    using client_dtor_use_after_free[where exec = ?exec, OF demoClient_up s(1-3,5) e(1) p] s(4) e(2) by simp
qed

end
