(* ===== verification/ClientConnect.thy ===== *)
theory ClientConnect
  imports TcpClient
begin

text \<open>
  A client connecting: the connector's channel becomes writable, the connector lets go of it, asks the
  socket for its error and its two names, and hands the descriptor to the client, which makes a connection of
  it (Connector.cpp, TcpClient.cpp, TcpConnection.cpp together).
\<close>

section \<open>What the kernel said\<close>

text \<open>The name of a socket as \<^verbatim>\<open>getLocalAddr\<close> and \<^verbatim>\<open>getPeerAddr\<close> return it, and the self-connect test on two names.\<close>

definition addrOf :: "answer \<Rightarrow> byte list" where
  "addrOf a = (if a_ret a < 0 then replicate 28 0 else filledAddr a)"

definition sameEnds :: "byte list \<Rightarrow> byte list \<Rightarrow> bool" where
  "sameEnds l p \<longleftrightarrow> (if sa_family l = AF_INET then sin_port l = sin_port p \<and> sin_addr l = sin_addr p
     else if sa_family l = AF_INET6 then sin_port l = sin_port p \<and> sin6_addr l = sin6_addr p else False)"

lemma names_ok:
  "getLocalAddr fd s = Inr (addrOf (nextAns s), (if a_ret (nextAns s) < 0 then logged ERROR (afterSys (SysGetsockname fd) s)
     else afterSys (SysGetsockname fd) s))"
  "getPeerAddr fd s = Inr (addrOf (nextAns s), (if a_ret (nextAns s) < 0 then logged ERROR (afterSys (SysGetpeername fd) s)
     else afterSys (SysGetpeername fd) s))"
  by (simp_all add: getLocalAddr_def getPeerAddr_def stmt_defs sys_eq addrOf_def)

lemma isSelfConnect_ok:
  obtains s' where "isSelfConnect fd s = Inr (sameEnds (addrOf (env s (envIx s))) (addrOf (env s (Suc (envIx s)))), s')"
    "ioStep s s'" "\<exists>tr. trace s' = trace s @ tr \<and> noClose tr" "tasks s' = tasks s"
proof -
  obtain l s1 where s1: "getLocalAddr fd s = Inr (l, s1)" "ioStep s s1" "tasks s1 = tasks s" by (rule getLocalAddr_ok)
  obtain p s2 where s2: "getPeerAddr fd s1 = Inr (p, s2)" "ioStep s1 s2" "tasks s2 = tasks s1" by (rule getPeerAddr_ok)
  have l: "l = addrOf (env s (envIx s))" "envIx s1 = Suc (envIx s)" "env s1 = env s"
    using s1(1) by (auto simp: names_ok nextAns_def split: if_splits)
  have p: "p = addrOf (env s (Suc (envIx s)))" using s2(1) l by (auto simp: names_ok nextAns_def)
  have "\<exists>tr. trace s2 = trace s @ tr \<and> noClose tr"
    using s1(1) s2(1) by (auto simp: names_ok split: if_splits)
  then show thesis
    by (rule that[OF _ ioStep_trans[OF s1(2) s2(2)], rotated])
      (simp_all add: isSelfConnect_def callE_def s1(1,3) s2(1,3) retF_def sameEnds_def l(1)[symmetric] p[symmetric])
qed

section \<open>The new connection\<close>

lemma client_newConnection_ok:
  fixes s :: "('t, 'z) client_scheme"
  assumes s: "cl_alive s" "curTid s = loopTid s" "pollSynced s" "cl_onConn s = Some f" "cl_conn s = None"
    and fresh: "\<And>cid ch. chans s cid = Some ch \<Longrightarrow> cid < nextChan s"
    and sole: "\<And>cid ch. chans s cid = Some ch \<Longrightarrow> c_added ch \<Longrightarrow> c_fd ch \<noteq> fd"
  obtains s1 k where "TcpClient_newConnection exec K owned fd s = exec (f (nextConn s) True) s1"
    "connUp (nextConn s) fd s1" "pending (nextConn s) s1 = []" "interest (trace s1) fd = Some (kReadEvent, nextChan s)"
    "cl_conn s1 = Some (nextConn s)" "cn_status s1 = cn_status s" "cn_chan s1 = cn_chan s"
    "connHeap s1 (nextConn s) = Some k" "k_status k = Connected" "k_onMsg k = cl_onMsg s" "k_onWrite k = cl_onWrite s"
    "k_onClose k = Some (tk_removeByPeer K)" "\<exists>tr. trace s1 = trace s @ tr"
    "k_onConn k = cl_onConn s" "k_chan k = nextChan s" "k_sock k = fd" "connHeap s1 = (connHeap s)(nextConn s \<mapsto> k)"
    "\<exists>ch. chans s1 = (chans s)(nextChan s \<mapsto> ch)" "nextConn s1 = Suc (nextConn s)" "nextChan s1 = Suc (nextChan s)"
    "tame s s1" "tasks s1 = tasks s" "conns.more s1 = conns.more (s\<lparr>cl_conn := Some (nextConn s)\<rparr>)"
proof -
  let ?c = "nextConn s" and ?cid = "nextChan s"
  obtain la sa where a: "getLocalAddr fd s = Inr (la, sa)" "ioStep s sa" "tasks sa = tasks s" by (rule getLocalAddr_ok)
  obtain pa sb where b: "getPeerAddr fd sa = Inr (pa, sb)" "ioStep sa sb" "tasks sb = tasks sa" by (rule getPeerAddr_ok)
  note io = ioStep_trans[OF a(2) b(2)]
  note fb = ioStep_frame[OF io]
  have cb: "cl_alive sb = cl_alive s" "cl_conn sb = cl_conn s" "cl_onMsg sb = cl_onMsg s" "cl_onConn sb = cl_onConn s"
    "cl_onWrite sb = cl_onWrite s" "cn_status sb = cn_status s" "cn_chan sb = cn_chan s"
    using io by (auto simp: ioStep_def)
  let ?loc = "EndPoint_in6 (replicate 28 0) la" and ?rem = "EndPoint_in6 (replicate 28 0) pa"
  let ?sc = "sb\<lparr>nextChan := Suc (nextChan sb), nextConn := Suc (nextConn sb)\<rparr>"
  obtain sc ch where c: "TcpConnection_ctor (tk_conn K) fd ?loc ?rem sb = Inr (nextConn sb, sc)"
    "ioStep (sb\<lparr>nextChan := Suc (nextChan sb), nextConn := Suc (nextConn sb),
       connHeap := (connHeap sb)(nextConn sb \<mapsto> newConn fd (nextChan sb) ?loc ?rem),
       chans := (chans sb)(nextChan sb \<mapsto> ch)\<rparr>) sc" "c_fd ch = fd" "\<not> c_added ch" "c_events ch = 0" "tasks sc = tasks sb"
    by (rule TcpConnection_ctor_ok)
  note fc = ioStep_frame[OF c(2)]
  have cc: "cl_alive sc = cl_alive s" "cl_conn sc = cl_conn s" "cl_onMsg sc = cl_onMsg s" "cl_onConn sc = cl_onConn s"
    "cl_onWrite sc = cl_onWrite s" "cn_status sc = cn_status s" "cn_chan sc = cn_chan s"
    using c(2) cb by (auto simp: ioStep_def)
  let ?k = "(newConn fd ?cid ?loc ?rem)\<lparr>k_onMsg := cl_onMsg s, k_onConn := cl_onConn s, k_onWrite := cl_onWrite s,
     k_onClose := Some (tk_removeByPeer K)\<rparr>"
  let ?t = "sc\<lparr>connHeap := (connHeap s)(?c \<mapsto> ?k), cl_conn := Some ?c\<rparr>"
  have heap: "connHeap sc = (connHeap s)(?c \<mapsto> newConn fd ?cid ?loc ?rem)" "chans sc = (chans s)(?cid \<mapsto> ch)"
    "curTid sc = loopTid sc" "interest (trace sc) = interest (trace s)"
    using fb fc s(2) by simp_all
  have eq: "TcpClient_newConnection exec K owned fd s = connectionEstablished exec ?c ?t"
    using s a(1) b(1) c(1) fb cc heap
    by (simp add: TcpClient_newConnection_def withClient_def ifElse_def thenDo_def assertInLoopThread_def assertThat_def
        callE_def letIn_def setMessageCallback_def setConnectionCallback_def setWriteCompleteCallback_def
        TcpConnection_setCloseCallback_def modConn_def withConn_def upd_def release_def newConn_def)
  have old: "chans s i = Some x \<Longrightarrow> i \<noteq> ?cid" for i x using fresh by blast
  have t: "pollSynced ?t" "curTid ?t = loopTid ?t" "connHeap ?t ?c = Some ?k" "chans ?t (k_chan ?k) = Some ch"
    using s(3) heap c(4) old by (auto simp: pollSynced_def newConn_def)
  have fr: "k_status ?k = Connecting" "k_onConn ?k = Some f" "content (k_out ?k) = []" "buf_wf (k_out ?k)"
      "buf_wf (k_in ?k)" "c_fd ch = k_sock ?k" "k_sock ?k = fd" "k_chan ?k = ?cid"
    using s(4) c(3) by (simp_all add: newConn_def buf_wf_def content_def mkBuffer_def)
  have so: "\<And>i x. i \<noteq> k_chan ?k \<Longrightarrow> chans ?t i = Some x \<Longrightarrow> c_added x \<Longrightarrow> c_fd x \<noteq> c_fd ch"
    using sole heap(2) c(3) fr(8) by auto
  obtain s1 where s1: "connectionEstablished exec ?c ?t = exec (f ?c True) s1" "connUp ?c (k_sock ?k) s1"
    "maskStep (?t\<lparr>connHeap := (connHeap ?t)(?c \<mapsto> ?k\<lparr>k_status := Connected\<rparr>)\<rparr>) s1"
    "interest (trace s1) (k_sock ?k) = Some (kReadEvent, k_chan ?k)"
    "chans s1 = (chans ?t)(k_chan ?k \<mapsto> ch\<lparr>c_events := kReadEvent, c_added := True\<rparr>)"
    by (rule connectionEstablished_ok[OF t fr(1-6) c(5) so])
  have "\<exists>tr. trace sb = trace s @ tr" "\<exists>tr. trace sc = trace sb @ tr" "\<exists>tr. trace s1 = trace sc @ tr"
    using io c(2) s1(3) by (auto simp: ioStep_def maskStep_def)
  then have tr: "\<exists>tr. trace s1 = trace s @ tr" by (metis append.assoc)
  have m: "cl_conn s1 = Some ?c" "cn_status s1 = cn_status s" "cn_chan s1 = cn_chan s"
    "connHeap s1 ?c = Some (?k\<lparr>k_status := Connected\<rparr>)"
    using s1(3) cc maskStep_frame(1)[OF s1(3)] by (auto simp: maskStep_def)
  let ?u = "?t\<lparr>connHeap := (connHeap ?t)(?c \<mapsto> ?k\<lparr>k_status := Connected\<rparr>)\<rparr>"
  note m1 = maskStep_frame[OF s1(3)]
  have ct: "connHeap s1 = (connHeap s)(?c \<mapsto> ?k\<lparr>k_status := Connected\<rparr>)" using m1(1) by simp
  have ch1: "\<exists>ch. chans s1 = (chans s)(?cid \<mapsto> ch)" using s1(5) heap(2) fr(8) by auto
  have nx: "nextConn s1 = Suc ?c" "nextChan s1 = Suc ?cid" using s1(3) fb fc by (auto simp: maskStep_def)
  have ts: "tasks s1 = tasks s" using m1(3) c(6) b(3) a(3) by simp
  have "tame s (sb\<lparr>nextChan := Suc (nextChan sb), nextConn := Suc (nextConn sb),
      connHeap := (connHeap sb)(nextConn sb \<mapsto> newConn fd (nextChan sb) ?loc ?rem), chans := (chans sb)(nextChan sb \<mapsto> ch)\<rparr>)"
    by (rule tame_eq[OF ioStep_tame[OF io], of _ "[]"]) simp_all
  then have "tame s sc" by (rule tame_trans) (rule ioStep_tame[OF c(2)])
  then have "tame s ?u" by (rule tame_eq[of s sc _ "[]"]) simp_all
  then have ta: "tame s s1" by (rule tame_trans) (rule maskStep_tame[OF s1(3)])
  have mo: "conns.more s1 = conns.more (s\<lparr>cl_conn := Some ?c\<rparr>)"
  proof -
    have "conns.more sb = conns.more s" using io by (auto simp: ioStep_def)
    moreover have "conns.more sc = conns.more sb" using c(2) by (auto simp: ioStep_def)
    ultimately have "conns.more ?t = conns.more (s\<lparr>cl_conn := Some ?c\<rparr>)" by (cases s; cases sc) simp
    moreover obtain op d ev q e lo h where "s1 = ?u\<lparr>trace := trace ?u @ [SysEpollCtl op d ev q], envIx := Suc (envIx ?u),
        errno := e, logOut := lo, chans := h\<rparr>" using s1(3) unfolding maskStep_def by blast
    then have "conns.more s1 = conns.more ?t" by (cases sc) simp
    ultimately show ?thesis by simp
  qed
  show thesis
    by (rule that[of s1 "?k\<lparr>k_status := Connected\<rparr>", OF _ _ _ _ _ _ _ _ _ _ _ _ _ _ _ _ ct ch1 nx ta ts mo])
      (use eq s1 fr m tr in \<open>simp_all add: pending_def\<close>)
qed

text \<open>The connector has let go of its channel \<open>cid\<close>; all else is as it was.\<close>

definition released :: "nat \<Rightarrow> ('t, 'z) connector_scheme \<Rightarrow> ('t, 'z) connector_scheme \<Rightarrow> bool" where
  "released cid s u \<longleftrightarrow> tame s u \<and> chans u = (chans s)(cid := None) \<and> cn_chan u = None \<and> pollSynced u \<and>
     connector.more u = connector.more s \<and> cn_connFlag u = cn_connFlag s \<and> cn_onNewConn u = cn_onNewConn s \<and>
     cn_retryMs u = cn_retryMs s \<and> nextChan u = nextChan s \<and> nextConn u = nextConn s \<and> connHeap u = connHeap s \<and>
     tasks u = tasks s \<and> curTid u = curTid s \<and> loopTid u = loopTid s"

lemma releasedD:
  assumes "released cid s u"
  shows "tame s u" "chans u = (chans s)(cid := None)" "cn_chan u = None" "pollSynced u"
    "connector.more u = connector.more s" "cn_connFlag u = cn_connFlag s" "cn_onNewConn u = cn_onNewConn s"
    "cn_retryMs u = cn_retryMs s" "nextChan u = nextChan s" "nextConn u = nextConn s" "connHeap u = connHeap s"
    "tasks u = tasks s" "curTid u = curTid s" "loopTid u = loopTid s"
  using assms by (simp_all add: released_def)

lemma released_ioStep:
  assumes "released cid s u" "ioStep u v" "tasks v = tasks u"
  shows "released cid s v"
proof -
  note r = releasedD[OF assms(1)] and f = ioStep_frame[OF assms(2)]
  have "connector.more v = connector.more u" "cn_chan v = cn_chan u" "cn_connFlag v = cn_connFlag u"
    "cn_onNewConn v = cn_onNewConn u" "cn_retryMs v = cn_retryMs u"
    using assms(2) by (auto simp: ioStep_def)
  then show ?thesis using r f assms(3) tame_trans[OF r(1) ioStep_tame[OF assms(2)]] pollSynced_ioStep[OF assms(2) r(4)]
    by (simp add: released_def)
qed

lemma released_logged: "released cid s u \<Longrightarrow> released cid s (logged l u)"
  using released_ioStep[OF _ ioStep_logged] by simp

lemma released_status: "released cid s u \<Longrightarrow> released cid s (u\<lparr>cn_status := st\<rparr>)"
  by (simp add: released_def pollSynced_def tame_def)

text \<open>A tried socket that is neither in error nor connected to itself goes to the client, if it is still wanted.\<close>

definition handOver :: "('t \<Rightarrow> ('t, 'z) connector_scheme stmt) \<Rightarrow> int \<Rightarrow> ('t, 'z) connector_scheme stmt" where
  "handOver exec fd = block [Connector_setNetStatus NsConnected, ifElse cn_connFlag
     (letIn cn_onNewConn (\<lambda>cb. case cb of
        None \<Rightarrow> (\<lambda>_. Inl (BadFunctionCall ''_onNewConnCb'')) | Some f \<Rightarrow> exec (f fd)))
     (\<lambda>s. callE (ISocket_close fd) (\<lambda>_. Inr) s)]"

text \<open>The part before the outcome: the channel gone, the error and the two names read.\<close>

lemma connector_asks:
  fixes s :: "('t, 'z) connector_scheme"
  assumes s: "curTid s = loopTid s" "pollSynced s" "cn_status s = NsConnecting" "cn_chan s = Some cid"
    and ch: "chans s cid = Some ch" "\<not> c_mgmt ch" "c_added ch"
  obtains s1 s2 where
    "Connector_handleWrite exec K s = (if a_err (env s (envIx s + 1)) \<noteq> 0 then Connector_retry K (c_fd ch) (logged ERROR s1)
       else if sameEnds (addrOf (env s (envIx s + 2))) (addrOf (env s (envIx s + 3))) then Connector_retry K (c_fd ch) (logged WARN s2)
       else handOver exec (c_fd ch) s2)"
    "released cid s s1" "released cid s s2" "interest (trace s1) (c_fd ch) = None" "interest (trace s2) (c_fd ch) = None"
proof -
  obtain tr ix e lo where r: "resetChan K cid s = Inr (s\<lparr>cn_chan := None, trace := trace s @ tr, envIx := ix,
      errno := e, logOut := lo, chans := (chans s)(cid := None)\<rparr>)" "\<forall>c \<in> set tr. isCtl c"
    "interest (trace s @ tr) (c_fd ch) = None" "ix = envIx s + length tr" "length tr = 1"
    "pollSynced (s\<lparr>cn_chan := None, trace := trace s @ tr, envIx := ix,
      errno := e, logOut := lo, chans := (chans s)(cid := None)\<rparr>)"
    by (rule resetChan_ok[OF s(2) ch(1) s(1) ch(2)]) (use ch(3) in blast)
  let ?a = "s\<lparr>cn_chan := None, trace := trace s @ tr, envIx := ix, errno := e, logOut := lo, chans := (chans s)(cid := None)\<rparr>"
  let ?b = "afterSys (SysSoError (c_fd ch)) ?a"
  have err: "ISocket_getSocketError (c_fd ch) ?a = (a_err (env s (envIx s + 1)), ?b)"
    using r(4,5) by (auto simp: ISocket_getSocketError_def call_def sys_eq afterSys_def nextAns_def)
  obtain s2 where s2: "isSelfConnect (c_fd ch) ?b = Inr (sameEnds (addrOf (env ?b (envIx ?b))) (addrOf (env ?b (Suc (envIx ?b)))), s2)"
    "ioStep ?b s2" "tasks s2 = tasks ?b"
    by (rule isSelfConnect_ok)
  have ix: "env ?b (envIx ?b) = env s (envIx s + 2)" "env ?b (Suc (envIx ?b)) = env s (envIx s + 3)"
    using r(4,5) by (simp_all add: numeral_eq_Suc)
  have int: "interest (trace ?b) = interest (trace ?a)" using interest_append[of "[SysSoError (c_fd ch)]" "trace s @ tr"] by simp
  have "pollSynced ?b" by (rule pollSynced_frame[OF r(6) int]) simp
  moreover have "connector.more ?b = connector.more s" by (simp add: afterSys_def)
  moreover have "tame s ?b" by (rule tame_eq[OF tame_refl, of _ _ "tr @ [SysSoError (c_fd ch)]"]) (use r(2) in auto)
  ultimately have b: "released cid s ?b" by (simp add: released_def)
  show thesis
    by (rule that[of ?b s2, OF _ b released_ioStep[OF b s2(2,3)]])
      (use s(3,4) ch(1) r(1,3) err s2(1)[unfolded ix] int ioStep_frame(6)[OF s2(2)] in
        \<open>simp_all add: Connector_handleWrite_def handOver_def ifElse_def letIn_def withChan_def thenDo_def call_def callE_def [abs_def]\<close>)
qed

lemma tame_noClose: "tame s t \<Longrightarrow> \<exists>tr. trace t = trace s @ tr \<and> noClose tr"
proof -
  have "x \<noteq> SysClose fd" if "plain x \<or> isCtl x" for x fd using that by auto
  then show "tame s t \<Longrightarrow> \<exists>tr. trace t = trace s @ tr \<and> noClose tr" by (auto simp: tame_def noClose_def)
qed

lemma connector_more_client:
  fixes s t :: "('t, 'z) client_scheme"
  assumes "connector.more t = connector.more s"
  shows "cl_alive t = cl_alive s" "cl_retry t = cl_retry s" "cl_connFlag t = cl_connFlag s" "cl_onConn t = cl_onConn s"
    "cl_onMsg t = cl_onMsg s" "cl_onWrite t = cl_onWrite s" "cl_conn t = cl_conn s"
  using assms by (cases s; cases t; simp)+

lemma handOver_unwanted: "\<not> cn_connFlag u \<Longrightarrow> handOver exec fd u = Inr (afterClose fd (u\<lparr>cn_status := NsConnected\<rparr>))"
  by (simp add: handOver_def Connector_setNetStatus_def upd_def ifElse_def callE_def ISocket_close_eq)

lemma handOver_wanted:
  fixes s u :: "('t, 'z) client_scheme"
  assumes rel: "released cid s u" and tid: "curTid s = loopTid s"
    and sole: "\<forall>i x. chans s i = Some x \<longrightarrow> i < nextChan s \<and> (i \<noteq> cid \<longrightarrow> c_added x \<longrightarrow> c_fd x \<noteq> fd)"
    and c: "cl_alive s" "cl_onConn s = Some f" "cl_conn s = None"
    and g: "cn_onNewConn s = Some g" "exec (g fd) = TcpClient_newConnection exec' K owned fd" and go: "cn_connFlag s"
  obtains t k tr where "handOver exec fd u = exec' (f (nextConn s) True) t" "trace t = trace u @ tr" "cn_status t = NsConnected"
    "cn_chan t = None" "cl_conn t = Some (nextConn s)" "connUp (nextConn s) fd t" "pending (nextConn s) t = []"
    "interest (trace t) fd = Some (kReadEvent, nextChan s)" "connHeap t (nextConn s) = Some k" "k_status k = Connected"
    "k_onMsg k = cl_onMsg s" "k_onClose k = Some (tk_removeByPeer K)"
proof -
  let ?s = "u\<lparr>cn_status := NsConnected\<rparr>"
  note r = releasedD[OF rel] and m = connector_more_client[OF releasedD(5)[OF rel]]
  have h: "handOver exec fd u = TcpClient_newConnection exec' K owned fd ?s"
    using r(6,7) g go by (simp add: handOver_def Connector_setNetStatus_def upd_def ifElse_def letIn_def)
  have i: "cl_alive ?s" "curTid ?s = loopTid ?s" "pollSynced ?s" "cl_onConn ?s = Some f" "cl_conn ?s = None"
    using r(4,13,14) m c tid by (simp_all add: pollSynced_def)
  obtain t k where t: "TcpClient_newConnection exec' K owned fd ?s = exec' (f (nextConn ?s) True) t"
    "connUp (nextConn ?s) fd t" "pending (nextConn ?s) t = []" "interest (trace t) fd = Some (kReadEvent, nextChan ?s)"
    "cl_conn t = Some (nextConn ?s)" "cn_status t = cn_status ?s" "cn_chan t = cn_chan ?s"
    "connHeap t (nextConn ?s) = Some k" "k_status k = Connected" "k_onMsg k = cl_onMsg ?s"
    "k_onClose k = Some (tk_removeByPeer K)" "\<exists>tr. trace t = trace ?s @ tr"
    by (rule client_newConnection_ok[OF i, where fd = fd and exec = exec' and K = K and owned = owned])
      (use sole r(2,9) in \<open>auto split: if_splits\<close>)
  obtain tr where "trace t = trace u @ tr" using t(12) by auto
  then show thesis by (intro that[of t tr k]) (use h t r(3,9,10) m(5) in simp_all)
qed

section \<open>Properties\<close>

text \<open>
  C16. A connection attempt has one of three ends. When the connector's channel becomes writable, the
  connector gives the channel up and takes the descriptor out of the kernel's table; then, with a socket
  error or a socket connected to itself, it retries on that descriptor; with neither, a client that still
  wants the connection has one when its connection callback runs: a single one, connected, with the client's
  callbacks, nothing to send, and watched for reading under the same descriptor; and a client that does not
  want it any more closes the descriptor, once.
\<close>

theorem client_connects:
  assumes "curTid s = loopTid s" and "pollSynced s" and "cn_status s = NsConnecting" and "cn_chan s = Some cid"
    and "chans s cid = Some ch" and "\<not> c_mgmt ch" and "c_added ch" and "0 \<le> c_fd ch"
    and "\<forall>i x. chans s i = Some x \<longrightarrow> i < nextChan s \<and> (i \<noteq> cid \<longrightarrow> c_added x \<longrightarrow> c_fd x \<noteq> c_fd ch)"
    and "cl_alive s" and "cl_onConn s = Some f" and "cl_conn s = None"
    and "cn_onNewConn s = Some g" and "exec (g (c_fd ch)) = TcpClient_newConnection exec' K owned (c_fd ch)"
  shows "\<exists>s1 tr. trace s1 = trace s @ tr \<and>
    (if a_err (env s (envIx s + 1)) \<noteq> 0 \<or> sameEnds (addrOf (env s (envIx s + 2))) (addrOf (env s (envIx s + 3))) then
       Connector_handleWrite exec KC s = Connector_retry KC (c_fd ch) s1 \<and>
       cn_chan s1 = None \<and> interest (trace s1) (c_fd ch) = None \<and> noClose tr
     else if cn_connFlag s then
       Connector_handleWrite exec KC s = exec' (f (nextConn s) True) s1 \<and>
       cn_status s1 = NsConnected \<and> cn_chan s1 = None \<and> cl_conn s1 = Some (nextConn s) \<and>
       connUp (nextConn s) (c_fd ch) s1 \<and> pending (nextConn s) s1 = [] \<and>
       interest (trace s1) (c_fd ch) = Some (kReadEvent, nextChan s) \<and>
       (\<exists>k. connHeap s1 (nextConn s) = Some k \<and> k_status k = Connected \<and> k_onMsg k = cl_onMsg s \<and>
         k_onClose k = Some (tk_removeByPeer K))
     else
       Connector_handleWrite exec KC s = Inr s1 \<and> cn_status s1 = NsConnected \<and> cn_chan s1 = None \<and>
       interest (trace s1) (c_fd ch) = None \<and> (\<exists>tr'. tr = tr' @ [SysClose (c_fd ch)] \<and> noClose tr'))"
proof -
  let ?fd = "c_fd ch" and ?err = "a_err (env s (envIx s + 1)) \<noteq> 0"
    and ?self = "sameEnds (addrOf (env s (envIx s + 2))) (addrOf (env s (envIx s + 3)))"
  obtain s1 s2 where a: "Connector_handleWrite exec KC s = (if ?err then Connector_retry KC ?fd (logged ERROR s1)
       else if ?self then Connector_retry KC ?fd (logged WARN s2) else handOver exec ?fd s2)"
    "released cid s s1" "released cid s s2" "interest (trace s1) ?fd = None" "interest (trace s2) ?fd = None"
    by (rule connector_asks[OF assms(1-7), where exec = exec and K = KC])
  note r1 = releasedD[OF a(2)] and r2 = releasedD[OF a(3)]
  obtain tr1 tr2 where tr: "trace s1 = trace s @ tr1" "noClose tr1" "trace s2 = trace s @ tr2" "noClose tr2"
    using tame_noClose[OF r1(1)] tame_noClose[OF r2(1)] by blast
  consider (err) ?err | (self) "\<not> ?err" ?self | (new) "\<not> ?err" "\<not> ?self" "cn_connFlag s" | (off) "\<not> ?err" "\<not> ?self" "\<not> cn_connFlag s"
    by blast
  then show ?thesis
  proof cases
    case err
    then show ?thesis using a r1(3) tr by (intro exI[of _ "logged ERROR s1"] exI[of _ tr1]) simp
  next
    case self
    then show ?thesis using a r2(3) tr by (intro exI[of _ "logged WARN s2"] exI[of _ tr2]) simp
  next
    case new
    obtain t k tr3 where t: "handOver exec ?fd s2 = exec' (f (nextConn s) True) t" "trace t = trace s2 @ tr3" "cn_status t = NsConnected"
      "cn_chan t = None" "cl_conn t = Some (nextConn s)" "connUp (nextConn s) ?fd t" "pending (nextConn s) t = []"
      "interest (trace t) ?fd = Some (kReadEvent, nextChan s)" "connHeap t (nextConn s) = Some k" "k_status k = Connected"
      "k_onMsg k = cl_onMsg s" "k_onClose k = Some (tk_removeByPeer K)"
      by (rule handOver_wanted[where exec = exec and g = g and fd = ?fd, OF a(3) assms(1,9-14) new(3)])
    then show ?thesis using a(1) new tr(3) by (intro exI[of _ t] exI[of _ "tr2 @ tr3"]) simp
  next
    case off
    let ?t = "afterClose ?fd (s2\<lparr>cn_status := NsConnected\<rparr>)"
    have t: "trace ?t = trace s @ tr2 @ [SysClose ?fd]" "cn_status ?t = NsConnected" "cn_chan ?t = None"
      using tr(3) assms(8) r2(3) by (simp_all add: afterClose_def)
    have "trace ?t = trace s2 @ [SysClose ?fd]" using assms(8) by (simp add: afterClose_def)
    then have "interest (trace ?t) ?fd = None" using a(5) by (simp only: interest_snoc) (simp add: interestStep_def)
    moreover have "Connector_handleWrite exec KC s = Inr ?t" using a(1) off handOver_unwanted[of s2 exec ?fd] r2(6) by simp
    ultimately show ?thesis using off t tr(4) by (intro exI[of _ ?t] exI[of _ "tr2 @ [SysClose ?fd]"]) auto
  qed
qed

text \<open>A client whose connector waits for its socket, descriptor 8, to become writable.\<close>

definition demoConnecting :: "nat client" where
  "demoConnecting = connector.extend (demoConnector NsConnecting (Some 3))
     \<lparr>cl_alive = True, cl_retry = True, cl_connFlag = True, cl_onConn = Some (\<lambda>c up. 25), cl_onMsg = None,
      cl_onWrite = None, cl_conn = None\<rparr>"

theorem client_connects_witness:
  "\<exists>s1. Connector_handleWrite (TcpClient_newConnection (\<lambda>_. Inr) demoClientTasks (\<lambda>_. False) \<circ> int) demoConnTasks
      demoConnecting = Inr s1 \<and> connUp 0 8 s1 \<and> cl_conn s1 = Some 0"
proof -
  let ?exec = "TcpClient_newConnection (\<lambda>_. Inr) demoClientTasks (\<lambda>_. False) \<circ> int :: nat \<Rightarrow> nat client stmt"
  let ?ch = "(mkChannel 8 False)\<lparr>c_added := True, c_events := kWriteEvent\<rparr>" and ?s = demoConnecting
  have s: "curTid ?s = loopTid ?s" "cn_status ?s = NsConnecting" "cn_chan ?s = Some 3" "chans ?s 3 = Some ?ch"
    "\<not> c_mgmt ?ch" "c_added ?ch" "0 \<le> c_fd ?ch" "cl_alive ?s" "cl_onConn ?s = Some (\<lambda>c up. 25)" "cl_conn ?s = None"
    "cn_onNewConn ?s = Some nat" "nextConn ?s = 0" "cn_connFlag ?s" "c_fd ?ch = 8" "env ?s = (\<lambda>_. okAns)"
    by (simp_all add: demoConnecting_def connector.defs demoConnector_defs mkChannel_def)
  have sy: "pollSynced ?s" using demoConnector_synced[of NsConnecting "Some 3"]
    by (simp add: pollSynced_def demoConnecting_def connector.defs)
  have only: "\<forall>i x. chans ?s i = Some x \<longrightarrow> i < nextChan ?s \<and> (i \<noteq> 3 \<longrightarrow> c_added x \<longrightarrow> c_fd x \<noteq> c_fd ?ch)"
    by (simp add: demoConnecting_def connector.defs demoConnector_defs)
  have e: "?exec (nat (c_fd ?ch)) = TcpClient_newConnection (\<lambda>_. Inr) demoClientTasks (\<lambda>_. False) (c_fd ?ch)"
    by (simp add: s(14))
  have n: "a_err (env ?s (envIx ?s + 1)) = 0"
    "\<not> sameEnds (addrOf (env ?s (envIx ?s + 2))) (addrOf (env ?s (envIx ?s + 3)))"
  proof -
    have "sa_family (addrOf okAns) = 0"
      by (simp add: okAns_def addrOf_def filledAddr_def overwrite_def sa_family_def numeral_eq_Suc)
    then show "\<not> sameEnds (addrOf (env ?s (envIx ?s + 2))) (addrOf (env ?s (envIx ?s + 3)))"
      by (simp add: s(15) sameEnds_def AF_INET_def AF_INET6_def)
  qed (simp add: s(15) okAns_def)
  show ?thesis
    using client_connects[where exec = ?exec and exec' = "\<lambda>_. Inr" and KC = demoConnTasks,
        OF s(1) sy s(2-7) only s(8-11) e] n s(12-14)
    by (auto simp: mkChannel_def)
qed

end
