(* ===== verification/LoopThread.thy ===== *)
theory LoopThread
  imports Prelude
begin

text \<open>
  src/net/EventLoopThread.h and EventLoopThread.cpp: a thread with a loop of its own. Two threads
  share the object, the one that owns it (\<^verbatim>\<open>startLoop\<close>, the destructor) and the one it starts
  (\<^verbatim>\<open>threadFunc\<close>). A critical section of \<^verbatim>\<open>_mtx\<close> is one step, and so is every other access to the
  shared state. The loop itself is only what these functions need of it: whether the object
  exists, whether it was asked to quit, and that \<^verbatim>\<open>loop()\<close> returns only then.
\<close>

section \<open>The shared object\<close>

text \<open>Where the owner is: \<open>Failed\<close> when a call did not return, as the fault says.\<close>

datatype ownerPc = Fresh | Waiting | Started | Quitting | Waking | Joining | Members | Gone | Failed fault

text \<open>Where the started thread is in \<^verbatim>\<open>threadFunc\<close>.\<close>

datatype funcPc = NotStarted | Ctor | Init | Publish | Looping | Clearing | Leaving | Ended

record loopThread =
  lt_owner :: ownerPc
  lt_func :: funcPc
  lt_loop :: bool
  lt_thread :: bool
  lt_alive :: bool
  lt_exit :: bool

definition EventLoopThread_ctor :: loopThread where
  "EventLoopThread_ctor = \<lparr>lt_owner = Fresh, lt_func = NotStarted, lt_loop = False, lt_thread = False,
     lt_alive = False, lt_exit = False\<rparr>"

text \<open>
  \<^verbatim>\<open>startLoop\<close>: the thread is created, then the owner waits until the pointer \<^verbatim>\<open>_loop\<close> is set.
\<close>

inductive startStep :: "loopThread \<Rightarrow> loopThread \<Rightarrow> bool" where
  spawn: "lt_owner s = Fresh \<Longrightarrow> \<not> lt_thread s \<Longrightarrow>
    startStep s (s\<lparr>lt_owner := Waiting, lt_thread := True, lt_func := Ctor\<rparr>)"
| published: "lt_owner s = Waiting \<Longrightarrow> lt_loop s \<Longrightarrow> startStep s (s\<lparr>lt_owner := Started\<rparr>)"

text \<open>
  \<^verbatim>\<open>threadFunc\<close>. While the loop runs, a task or callback of its own may ask it to quit
  (\<open>selfQuit\<close>); the initialisation callback may too.
\<close>

inductive funcStep :: "loopThread \<Rightarrow> loopThread \<Rightarrow> bool" where
  construct: "lt_func s = Ctor \<Longrightarrow> funcStep s (s\<lparr>lt_func := Init, lt_alive := True, lt_exit := False\<rparr>)"
| init: "lt_func s = Init \<Longrightarrow> funcStep s (s\<lparr>lt_func := Publish\<rparr>)"
| publish: "lt_func s = Publish \<Longrightarrow> funcStep s (s\<lparr>lt_func := Looping, lt_loop := True\<rparr>)"
| selfQuit: "lt_func s = Init \<or> lt_func s = Looping \<Longrightarrow> funcStep s (s\<lparr>lt_exit := True\<rparr>)"
| returns: "lt_func s = Looping \<Longrightarrow> lt_exit s \<Longrightarrow> funcStep s (s\<lparr>lt_func := Clearing\<rparr>)"
| clear: "lt_func s = Clearing \<Longrightarrow> funcStep s (s\<lparr>lt_func := Leaving, lt_loop := False\<rparr>)"
| leave: "lt_func s = Leaving \<Longrightarrow> funcStep s (s\<lparr>lt_func := Ended, lt_alive := False\<rparr>)"

text \<open>
  The destructor: \<^verbatim>\<open>_loop\<close> is read without the lock, and read again for the call of \<^verbatim>\<open>quit\<close>; \<^verbatim>\<open>quit\<close>
  sets the flag, then looks at the loop once more to wake it. Of the members, a \<^verbatim>\<open>std::thread\<close>
  destroyed while joinable ends the process.
\<close>

inductive dtorStep :: "loopThread \<Rightarrow> loopThread \<Rightarrow> bool" where
  testSet: "lt_owner s = Started \<or> lt_owner s = Fresh \<Longrightarrow> lt_loop s \<Longrightarrow> dtorStep s (s\<lparr>lt_owner := Quitting\<rparr>)"
| testNull: "lt_owner s = Started \<or> lt_owner s = Fresh \<Longrightarrow> \<not> lt_loop s \<Longrightarrow> dtorStep s (s\<lparr>lt_owner := Members\<rparr>)"
| setFlag: "lt_owner s = Quitting \<Longrightarrow> lt_loop s \<Longrightarrow> dtorStep s (s\<lparr>lt_owner := Waking, lt_exit := True\<rparr>)"
| nullQuit: "lt_owner s = Quitting \<Longrightarrow> \<not> lt_loop s \<Longrightarrow>
    dtorStep s (s\<lparr>lt_owner := Failed (NullDeref ''EventLoopThread::~EventLoopThread'')\<rparr>)"
| wake: "lt_owner s = Waking \<Longrightarrow> lt_alive s \<Longrightarrow> dtorStep s (s\<lparr>lt_owner := Joining\<rparr>)"
| wakeDead: "lt_owner s = Waking \<Longrightarrow> \<not> lt_alive s \<Longrightarrow>
    dtorStep s (s\<lparr>lt_owner := Failed (UseAfterFree ''EventLoop::quit'')\<rparr>)"
| join: "lt_owner s = Joining \<Longrightarrow> lt_func s = Ended \<Longrightarrow> dtorStep s (s\<lparr>lt_owner := Members, lt_thread := False\<rparr>)"
| members: "lt_owner s = Members \<Longrightarrow> \<not> lt_thread s \<Longrightarrow> dtorStep s (s\<lparr>lt_owner := Gone\<rparr>)"
| joinable: "lt_owner s = Members \<Longrightarrow> lt_thread s \<Longrightarrow>
    dtorStep s (s\<lparr>lt_owner := Failed (Terminate ''std::thread::~thread'')\<rparr>)"

definition eltStep :: "loopThread \<Rightarrow> loopThread \<Rightarrow> bool" where
  "eltStep s s' \<longleftrightarrow> startStep s s' \<or> funcStep s s' \<or> dtorStep s s'"

inductive eltReach :: "loopThread \<Rightarrow> bool" where
  new: "eltReach EventLoopThread_ctor"
| more: "eltReach s \<Longrightarrow> eltStep s s' \<Longrightarrow> eltReach s'"

inductive_cases startStepE: "startStep s s'"
inductive_cases funcStepE: "funcStep s s'"
inductive_cases dtorStepE: "dtorStep s s'"

lemmas stepI = eltStep_def startStep.intros funcStep.intros dtorStep.intros

section \<open>The invariant\<close>

text \<open>
  What the thread's place says of the pointer and of the loop; what the owner's says of the
  thread.
\<close>

fun ownerOK :: "ownerPc \<Rightarrow> funcPc \<Rightarrow> bool \<Rightarrow> bool \<Rightarrow> bool" where
  "ownerOK Fresh func thr exit \<longleftrightarrow> func = NotStarted \<and> \<not> thr"
| "ownerOK Waiting func thr exit \<longleftrightarrow> func \<noteq> NotStarted \<and> thr"
| "ownerOK Started func thr exit \<longleftrightarrow> func \<in> {Looping, Clearing, Leaving, Ended} \<and> thr"
| "ownerOK Quitting func thr exit \<longleftrightarrow> func \<in> {Looping, Clearing, Leaving, Ended} \<and> thr"
| "ownerOK Waking func thr exit \<longleftrightarrow> func \<in> {Looping, Clearing, Leaving, Ended} \<and> thr \<and> exit"
| "ownerOK Joining func thr exit \<longleftrightarrow> func \<in> {Looping, Clearing, Leaving, Ended} \<and> thr \<and> exit"
| "ownerOK Members func thr exit \<longleftrightarrow> (if thr then func \<in> {Leaving, Ended} else func \<in> {NotStarted, Ended})"
| "ownerOK Gone func thr exit \<longleftrightarrow> \<not> thr \<and> func \<in> {NotStarted, Ended}"
| "ownerOK (Failed f) func thr exit \<longleftrightarrow> True"

definition eltInv :: "loopThread \<Rightarrow> bool" where
  "eltInv s \<longleftrightarrow>
     (lt_loop s \<longleftrightarrow> lt_func s = Looping \<or> lt_func s = Clearing) \<and>
     (lt_alive s \<longleftrightarrow> lt_func s \<in> {Init, Publish, Looping, Clearing, Leaving}) \<and>
     (lt_func s \<in> {Clearing, Leaving, Ended} \<longrightarrow> lt_exit s) \<and>
     ownerOK (lt_owner s) (lt_func s) (lt_thread s) (lt_exit s)"

lemma eltInv_start: "startStep s s' \<Longrightarrow> eltInv s \<Longrightarrow> eltInv s'"
  by (induction rule: startStep.induct) (auto simp: eltInv_def)

lemma eltInv_func: "funcStep s s' \<Longrightarrow> eltInv s \<Longrightarrow> eltInv s'"
  by (induction rule: funcStep.induct; case_tac "lt_owner s") (auto simp: eltInv_def split: if_splits)

lemma eltInv_dtor: "dtorStep s s' \<Longrightarrow> eltInv s \<Longrightarrow> eltInv s'"
  by (induction rule: dtorStep.induct) (auto simp: eltInv_def)

lemma eltInv_reach: "eltReach s \<Longrightarrow> eltInv s"
proof (induction rule: eltReach.induct)
  case new
  then show ?case by (simp add: eltInv_def EventLoopThread_ctor_def)
next
  case (more s s')
  from more.hyps(2) show ?case unfolding eltStep_def
    by (elim disjE) (erule eltInv_start eltInv_func eltInv_dtor, rule more.IH)+
qed

section \<open>Properties\<close>

text \<open>
  C34. The thread's life as intended: whenever \<^verbatim>\<open>startLoop\<close> has returned and nobody has asked the loop
  to quit, the pointer it returned is that of a live loop that is published and running; and when
  the object is gone, its thread, if it was ever started, has ended and was joined, and its loop
  is destroyed.
\<close>

theorem thread_lifecycle:
  assumes "eltReach s"
  shows "(lt_owner s = Started \<and> \<not> lt_exit s \<longrightarrow> lt_loop s \<and> lt_alive s \<and> lt_func s = Looping) \<and>
    (lt_owner s = Gone \<longrightarrow> (lt_func s = NotStarted \<or> lt_func s = Ended) \<and> \<not> lt_thread s \<and> \<not> lt_alive s)"
  using eltInv_reach[OF assms] by (auto simp: eltInv_def)

lemma eltReach_step:
  "eltReach s \<Longrightarrow> startStep s s' \<Longrightarrow> eltReach s'" "eltReach s \<Longrightarrow> funcStep s s' \<Longrightarrow> eltReach s'"
  "eltReach s \<Longrightarrow> dtorStep s s' \<Longrightarrow> eltReach s'"
  by (auto intro: eltReach.more simp: eltStep_def)

text \<open>A state by its fields: owner, thread, pointer, thread object, loop, flag.\<close>

definition at :: "ownerPc \<Rightarrow> funcPc \<Rightarrow> bool \<Rightarrow> bool \<Rightarrow> bool \<Rightarrow> bool \<Rightarrow> loopThread" where
  "at owner func loop thr alive ex = \<lparr>lt_owner = owner, lt_func = func, lt_loop = loop, lt_thread = thr,
     lt_alive = alive, lt_exit = ex\<rparr>"

lemma started_reach:
  "eltReach (at Waiting Looping True True True False)" "eltReach (at Started Looping True True True False)"
proof -
  have "eltReach (at Fresh NotStarted False False False False)"
    using eltReach.new by (simp add: at_def EventLoopThread_ctor_def)
  then have "eltReach (at Waiting Ctor False True False False)"
    by (rule eltReach_step(1)) (simp add: startStep.simps at_def)
  then have "eltReach (at Waiting Init False True True False)"
    by (rule eltReach_step(2)) (simp add: funcStep.simps at_def)
  then have "eltReach (at Waiting Publish False True True False)"
    by (rule eltReach_step(2)) (simp add: funcStep.simps at_def)
  then show w: "eltReach (at Waiting Looping True True True False)"
    by (rule eltReach_step(2)) (simp add: funcStep.simps at_def)
  then show "eltReach (at Started Looping True True True False)"
    by (rule eltReach_step(1)) (simp add: startStep.simps at_def)
qed

text \<open>Once asked to quit, the thread comes to its end wherever the owner is.\<close>

lemma ends_reach:
  assumes "eltReach (at owner Looping True thr True True)"
  shows "eltReach (at owner Clearing True thr True True)" "eltReach (at owner Leaving False thr True True)"
    "eltReach (at owner Ended False thr False True)"
proof -
  show a: "eltReach (at owner Clearing True thr True True)"
    using assms by (rule eltReach_step(2)) (simp add: funcStep.simps at_def)
  then show b: "eltReach (at owner Leaving False thr True True)"
    by (rule eltReach_step(2)) (simp add: funcStep.simps at_def)
  then show "eltReach (at owner Ended False thr False True)"
    by (rule eltReach_step(2)) (simp add: funcStep.simps at_def)
qed

lemma quits_reach: "eltReach (at owner Looping True thr True False) \<Longrightarrow> eltReach (at owner Looping True thr True True)"
  by (erule eltReach_step(2)) (simp add: funcStep.simps at_def)

theorem thread_lifecycle_witness: "lt_loop (at Started Looping True True True False)"
  using thread_lifecycle[OF started_reach(2)] by (simp add: at_def)

text \<open>
  C40. The ways the object goes wrong, each by an interleaving of its steps. Its destructor can use
  the loop after its destruction, with nobody but the destructor itself asking it to quit: between
  the flag and the wake-up of \<^verbatim>\<open>quit\<close> the thread can see the flag and end. When a task quits the loop,
  the pointer can become null between the destructor's two readings of it; or the destructor finds
  it null and destroys the thread unjoined, which terminates the process; and when the loop quits
  before the owner looks, \<^verbatim>\<open>startLoop\<close> waits for ever.
\<close>

theorem thread_hazards:
  "(\<exists>s. eltReach s \<and> lt_owner s = Failed (UseAfterFree ''EventLoop::quit'')) \<and>
   (\<exists>s. eltReach s \<and> lt_owner s = Failed (NullDeref ''EventLoopThread::~EventLoopThread'')) \<and>
   (\<exists>s. eltReach s \<and> lt_owner s = Failed (Terminate ''std::thread::~thread'')) \<and>
   (\<exists>s. eltReach s \<and> lt_owner s = Waiting \<and> (\<forall>s'. \<not> startStep s s' \<and> \<not> funcStep s s' \<and> \<not> dtorStep s s'))"
proof (intro conjI)
  have q: "eltReach (at Quitting Looping True True True False)"
    using started_reach(2) by (rule eltReach_step(3)) (simp add: dtorStep.simps at_def)
  then have "eltReach (at Waking Looping True True True True)"
    by (rule eltReach_step(3)) (simp add: dtorStep.simps at_def)
  then have "eltReach (at Waking Ended False True False True)" by (rule ends_reach)
  then have "eltReach (at (Failed (UseAfterFree ''EventLoop::quit'')) Ended False True False True)"
    by (rule eltReach_step(3)) (simp add: dtorStep.simps at_def)
  then show "\<exists>s. eltReach s \<and> lt_owner s = Failed (UseAfterFree ''EventLoop::quit'')"
    by - (rule exI, rule conjI, assumption, simp add: at_def)
  have "eltReach (at Quitting Leaving False True True True)" using quits_reach[OF q] by (rule ends_reach)
  then have "eltReach (at (Failed (NullDeref ''EventLoopThread::~EventLoopThread'')) Leaving False True True True)"
    by (rule eltReach_step(3)) (simp add: dtorStep.simps at_def)
  then show "\<exists>s. eltReach s \<and> lt_owner s = Failed (NullDeref ''EventLoopThread::~EventLoopThread'')"
    by - (rule exI, rule conjI, assumption, simp add: at_def)
  have "eltReach (at Started Ended False True False True)" using quits_reach[OF started_reach(2)] by (rule ends_reach)
  then have "eltReach (at Members Ended False True False True)"
    by (rule eltReach_step(3)) (simp add: dtorStep.simps at_def)
  then have "eltReach (at (Failed (Terminate ''std::thread::~thread'')) Ended False True False True)"
    by (rule eltReach_step(3)) (simp add: dtorStep.simps at_def)
  then show "\<exists>s. eltReach s \<and> lt_owner s = Failed (Terminate ''std::thread::~thread'')"
    by - (rule exI, rule conjI, assumption, simp add: at_def)
  have "eltReach (at Waiting Ended False True False True)" using quits_reach[OF started_reach(1)] by (rule ends_reach)
  then show "\<exists>s. eltReach s \<and> lt_owner s = Waiting \<and> (\<forall>s'. \<not> startStep s s' \<and> \<not> funcStep s s' \<and> \<not> dtorStep s s')"
    by - (rule exI, rule conjI, assumption, simp add: at_def startStep.simps funcStep.simps dtorStep.simps)
qed

end
