(* ===== verification/LoopThreads.thy ===== *)
theory LoopThreads
  imports EventLoop
begin

text \<open>
  src/net/EventLoop.cpp under several threads. The loop thread runs \<^verbatim>\<open>loop()\<close>; any other thread may
  call \<^verbatim>\<open>queueInLoop\<close> and \<^verbatim>\<open>quit\<close> at any time. The threads share one state, that of the loop, and are
  interleaved statement by statement: what is atomic is one critical section of \<^verbatim>\<open>_mtx\<close>, one
  system call, or one access to a flag. The statements are those of the sequential model
  (\<open>queueInLoop_prims\<close>, \<open>quit_prims\<close>, \<open>doTask_alone\<close>).
\<close>

section \<open>The calls, statement by statement\<close>

datatype 't prim = Push 't | WakeQueue | SetExit | WakeQuit

datatype 't act = Queue 't | QuitLoop

fun prims :: "'t act \<Rightarrow> 't prim list" where
  "prims (Queue t) = [Push t, WakeQueue]"
| "prims QuitLoop = [SetExit, WakeQuit]"

fun runPrim :: "'t prim \<Rightarrow> ('t, 'z) taskq_scheme stmt" where
  "runPrim (Push t) = upd (\<lambda>s. s\<lparr>tasks := tasks s @ [t]\<rparr>)"
| "runPrim WakeQueue = doIf (\<lambda>s. \<not> isInLoopThread s \<or> workingFlag s) wakeup"
| "runPrim SetExit = upd (\<lambda>s. s\<lparr>exitFlag := True\<rparr>)"
| "runPrim WakeQuit = doIf (\<lambda>s. \<not> isInLoopThread s) wakeup"

lemma queueInLoop_prims: "queueInLoop t = block (map runPrim (prims (Queue t)))"
  by (simp add: queueInLoop_def)

lemma quit_prims: "quit = block (map runPrim (prims QuitLoop))"
  by (simp add: quit_def)

section \<open>The threads\<close>

text \<open>
  Where the loop thread is: at the test of \<^verbatim>\<open>_exitFlag\<close>, in the wait, among the callbacks of the
  active channels (\<open>None\<close> is the wake-up channel's own), at the swap of \<^verbatim>\<open>doTask\<close>, or in the tasks
  taken. The callback or task being run has the given calls on its loop still to make.
\<close>

datatype 't pc =
    Check
  | Wait
  | Events "'t option list" "'t act list"
  | Take
  | Run "'t list" "'t act list"
  | Returned

text \<open>The shared state, the statements left of the call each thread is in, and the tasks run.\<close>

record 't lsys = "'t taskq" +
  l_pc :: "'t pc"
  l_mid :: "int \<Rightarrow> 't prim list"
  l_ran :: "'t list"

definition wakeReadable :: "('t, 'z) taskq_scheme \<Rightarrow> bool" where
  "wakeReadable s \<longleftrightarrow> readable (wakeupFd s) (trace s)"

abbreviation loopMid :: "'t lsys \<Rightarrow> 't prim list" where
  "loopMid s \<equiv> l_mid s (loopTid s)"

datatype thread = Loop | Timeout | Other int

text \<open>
  \<open>acts t\<close> are the calls the closure \<open>t\<close> makes on the loop. The wait returns when a descriptor is
  ready, the wake-up channel among the active ones exactly when the event descriptor is readable,
  or after its ten seconds.
\<close>

inductive lstep :: "('t \<Rightarrow> 't act list) \<Rightarrow> thread \<Rightarrow> 't lsys \<Rightarrow> 't lsys \<Rightarrow> bool" for acts where
  check: "l_pc s = Check \<Longrightarrow> loopMid s = [] \<Longrightarrow>
    lstep acts Loop s (s\<lparr>l_pc := (if exitFlag s then Returned else Wait)\<rparr>)"
| wait: "l_pc s = Wait \<Longrightarrow> loopMid s = [] \<Longrightarrow> cbs \<noteq> [] \<Longrightarrow> None \<in> set cbs \<longleftrightarrow> wakeReadable s \<Longrightarrow>
    lstep acts Loop s (s\<lparr>l_pc := Events cbs []\<rparr>)"
| timeout: "l_pc s = Wait \<Longrightarrow> loopMid s = [] \<Longrightarrow> \<not> wakeReadable s \<Longrightarrow>
    lstep acts Timeout s (s\<lparr>l_pc := Events [] []\<rparr>)"
| wakeRead: "l_pc s = Events (None # cbs) [] \<Longrightarrow> loopMid s = [] \<Longrightarrow> EventLoop_handleRead s = Inr s' \<Longrightarrow>
    lstep acts Loop s (s'\<lparr>l_pc := Events cbs []\<rparr>)"
| callback: "l_pc s = Events (Some t # cbs) [] \<Longrightarrow> loopMid s = [] \<Longrightarrow>
    lstep acts Loop s (s\<lparr>l_pc := Events cbs (acts t)\<rparr>)"
| work: "l_pc s = Events [] [] \<Longrightarrow> loopMid s = [] \<Longrightarrow>
    lstep acts Loop s (s\<lparr>workingFlag := True, l_pc := Take\<rparr>)"
| take: "l_pc s = Take \<Longrightarrow> loopMid s = [] \<Longrightarrow>
    lstep acts Loop s (s\<lparr>tasks := [], l_pc := Run (tasks s) []\<rparr>)"
| task: "l_pc s = Run (t # ts) [] \<Longrightarrow> loopMid s = [] \<Longrightarrow>
    lstep acts Loop s (s\<lparr>l_pc := Run ts (acts t), l_ran := l_ran s @ [t]\<rparr>)"
| rest: "l_pc s = Run [] [] \<Longrightarrow> loopMid s = [] \<Longrightarrow>
    lstep acts Loop s (s\<lparr>workingFlag := False, l_pc := Check\<rparr>)"
| callEvent: "l_pc s = Events cbs (a # as) \<Longrightarrow> loopMid s = [] \<Longrightarrow>
    lstep acts Loop s (s\<lparr>l_pc := Events cbs as, l_mid := (l_mid s)(loopTid s := prims a)\<rparr>)"
| callTask: "l_pc s = Run ts (a # as) \<Longrightarrow> loopMid s = [] \<Longrightarrow>
    lstep acts Loop s (s\<lparr>l_pc := Run ts as, l_mid := (l_mid s)(loopTid s := prims a)\<rparr>)"
| loopStmt: "loopMid s = p # ps \<Longrightarrow> runPrim p (s\<lparr>curTid := loopTid s\<rparr>) = Inr s' \<Longrightarrow>
    lstep acts Loop s (s'\<lparr>l_mid := (l_mid s)(loopTid s := ps)\<rparr>)"
| call: "i \<noteq> loopTid s \<Longrightarrow> l_mid s i = [] \<Longrightarrow>
    lstep acts (Other i) s (s\<lparr>l_mid := (l_mid s)(i := prims a)\<rparr>)"
| stmt: "i \<noteq> loopTid s \<Longrightarrow> l_mid s i = p # ps \<Longrightarrow> runPrim p (s\<lparr>curTid := i\<rparr>) = Inr s' \<Longrightarrow>
    lstep acts (Other i) s (s'\<lparr>l_mid := (l_mid s)(i := ps)\<rparr>)"

inductive_cases lstep_LoopE: "lstep acts Loop s s'"
inductive_cases lstep_TimeoutE: "lstep acts Timeout s s'"
inductive_cases lstep_OtherE: "lstep acts (Other i) s s'"

text \<open>The states reached from one in which the loop is about to start and nobody is in a call.\<close>

definition lstart :: "'t lsys \<Rightarrow> bool" where
  "lstart s \<longleftrightarrow> l_pc s = Check \<and> (\<forall>i. l_mid s i = []) \<and> \<not> workingFlag s \<and> (tasks s = [] \<or> wakeReadable s)"

inductive lreach :: "('t \<Rightarrow> 't act list) \<Rightarrow> 't lsys \<Rightarrow> bool" for acts where
  start: "lstart s \<Longrightarrow> lreach acts s"
| move: "lreach acts s \<Longrightarrow> lstep acts thr s s' \<Longrightarrow> lreach acts s'"

section \<open>What the statements do\<close>

text \<open>\<open>wakeStep\<close>: a system call on the event descriptor, whatever it answers.\<close>

lemma prim_simps:
  "runPrim (Push t) s = Inr s' \<longleftrightarrow> s' = s\<lparr>tasks := tasks s @ [t]\<rparr>"
  "runPrim SetExit s = Inr s' \<longleftrightarrow> s' = s\<lparr>exitFlag := True\<rparr>"
  "runPrim WakeQueue s = Inr s' \<longleftrightarrow> s' = (if \<not> isInLoopThread s \<or> workingFlag s then afterWakeup s else s)"
  "runPrim WakeQuit s = Inr s' \<longleftrightarrow> s' = (if \<not> isInLoopThread s then afterWakeup s else s)"
  by (auto simp: upd_def doIf_def wakeup_eq)

lemma lsys_frame [simp]:
  "l_pc (logged l s) = l_pc s" "l_pc (afterSys c s) = l_pc s" "l_pc (afterWakeup s) = l_pc s"
  "l_mid (logged l s) = l_mid s" "l_mid (afterSys c s) = l_mid s" "l_mid (afterWakeup s) = l_mid s"
  "l_ran (logged l s) = l_ran s" "l_ran (afterSys c s) = l_ran s" "l_ran (afterWakeup s) = l_ran s"
  by (simp_all add: logged_def afterSys_def afterWakeup_def Let_def)

lemma wakeReadable_simps [simp]:
  "wakeReadable (afterWakeup s)"
  "wakeReadable (s\<lparr>tasks := ts\<rparr>) = wakeReadable s" "wakeReadable (s\<lparr>exitFlag := b\<rparr>) = wakeReadable s"
  "wakeReadable (s\<lparr>workingFlag := b\<rparr>) = wakeReadable s" "wakeReadable (s\<lparr>curTid := i\<rparr>) = wakeReadable s"
  by (simp_all add: wakeReadable_def readableStep_def)

lemma wakeReadable_lsys [simp]:
  "wakeReadable (s\<lparr>l_pc := p\<rparr>) = wakeReadable s" "wakeReadable (s\<lparr>l_mid := m\<rparr>) = wakeReadable s"
  "wakeReadable (s\<lparr>l_ran := r\<rparr>) = wakeReadable s"
  by (simp_all add: wakeReadable_def)

lemma EventLoop_handleRead_eq:
  "EventLoop_handleRead s = Inr (let s1 = afterSys (SysRead (wakeupFd s) 8) s in
     if a_ret (nextAns s) \<noteq> 8 then logged ERROR s1 else s1)"
  by (simp add: EventLoop_handleRead_def letIn_def call_def sysRet_eq doIf_def Let_def)

section \<open>The invariant\<close>

fun fetching :: "'t pc \<Rightarrow> bool" where
  "fetching (Events cbs as) = True"
| "fetching Take = True"
| "fetching p = False"

fun atWork :: "'t pc \<Rightarrow> bool" where
  "atWork (Run ts as) = True"
| "atWork Take = True"
| "atWork p = False"

fun inClosure :: "'t pc \<Rightarrow> bool" where
  "inClosure (Run ts as) = True"
| "inClosure (Events cbs as) = True"
| "inClosure p = False"

definition midOK :: "'t prim list \<Rightarrow> bool" where
  "midOK ps \<longleftrightarrow> ps = [] \<or> ps = [WakeQueue] \<or> ps = [WakeQuit] \<or> (\<exists>a. ps = prims a)"

lemma midOK_simps [simp]:
  "midOK []" "midOK [WakeQueue]" "midOK [WakeQuit]" "midOK (prims a)"
  by (auto simp: midOK_def)

lemma midOK_cases:
  assumes "midOK (p # ps)"
  obtains (push) t where "p = Push t" "ps = [WakeQueue]" | (exit) "p = SetExit" "ps = [WakeQuit]"
  | (wakeQueue) "p = WakeQueue" "ps = []" | (wakeQuit) "p = WakeQuit" "ps = []"
proof -
  consider "p = WakeQueue" "ps = []" | "p = WakeQuit" "ps = []" | a where "p # ps = prims a"
    using assms by (auto simp: midOK_def)
  then show thesis
  proof cases
    case 3
    then show thesis by (cases a) (simp_all add: push exit)
  qed (simp_all add: wakeQueue wakeQuit)
qed

text \<open>Some thread's next statement writes the event descriptor.\<close>

definition willWake :: "'t lsys \<Rightarrow> bool" where
  "willWake s \<longleftrightarrow> (\<exists>i. i \<noteq> loopTid s \<and> (l_mid s i = [WakeQueue] \<or> l_mid s i = [WakeQuit])) \<or>
     (workingFlag s \<and> loopMid s = [WakeQueue])"

definition willWakeQuit :: "'t lsys \<Rightarrow> bool" where
  "willWakeQuit s \<longleftrightarrow> (\<exists>i. i \<noteq> loopTid s \<and> l_mid s i = [WakeQuit])"

lemma willWakeQuit_willWake: "willWakeQuit s \<Longrightarrow> willWake s"
  unfolding willWakeQuit_def willWake_def by blast

definition linv :: "'t lsys \<Rightarrow> bool" where
  "linv s \<longleftrightarrow> (\<forall>i. midOK (l_mid s i)) \<and> (workingFlag s \<longleftrightarrow> atWork (l_pc s)) \<and>
     (loopMid s \<noteq> [] \<longrightarrow> inClosure (l_pc s)) \<and>
     (\<not> fetching (l_pc s) \<and> tasks s \<noteq> [] \<longrightarrow> wakeReadable s \<or> willWake s) \<and>
     (l_pc s = Wait \<and> exitFlag s \<longrightarrow> wakeReadable s \<or> willWakeQuit s)"

lemma linv_start: "lstart s \<Longrightarrow> linv s"
  by (auto simp: linv_def lstart_def)

text \<open>The steps of the loop thread outside its calls.\<close>

lemma linv_pc:
  assumes "linv s" "loopMid s = []" "tasks s' = tasks s" "exitFlag s' = exitFlag s" "l_mid s' = l_mid s"
    "loopTid s' = loopTid s" "workingFlag s' = atWork (l_pc s')" "\<not> fetching (l_pc s') \<longrightarrow> \<not> fetching (l_pc s) \<and>
       wakeReadable s' = wakeReadable s" "l_pc s' = Wait \<longrightarrow> \<not> exitFlag s"
  shows "linv s'"
  using assms unfolding linv_def willWake_def willWakeQuit_def by auto

text \<open>A statement of a call.\<close>

lemma willWakeQuit_upd:
  assumes "willWakeQuit s" "l_mid s i \<noteq> [WakeQuit]" "l_mid s' = (l_mid s)(i := ps)" "loopTid s' = loopTid s"
  shows "willWakeQuit s'"
proof -
  obtain j where j: "j \<noteq> loopTid s" "l_mid s j = [WakeQuit]" using assms(1) by (auto simp: willWakeQuit_def)
  then have "j \<noteq> i" using assms(2) by auto
  with j assms(3,4) have "j \<noteq> loopTid s' \<and> l_mid s' j = [WakeQuit]" by simp
  then show ?thesis unfolding willWakeQuit_def by blast
qed

lemma willWake_upd:
  assumes "willWake s" "l_mid s i \<noteq> [WakeQuit] \<or> i = loopTid s" "l_mid s i \<noteq> [WakeQueue]" "l_mid s' = (l_mid s)(i := ps)"
    "loopTid s' = loopTid s" "workingFlag s' = workingFlag s"
  shows "willWake s'"
proof -
  consider j where "j \<noteq> loopTid s" "l_mid s j = [WakeQueue] \<or> l_mid s j = [WakeQuit]"
    | "workingFlag s" "loopMid s = [WakeQueue]" using assms(1) by (auto simp: willWake_def)
  then show ?thesis
  proof cases
    case (1 j)
    then have "j \<noteq> i" using assms(2,3) by auto
    with 1 assms(4,5) have "j \<noteq> loopTid s' \<and> (l_mid s' j = [WakeQueue] \<or> l_mid s' j = [WakeQuit])" by simp
    then show ?thesis unfolding willWake_def by blast
  next
    case 2
    then have "loopTid s \<noteq> i" using assms(3) by auto
    with 2 assms(4-6) show ?thesis by (simp add: willWake_def)
  qed
qed

lemma linv_conj:
  assumes "linv s"
  shows "midOK (l_mid s i)" "workingFlag s \<longleftrightarrow> atWork (l_pc s)" "loopMid s \<noteq> [] \<Longrightarrow> inClosure (l_pc s)"
    "\<not> fetching (l_pc s) \<Longrightarrow> tasks s \<noteq> [] \<Longrightarrow> wakeReadable s \<or> willWake s"
    "l_pc s = Wait \<Longrightarrow> exitFlag s \<Longrightarrow> wakeReadable s \<or> willWakeQuit s"
  using assms by (simp_all add: linv_def)

lemma closure_work: "inClosure p \<Longrightarrow> \<not> fetching p \<Longrightarrow> atWork p"
  by (cases p) simp_all

lemma linv_stmt:
  fixes s t :: "'t lsys"
  assumes inv: "linv s" and mid: "l_mid s i = p # ps" and run: "runPrim p (s\<lparr>curTid := i\<rparr>) = Inr t"
  shows "linv (t\<lparr>l_mid := (l_mid s)(i := ps)\<rparr>)"
proof -
  let ?t = "t\<lparr>l_mid := (l_mid s)(i := ps)\<rparr>"
  note c = linv_conj[OF inv]
  have ok: "midOK (p # ps)" using c(1)[of i] mid by simp
  have i: "i = loopTid s \<Longrightarrow> inClosure (l_pc s)" using c(3) mid by simp
  have "l_pc t = l_pc s \<and> workingFlag t = workingFlag s \<and> loopTid t = loopTid s"
    using run by (cases p) (simp_all add: prim_simps del: runPrim.simps)
  then have fr: "l_pc t = l_pc s" "workingFlag t = workingFlag s" "loopTid t = loopTid s" by simp_all
  have "midOK ps" using ok by (cases rule: midOK_cases) simp_all
  then have m: "midOK (l_mid ?t j)" for j using c(1) by simp
  have cl: "l_mid ?t (loopTid ?t) \<noteq> [] \<Longrightarrow> inClosure (l_pc ?t)" using i c(3) fr by (auto split: if_splits)
  let ?goal = "(\<not> fetching (l_pc ?t) \<longrightarrow> tasks ?t \<noteq> [] \<longrightarrow> wakeReadable ?t \<or> willWake ?t) \<and>
    (l_pc ?t = Wait \<longrightarrow> exitFlag ?t \<longrightarrow> wakeReadable ?t \<or> willWakeQuit ?t)"
  have other: "i \<noteq> loopTid s" if "l_pc ?t = Wait" using i fr(1) that by auto
  have work: "i \<noteq> loopTid s \<or> workingFlag s" if "\<not> fetching (l_pc ?t)"
    using i closure_work that fr(1) c(2) by auto
  have "?goal"
    using ok
  proof (cases rule: midOK_cases)
    case (push u)
    then have t: "t = s\<lparr>curTid := i, tasks := tasks s @ [u]\<rparr>" using run by (simp del: runPrim.simps add: prim_simps)
    have "willWake ?t" if "\<not> fetching (l_pc ?t)" using work[OF that] push(2) t by (auto simp: willWake_def)
    moreover have "wakeReadable ?t \<or> willWakeQuit ?t" if "l_pc ?t = Wait" "exitFlag ?t"
      using c(5) that t mid push willWakeQuit_upd[of s i ?t ps] by auto
    ultimately show ?goal by blast
  next
    case exit
    then have t: "t = s\<lparr>curTid := i, exitFlag := True\<rparr>" using run by (simp del: runPrim.simps add: prim_simps)
    have "wakeReadable ?t \<or> willWake ?t" if "\<not> fetching (l_pc ?t)" "tasks ?t \<noteq> []"
      using c(4) that t mid exit willWake_upd[of s i ?t ps] by auto
    moreover have "willWakeQuit ?t" if "l_pc ?t = Wait" using other[OF that] t exit by (auto simp: willWakeQuit_def)
    ultimately show ?goal by blast
  next
    case wakeQueue
    then have "wakeReadable ?t" if "i \<noteq> loopTid s \<or> workingFlag s"
      using run that by (auto simp del: runPrim.simps simp: prim_simps isInLoopThread_def)
    then show ?goal using work other by blast
  next
    case wakeQuit
    then have away: "wakeReadable ?t" if "i \<noteq> loopTid s"
      using run that by (auto simp del: runPrim.simps simp: prim_simps isInLoopThread_def)
    have "wakeReadable ?t \<or> willWake ?t" if a: "\<not> fetching (l_pc ?t)" "tasks ?t \<noteq> []" and "i = loopTid s"
    proof -
      have t: "t = s\<lparr>curTid := i\<rparr>" using run wakeQuit that(3)
        by (simp del: runPrim.simps add: prim_simps isInLoopThread_def)
      then have "wakeReadable s \<or> willWake s" using c(4) a by simp
      then show ?thesis using t that(3) mid wakeQuit willWake_upd[of s i ?t ps] by auto
    qed
    then show ?goal using away other by blast
  qed
  then show ?thesis unfolding linv_def using m cl c(2) fr by simp
qed

text \<open>Entering a call.\<close>

lemma linv_call:
  assumes inv: "linv s" and "l_mid s i = []" and "i = loopTid s \<longrightarrow> inClosure p"
    and "fetching p = fetching (l_pc s)" "atWork p = atWork (l_pc s)" "p = Wait \<longrightarrow> l_pc s = Wait"
    and "inClosure p = inClosure (l_pc s)"
  shows "linv (s\<lparr>l_pc := p, l_mid := (l_mid s)(i := prims a)\<rparr>)"
proof -
  let ?t = "s\<lparr>l_pc := p, l_mid := (l_mid s)(i := prims a)\<rparr>"
  note c = linv_conj[OF inv]
  have ne: "prims a \<noteq> []" by (cases a) simp_all
  have w: "willWake s \<Longrightarrow> willWake ?t" "willWakeQuit s \<Longrightarrow> willWakeQuit ?t"
    using assms(2) willWake_upd[of s i ?t "prims a"] willWakeQuit_upd[of s i ?t "prims a"] by simp_all
  have m: "midOK (l_mid ?t j)" for j using c(1) by simp
  have cl: "l_mid ?t (loopTid ?t) \<noteq> [] \<Longrightarrow> inClosure (l_pc ?t)"
    using assms(3,7) c(3) by (simp split: if_splits)
  have "\<not> fetching (l_pc ?t) \<Longrightarrow> tasks ?t \<noteq> [] \<Longrightarrow> wakeReadable ?t \<or> willWake ?t" using c(4) w(1) assms(4) by auto
  moreover have "l_pc ?t = Wait \<Longrightarrow> exitFlag ?t \<Longrightarrow> wakeReadable ?t \<or> willWakeQuit ?t"
    using c(5) w(2) assms(6) by auto
  ultimately show ?thesis unfolding linv_def using m cl c(2) assms(5) by simp
qed

lemma linv_lstep: "lstep acts thr s s' \<Longrightarrow> linv s \<Longrightarrow> linv s'"
proof (induction rule: lstep.induct)
  case (wakeRead s cbs s')
  then show ?case
    by (intro linv_pc[OF wakeRead(4,2)]) (auto simp: EventLoop_handleRead_eq Let_def linv_def split: if_splits)
next
  case (loopStmt s p ps s')
  then show ?case using linv_stmt[of s "loopTid s" p ps s'] by simp
next
  case (stmt i s p ps s')
  then show ?case using linv_stmt[of s i p ps s'] by simp
next
  case (callEvent s cbs a as)
  then show ?case by (intro linv_call) simp_all
next
  case (callTask s ts a as)
  then show ?case by (intro linv_call) simp_all
next
  case (call i s a)
  then show ?case using linv_call[of s i "l_pc s" a] by simp
next
  case (check s)
  then show ?case by (intro linv_pc[OF check(3,2)]) (auto simp: linv_def)
next
  case (wait s cbs)
  then show ?case by (intro linv_pc[OF wait(5,2)]) (auto simp: linv_def)
next
  case (timeout s)
  then show ?case by (intro linv_pc[OF timeout(4,2)]) (auto simp: linv_def)
next
  case (callback s t cbs)
  then show ?case by (intro linv_pc[OF callback(3,2)]) (auto simp: linv_def)
next
  case (work s)
  then show ?case by (intro linv_pc[OF work(3,2)]) (auto simp: linv_def)
next
  case (take s)
  then show ?case by (auto simp: linv_def)
next
  case (task s t ts)
  then show ?case by (intro linv_pc[OF task(3,2)]) (auto simp: linv_def)
next
  case (rest s)
  then show ?case by (intro linv_pc[OF rest(3,2)]) (auto simp: linv_def)
qed

lemma linv_lreach: "lreach acts s \<Longrightarrow> linv s"
  by (induction rule: lreach.induct) (auto intro: linv_start linv_lstep)

section \<open>The loop thread alone\<close>

text \<open>
  Undisturbed, the loop thread computes what the sequential model says: \<open>taskq.truncate\<close> forgets
  the threads, \<open>closure acts\<close> runs a closure's calls one after another.
\<close>

definition closure :: "('t \<Rightarrow> 't act list) \<Rightarrow> 't \<Rightarrow> ('t, 'z) taskq_scheme stmt" where
  "closure acts t = block (map (\<lambda>a. block (map runPrim (prims a))) (acts t))"

abbreviation alone :: "('t \<Rightarrow> 't act list) \<Rightarrow> 't lsys \<Rightarrow> 't lsys \<Rightarrow> bool" where
  "alone acts \<equiv> (lstep acts Loop)\<^sup>*\<^sup>*"

definition core :: "'t lsys \<Rightarrow> 't taskq" where
  "core s = taskq.truncate s"

lemma core_simps [simp]:
  "core (s\<lparr>l_pc := p\<rparr>) = core s" "core (s\<lparr>l_mid := m\<rparr>) = core s" "core (s\<lparr>l_ran := r\<rparr>) = core s"
  "core (s\<lparr>tasks := ts\<rparr>) = (core s)\<lparr>tasks := ts\<rparr>" "core (s\<lparr>workingFlag := b\<rparr>) = (core s)\<lparr>workingFlag := b\<rparr>"
  "tasks (core s) = tasks s" "workingFlag (core s) = workingFlag s" "curTid (core s) = curTid s"
  "loopTid (core s) = loopTid s"
  by (cases s, simp add: core_def taskq.defs)+

lemma runPrim_core:
  obtains t where "runPrim p s = Inr t" "runPrim p (core s) = Inr (core t)" "l_pc t = l_pc s" "l_mid t = l_mid s"
    "l_ran t = l_ran s" "loopTid t = loopTid s" "curTid t = curTid s"
proof (cases s)
  case (fields)
  show thesis
  proof (cases p)
    case (Push u)
    then show thesis by (intro that[of "s\<lparr>tasks := tasks s @ [u]\<rparr>"]) (simp_all add: upd_def)
  next
    case SetExit
    then show thesis by (intro that[of "s\<lparr>exitFlag := True\<rparr>"]) (simp_all add: upd_def fields core_def taskq.defs)
  next
    case WakeQueue
    then show thesis
      by (intro that[of "if \<not> isInLoopThread s \<or> workingFlag s then afterWakeup s else s"])
        (simp_all add: doIf_def wakeup_eq fields core_def taskq.defs isInLoopThread_def afterWakeup_def Let_def
          afterSys_def nextAns_def)
  next
    case WakeQuit
    then show thesis
      by (intro that[of "if \<not> isInLoopThread s then afterWakeup s else s"])
        (simp_all add: doIf_def wakeup_eq fields core_def taskq.defs isInLoopThread_def afterWakeup_def Let_def
          afterSys_def nextAns_def)
  qed
qed

lemma alone_stmts:
  assumes "loopMid s = ps" "curTid s = loopTid s"
  shows "\<exists>t. alone acts s t \<and> block (map runPrim ps) (core s) = Inr (core t) \<and> loopMid t = [] \<and> l_pc t = l_pc s \<and>
    l_ran t = l_ran s \<and> loopTid t = loopTid s \<and> curTid t = curTid s"
  using assms
proof (induction ps arbitrary: s)
  case Nil
  then show ?case by auto
next
  case (Cons p ps)
  obtain t where t: "runPrim p s = Inr t" "runPrim p (core s) = Inr (core t)" "l_pc t = l_pc s" "l_mid t = l_mid s"
    "l_ran t = l_ran s" "loopTid t = loopTid s" "curTid t = curTid s"
    by (rule runPrim_core)
  let ?t = "t\<lparr>l_mid := (l_mid s)(loopTid s := ps)\<rparr>"
  have "s\<lparr>curTid := loopTid s\<rparr> = s" using Cons.prems(2) by (cases s) simp
  then have st: "lstep acts Loop s ?t" using t(1) by (intro loopStmt[OF Cons.prems(1)]) simp
  obtain u where u: "alone acts ?t u" "block (map runPrim ps) (core ?t) = Inr (core u)" "loopMid u = []"
    "l_pc u = l_pc ?t" "l_ran u = l_ran ?t" "loopTid u = loopTid ?t" "curTid u = curTid ?t"
  proof -
    have "loopMid ?t = ps" "curTid ?t = loopTid ?t" using Cons.prems(2) t by simp_all
    note ih = Cons.IH[OF this]
    show thesis by (rule exE[OF ih], elim conjE) (rule that; assumption)
  qed
  have "alone acts s u" using st u(1) by (rule converse_rtranclp_into_rtranclp)
  with t u show ?case by (intro exI[of _ u]) (simp del: runPrim.simps)
qed

lemma alone_acts:
  assumes "l_pc s = Run ts as" "loopMid s = []" "curTid s = loopTid s"
  shows "\<exists>t. alone acts s t \<and> block (map (\<lambda>a. block (map runPrim (prims a))) as) (core s) = Inr (core t) \<and>
    l_pc t = Run ts [] \<and> loopMid t = [] \<and> l_ran t = l_ran s \<and> loopTid t = loopTid s \<and> curTid t = curTid s"
  using assms
proof (induction as arbitrary: s)
  case Nil
  then show ?case by auto
next
  case (Cons a as)
  let ?s = "s\<lparr>l_pc := Run ts as, l_mid := (l_mid s)(loopTid s := prims a)\<rparr>"
  have st: "lstep acts Loop s ?s" by (rule callTask[OF Cons.prems(1,2)])
  obtain t where t: "alone acts ?s t" "block (map runPrim (prims a)) (core ?s) = Inr (core t)" "loopMid t = []"
    "l_pc t = l_pc ?s" "l_ran t = l_ran ?s" "loopTid t = loopTid ?s" "curTid t = curTid ?s"
    using alone_stmts[of ?s "prims a" acts] Cons.prems(3) by auto
  obtain u where u: "alone acts t u" "block (map (\<lambda>a. block (map runPrim (prims a))) as) (core t) = Inr (core u)"
    "l_pc u = Run ts []" "loopMid u = []" "l_ran u = l_ran t" "loopTid u = loopTid t" "curTid u = curTid t"
    using Cons.IH[of t] Cons.prems(3) t by auto
  have "alone acts s u" using st t(1) u(1) by (meson converse_rtranclp_into_rtranclp rtranclp_trans)
  with t u show ?case by (intro exI[of _ u]) simp
qed

lemma alone_tasks:
  assumes "l_pc s = Run ts []" "loopMid s = []" "curTid s = loopTid s"
  shows "\<exists>t. alone acts s t \<and> block (map (closure acts) ts) (core s) = Inr (core t) \<and>
    l_pc t = Run [] [] \<and> loopMid t = [] \<and> l_ran t = l_ran s @ ts \<and> loopTid t = loopTid s \<and> curTid t = curTid s"
  using assms
proof (induction ts arbitrary: s)
  case Nil
  then show ?case by auto
next
  case (Cons x ts)
  let ?s = "s\<lparr>l_pc := Run ts (acts x), l_ran := l_ran s @ [x]\<rparr>"
  have st: "lstep acts Loop s ?s" by (rule task[OF Cons.prems(1,2)])
  obtain t where t: "alone acts ?s t" "block (map (\<lambda>a. block (map runPrim (prims a))) (acts x)) (core ?s) = Inr (core t)"
    "l_pc t = Run ts []" "loopMid t = []" "l_ran t = l_ran ?s" "loopTid t = loopTid ?s" "curTid t = curTid ?s"
    using alone_acts[of ?s ts "acts x" acts] Cons.prems by auto
  obtain u where u: "alone acts t u" "block (map (closure acts) ts) (core t) = Inr (core u)"
    "l_pc u = Run [] []" "loopMid u = []" "l_ran u = l_ran t @ ts" "loopTid u = loopTid t" "curTid u = curTid t"
    using Cons.IH[of t] Cons.prems(3) t by auto
  have "alone acts s u" using st t(1) u(1) by (meson converse_rtranclp_into_rtranclp rtranclp_trans)
  with t u show ?case by (intro exI[of _ u]) (simp add: closure_def[of acts x])
qed

section \<open>Properties\<close>


text \<open>A loop about to start, its descriptor as given, whose closures make no calls unless told to.\<close>

definition demoThreads :: "syscall list \<Rightarrow> nat list \<Rightarrow> nat lsys" where
  "demoThreads tr ts = taskq.extend ((demoTaskq (\<lambda>_. \<lparr>a_ret = 8, a_err = 0, a_payload = [], a_events = []\<rparr>) ts)
       \<lparr>isLooping := True, trace := tr\<rparr>)
     \<lparr>l_pc = Check, l_mid = (\<lambda>_. []), l_ran = []\<rparr>"

lemmas demoThreads_defs = demoThreads_def taskq.defs demoTaskq_def poll.defs demoPoll_def


text \<open>
  C26. Run without interruption, the loop thread's statements are the sequential \<^verbatim>\<open>doTask\<close>: from
  the end of the callbacks it gets back to the test of the exit flag in the state \<^verbatim>\<open>doTask\<close>
  computes, having run exactly the tasks that were queued, in order.
\<close>

theorem doTask_alone:
  assumes "l_pc s = Events [] []" and "loopMid s = []" and "curTid s = loopTid s"
  shows "\<exists>t. alone acts s t \<and> doTask (closure acts) (core s) = Inr (core t) \<and> l_pc t = Check \<and>
    l_ran t = l_ran s @ tasks s"
proof -
  let ?s1 = "s\<lparr>workingFlag := True, l_pc := Take\<rparr>"
  let ?s2 = "?s1\<lparr>tasks := [], l_pc := Run (tasks ?s1) []\<rparr>"
  have s1: "lstep acts Loop s ?s1" by (rule work[OF assms(1,2)])
  have s2: "lstep acts Loop ?s1 ?s2" by (rule take) (use assms(2) in simp_all)
  obtain t where t: "alone acts ?s2 t" "block (map (closure acts) (tasks s)) (core ?s2) = Inr (core t)"
    "l_pc t = Run [] []" "loopMid t = []" "l_ran t = l_ran s @ tasks s"
    using alone_tasks[of ?s2 "tasks s" acts] assms(2,3) by auto
  let ?t = "t\<lparr>workingFlag := False, l_pc := Check\<rparr>"
  have "lstep acts Loop t ?t" by (rule rest[OF t(3,4)])
  then have "alone acts s ?t" using s1 s2 t(1) by (meson rtranclp.rtrancl_into_rtrancl converse_rtranclp_into_rtranclp)
  moreover have "doTask (closure acts) (core s) = Inr (core ?t)"
    using t(2) by (simp add: doTask_def upd_def letIn_def)
  ultimately show ?thesis using t(5) by (intro exI[of _ ?t]) simp
qed

theorem doTask_alone_witness:
  "\<exists>t. alone (\<lambda>t. if t = 1 then [Queue 5] else []) ((demoThreads [] [1, 2])\<lparr>l_pc := Events [] []\<rparr>) t \<and>
     l_ran t = [1, 2] \<and> l_pc t = Check"
  using doTask_alone[of "(demoThreads [] [1, 2])\<lparr>l_pc := Events [] []\<rparr>" "\<lambda>t. if t = 1 then [Queue 5] else []"]
  by (auto simp: demoThreads_defs)

end
