(* ===== verification/LoopProgress.thy ===== *)
theory LoopProgress
  imports LoopThreads
begin

text \<open>
  src/net/EventLoop.cpp under several threads, what must happen: in every run that is fair to the threads
  that can move, the tasks queued are run and a loop that is asked to quit returns. Both rest on one
  argument (\<open>fair_progress\<close>): a distance that every step of the loop thread makes smaller.
\<close>

section \<open>Progress\<close>

text \<open>All tasks ever queued, in order: those run, those taken, those waiting.\<close>

fun batch :: "'t pc \<Rightarrow> 't list" where
  "batch (Run ts as) = ts"
| "batch p = []"

definition history :: "'t lsys \<Rightarrow> 't list" where
  "history s = l_ran s @ batch (l_pc s) @ tasks s"

lemma history_lstep: "lstep acts thr s s' \<Longrightarrow> \<exists>ts. history s' = history s @ ts"
proof (induction rule: lstep.induct)
  case (wakeRead s cbs s')
  then show ?case by (auto simp: history_def EventLoop_handleRead_eq Let_def split: if_splits)
next
  case (loopStmt s p ps s')
  then show ?case by (cases p) (auto simp del: runPrim.simps simp: history_def prim_simps split: if_splits)
next
  case (stmt i s p ps s')
  then show ?case by (cases p) (auto simp del: runPrim.simps simp: history_def prim_simps split: if_splits)
qed (auto simp: history_def)

text \<open>
  How far the loop thread is from running the task number \<open>n\<close> of the history: the stage of its
  round, then what is left of the callbacks or tasks, of the calls of the current one, and of the
  current call.
\<close>

fun stage :: "nat \<Rightarrow> nat \<Rightarrow> 't pc \<Rightarrow> nat" where
  "stage n r (Run ts as) = (if n < r + length ts then 0 else 5)"
| "stage n r Take = 1"
| "stage n r (Events cbs as) = 2"
| "stage n r Wait = 3"
| "stage n r Check = 4"
| "stage n r Returned = 0"

fun pcLeft :: "'t pc \<Rightarrow> nat \<times> nat" where
  "pcLeft (Run ts as) = (length ts, length as)"
| "pcLeft (Events cbs as) = (length cbs, length as)"
| "pcLeft p = (0, 0)"

definition distance :: "nat \<Rightarrow> 't lsys \<Rightarrow> nat \<times> (nat \<times> nat) \<times> nat" where
  "distance n s = (stage n (length (l_ran s)) (l_pc s), pcLeft (l_pc s), length (loopMid s))"

definition closer :: "((nat \<times> (nat \<times> nat) \<times> nat) \<times> (nat \<times> (nat \<times> nat) \<times> nat)) set" where
  "closer = less_than <*lex*> (less_than <*lex*> less_than) <*lex*> less_than"

lemma wf_closer: "wf closer"
  by (simp add: closer_def wf_lex_prod)

lemma runPrim_fields:
  fixes s t :: "'t lsys"
  assumes "runPrim p s = Inr t"
  shows "l_pc t = l_pc s" "l_mid t = l_mid s" "l_ran t = l_ran s" "loopTid t = loopTid s"
proof -
  obtain u where "runPrim p s = Inr u" "l_pc u = l_pc s" "l_mid u = l_mid s" "l_ran u = l_ran s" "loopTid u = loopTid s"
    by (rule runPrim_core[of p s]) (rule that; assumption)
  with assms show "l_pc t = l_pc s" "l_mid t = l_mid s" "l_ran t = l_ran s" "loopTid t = loopTid s" by simp_all
qed

lemma distance_loop:
  assumes "lstep acts thr s s'" "thr = Loop \<or> thr = Timeout" "linv s" "\<not> exitFlag s"
    "length (l_ran s) \<le> n" "n < length (history s)"
  shows "n < length (l_ran s') \<or> (distance n s', distance n s) \<in> closer"
  using assms
proof (induction rule: lstep.induct)
  case (wakeRead s cbs s')
  then show ?case by (auto simp: distance_def closer_def EventLoop_handleRead_eq Let_def split: if_splits)
next
  case (loopStmt s p ps s')
  note f = runPrim_fields[OF loopStmt(2)]
  then show ?case using loopStmt(1) by (simp add: distance_def closer_def)
qed (auto simp: distance_def closer_def history_def)

lemma other_lstep:
  assumes "lstep acts (Other i) s s'"
  shows "l_pc s' = l_pc s" "l_ran s' = l_ran s" "loopTid s' = loopTid s" "wakeReadable s \<Longrightarrow> wakeReadable s'"
    "j \<noteq> i \<Longrightarrow> l_mid s' j = l_mid s j" "loopMid s' = loopMid s"
proof -
  have stable: "wakeReadable t" if "runPrim p (s\<lparr>curTid := i\<rparr>) = Inr t" "wakeReadable s" for p t
    using that by (cases p) (auto simp del: runPrim.simps simp: prim_simps split: if_splits)
  show "l_pc s' = l_pc s" "l_ran s' = l_ran s" "loopTid s' = loopTid s" "wakeReadable s \<Longrightarrow> wakeReadable s'"
    "j \<noteq> i \<Longrightarrow> l_mid s' j = l_mid s j" "loopMid s' = loopMid s"
    using assms by (auto elim!: lstep_OtherE dest: runPrim_fields stable simp del: runPrim.simps)
qed

lemma distance_other: "lstep acts (Other i) s s' \<Longrightarrow> distance n s' = distance n s"
  using other_lstep[of acts i s s'] by (simp add: distance_def)

section \<open>Fair runs\<close>

text \<open>
  When the scheduler must not neglect a thread for ever: the loop thread unless it is blocked in
  the wait with nothing written to the event descriptor, or done; another thread in the middle of
  a call. A busy thread can move, so that fairness asks nothing impossible.
\<close>

fun busy :: "thread \<Rightarrow> 't lsys \<Rightarrow> bool" where
  "busy Loop s \<longleftrightarrow> l_pc s \<noteq> Returned \<and> (l_pc s = Wait \<longrightarrow> wakeReadable s)"
| "busy Timeout s \<longleftrightarrow> False"
| "busy (Other i) s \<longleftrightarrow> i \<noteq> loopTid s \<and> l_mid s i \<noteq> []"

definition fair :: "(nat \<Rightarrow> 't lsys) \<Rightarrow> (nat \<Rightarrow> thread) \<Rightarrow> bool" where
  "fair run sched \<longleftrightarrow> (\<forall>thr k. (\<forall>j \<ge> k. busy thr (run j)) \<longrightarrow> (\<exists>j \<ge> k. sched j = thr))"

definition isRun :: "('t \<Rightarrow> 't act list) \<Rightarrow> (nat \<Rightarrow> 't lsys) \<Rightarrow> (nat \<Rightarrow> thread) \<Rightarrow> bool" where
  "isRun acts run sched \<longleftrightarrow> lreach acts (run 0) \<and> (\<forall>k. lstep acts (sched k) (run k) (run (Suc k)))"

lemma busy_moves: "linv s \<Longrightarrow> busy thr s \<Longrightarrow> \<exists>t. lstep acts thr s t"
proof (cases thr)
  case Loop
  assume inv: "linv s" and b: "busy thr s"
  show ?thesis
  proof (cases "loopMid s")
    case (Cons p ps)
    obtain t where "runPrim p (s\<lparr>curTid := loopTid s\<rparr>) = Inr t" by (rule runPrim_core)
    then show ?thesis using Loop loopStmt[OF Cons] by blast
  next
    case Nil
    show ?thesis
    proof (cases "l_pc s")
      case (Events cbs as)
      obtain t where r: "EventLoop_handleRead s = Inr t" by (simp add: EventLoop_handleRead_eq)
      show ?thesis
      proof (cases as)
        case (Cons a as')
        then show ?thesis using Events Nil Loop callEvent by blast
      next
        case nil: Nil
        show ?thesis
        proof (cases cbs)
          case (Cons x xs)
          then have pc: "l_pc s = Events (x # xs) []" using Events nil by simp
          show ?thesis
          proof (cases x)
            case None
            then show ?thesis using wakeRead[OF pc[unfolded None] Nil r, of acts] Loop by blast
          next
            case (Some c)
            then show ?thesis using callback[OF pc[unfolded Some] Nil, of acts] Loop by blast
          qed
        next
          case Nil
          then show ?thesis using work[of s acts] Events nil \<open>loopMid s = []\<close> Loop by blast
        qed
      qed
    next
      case (Run ts as)
      show ?thesis
      proof (cases as)
        case (Cons a as')
        then show ?thesis using callTask[OF _ Nil, of ts a as' acts] Run Loop by blast
      next
        case nil: Nil
        then show ?thesis using task[OF _ Nil, of _ _ acts] rest[OF _ Nil, of acts] Run Loop
          by (cases ts) blast+
      qed
    next
      case Wait
      have "lstep acts Loop s (s\<lparr>l_pc := Events [None] []\<rparr>)"
        by (rule wait[OF Wait Nil]) (use b Loop Wait in auto)
      then show ?thesis using Loop by blast
    next
      case Check
      then show ?thesis using check[OF _ Nil, of acts] Loop by blast
    next
      case Take
      then show ?thesis using take[OF _ Nil, of acts] Loop by blast
    qed (use Loop b in simp)
  qed
next
  case (Other i)
  assume "busy thr s"
  then obtain p ps where i: "i \<noteq> loopTid s" "l_mid s i = p # ps" using Other by (auto simp: neq_Nil_conv)
  obtain t where "runPrim p (s\<lparr>curTid := i\<rparr>) = Inr t" by (rule runPrim_core)
  then show ?thesis using stmt[OF i] Other by blast
qed simp

lemma isRun_reach: "isRun acts run sched \<Longrightarrow> lreach acts (run k)"
  by (induction k) (auto simp: isRun_def intro: lreach.move)

lemma isRun_history:
  assumes "isRun acts run sched" "k \<le> j"
  shows "\<exists>ts. history (run j) = history (run k) @ ts"
  using assms(2)
proof (induction rule: dec_induct)
  case (step j)
  moreover obtain us where "history (run (Suc j)) = history (run j) @ us"
    using assms(1) history_lstep unfolding isRun_def by blast
  ultimately show ?case by auto
qed simp

text \<open>From some point on only other threads move: then one of the busy threads is neglected.\<close>

lemma only_others:
  assumes "\<And>j. m \<le> j \<Longrightarrow> \<exists>i. sched j = Other i" and "isRun acts run sched" and "m \<le> j"
  shows "l_pc (run j) = l_pc (run m) \<and> l_ran (run j) = l_ran (run m) \<and> loopTid (run j) = loopTid (run m) \<and>
    (wakeReadable (run m) \<longrightarrow> wakeReadable (run j))"
  using assms(3)
proof (induction rule: dec_induct)
  case (step j)
  obtain i where "sched j = Other i" using assms(1) step.hyps by blast
  then have "lstep acts (Other i) (run j) (run (Suc j))" using assms(2) by (metis isRun_def)
  from other_lstep(1-4)[OF this] step.IH show ?case by auto
qed simp

lemma write_wakes:
  assumes "isRun acts run sched" "sched j = Other i" "p = WakeQueue \<or> p = WakeQuit" "i \<noteq> loopTid (run j)"
    "l_mid (run j) i = [p]"
  shows "wakeReadable (run (Suc j))"
proof -
  have "lstep acts (Other i) (run j) (run (Suc j))" using assms(1,2) by (metis isRun_def)
  then show ?thesis using assms(3-5)
    by (elim lstep_OtherE) (auto simp del: runPrim.simps simp: prim_simps isInLoopThread_def)
qed

lemma neglect:
  assumes others: "\<And>j. m \<le> j \<Longrightarrow> \<exists>i. sched j = Other i" and run: "isRun acts run sched" and fair: "fair run sched"
    and "l_pc (run m) \<noteq> Returned" "l_pc (run m) = Wait \<Longrightarrow> tasks (run m) \<noteq> [] \<or> exitFlag (run m)"
  shows False
proof -
  have const: "l_pc (run j) = l_pc (run m) \<and> l_ran (run j) = l_ran (run m) \<and> loopTid (run j) = loopTid (run m) \<and>
    (wakeReadable (run m) \<longrightarrow> wakeReadable (run j))" if "m \<le> j" for j
    by (rule only_others[OF _ run that]) (rule others)
  have notLoop: "sched j \<noteq> Loop" if "m \<le> j" for j using others[OF that] by auto
  have idle: False if "\<And>j. k \<le> j \<Longrightarrow> busy Loop (run j)" "m \<le> k" for k
    using fair that notLoop unfolding fair_def by (metis order_trans)
  have wait: "l_pc (run m) = Wait"
  proof (rule ccontr)
    assume "l_pc (run m) \<noteq> Wait"
    then have "busy Loop (run j)" if "m \<le> j" for j using const[OF that] assms(4) by simp
    then show False by (rule idle[OF _ order_refl])
  qed
  have never: "\<not> wakeReadable (run k)" if "m \<le> k" for k
  proof
    assume w: "wakeReadable (run k)"
    have "busy Loop (run j)" if "k \<le> j" for j
    proof -
      have "\<And>j. k \<le> j \<Longrightarrow> \<exists>i. sched j = Other i" using others \<open>m \<le> k\<close> order_trans by blast
      then have "wakeReadable (run j)" using only_others[of k sched acts run j] run that w by simp
      then show ?thesis using const[of j] wait that \<open>m \<le> k\<close> by simp
    qed
    then show False using idle that by blast
  qed
  have inv: "linv (run m)" by (rule linv_lreach[OF isRun_reach[OF run]])
  then have "willWake (run m)"
    using linv_conj(4,5)[OF inv] wait assms(5) never[of m] willWakeQuit_willWake by auto
  moreover have "\<not> workingFlag (run m)" using inv wait by (simp add: linv_def)
  ultimately obtain i p where i: "i \<noteq> loopTid (run m)" "l_mid (run m) i = [p]" "p = WakeQueue \<or> p = WakeQuit"
    by (auto simp: willWake_def)
  have stuck: "l_mid (run j) i = [p] \<and> sched j \<noteq> Other i" if "m \<le> j" for j
    using that
  proof (induction rule: dec_induct)
    case base
    then show ?case using i write_wakes[OF run _ i(3)] never[of "Suc m"] by auto
  next
    case (step j)
    obtain i' where i': "sched j = Other i'" "i' \<noteq> i" using others step by (metis)
    then have "lstep acts (Other i') (run j) (run (Suc j))" using run by (metis isRun_def)
    then have "l_mid (run (Suc j)) i = [p]" using other_lstep(5) i'(2) step.IH by metis
    moreover have "i \<noteq> loopTid (run (Suc j))" using const[of "Suc j"] i(1) step.hyps by simp
    ultimately show ?case using write_wakes[OF run _ i(3)] never[of "Suc (Suc j)"] step.hyps by auto
  qed
  then have "busy (Other i) (run j)" if "m \<le> j" for j using const[of j] i(1) that by simp
  then obtain j where "m \<le> j" "sched j = Other i" using fair unfolding fair_def by blast
  with stuck show False by blast
qed

lemma returned_lstep: "lstep acts thr s s' \<Longrightarrow> l_pc s = Returned \<longrightarrow> exitFlag s \<Longrightarrow> l_pc s' = Returned \<longrightarrow> exitFlag s'"
proof (induction rule: lstep.induct)
  case (loopStmt s p ps s')
  then show ?case by (cases p) (auto simp del: runPrim.simps simp: prim_simps split: if_splits)
next
  case (stmt i s p ps s')
  then show ?case by (cases p) (auto simp del: runPrim.simps simp: prim_simps split: if_splits)
qed auto

lemma returned_lreach: "lreach acts s \<Longrightarrow> l_pc s = Returned \<longrightarrow> exitFlag s"
  by (induction rule: lreach.induct) (auto simp: lstart_def dest: returned_lstep)

text \<open>
  What eventually happens: a fair run cannot stay for ever in states \<open>A\<close> in which every move of the loop
  thread gets closer to leaving them, the moves of others change no distance, and the wait has something to
  end it. (At the least distance reached only other threads can move, and then one of them is neglected.)
\<close>

lemma fair_progress:
  assumes run: "isRun acts run sched" and fair: "fair run sched" and on: "\<And>j. k \<le> j \<Longrightarrow> A (run j)"
    and loop: "\<And>thr s s'. A s \<Longrightarrow> A s' \<Longrightarrow> linv s \<Longrightarrow> lstep acts thr s s' \<Longrightarrow> thr = Loop \<or> thr = Timeout \<Longrightarrow>
      (d s', d s) \<in> closer"
    and other: "\<And>i s s'. lstep acts (Other i) s s' \<Longrightarrow> d s' = d s"
    and waits: "\<And>s. A s \<Longrightarrow> l_pc s \<noteq> Returned \<and> (l_pc s = Wait \<longrightarrow> tasks s \<noteq> [] \<or> exitFlag s)"
  shows False
proof -
  have st: "lstep acts (sched j) (run j) (run (Suc j))" for j using run by (simp add: isRun_def)
  obtain m where m: "k \<le> m" "\<And>j. k \<le> j \<Longrightarrow> (d (run j), d (run m)) \<notin> closer"
  proof -
    have "wf (inv_image closer (\<lambda>j. d (run j)))" by (rule wf_inv_image[OF wf_closer])
    then obtain m where "m \<in> {k..}" "\<And>j. (j, m) \<in> inv_image closer (\<lambda>j. d (run j)) \<Longrightarrow> j \<notin> {k..}"
      by (rule wfE_min[of _ k "{k..}"]) (simp, rule that)
    then show thesis by (intro that[of m]) (auto simp: in_inv_image)
  qed
  have away: "\<exists>i. sched j = Other i" if "k \<le> j" "d (run j) = d (run m)" for j
  proof (rule ccontr)
    assume "\<nexists>i. sched j = Other i"
    then have "sched j = Loop \<or> sched j = Timeout" by (cases "sched j") auto
    from loop[OF on[OF that(1)] on linv_lreach[OF isRun_reach[OF run]] st this] that m(2)[of "Suc j"]
    show False by simp
  qed
  have "d (run j) = d (run m) \<and> (\<exists>i. sched j = Other i)" if "m \<le> j" for j
    using that
  proof (induction rule: dec_induct)
    case base
    then show ?case using away[of m] m(1) by blast
  next
    case (step j)
    then obtain i where "sched j = Other i" by blast
    with st[of j] have "d (run (Suc j)) = d (run m)" using other step.IH by metis
    moreover have "k \<le> Suc j" using step.hyps m(1) by simp
    ultimately show ?case using away by blast
  qed
  then have "\<exists>i. sched j = Other i" if "m \<le> j" for j using that by blast
  then show False
    by (rule neglect[OF _ run fair]) (use waits[OF on[OF m(1)]] in auto)
qed

lemma eventually_run:
  assumes run: "isRun acts run sched" and fair: "fair run sched" and on: "\<And>k. \<not> exitFlag (run k)"
    and n: "n < length (history (run k))"
  shows "\<exists>j \<ge> k. n < length (l_ran (run j))"
proof (rule ccontr)
  assume "\<not> ?thesis"
  then have late: "length (l_ran (run j)) \<le> n" if "k \<le> j" for j using that by (meson not_le)
  have hist: "n < length (history (run j))" if "k \<le> j" for j
    using isRun_history[OF run that] n by auto
  have here: "l_pc (run j) \<noteq> Returned" for j using returned_lreach[OF isRun_reach[OF run]] on by blast
  show False
  proof (rule fair_progress[OF run fair, where d = "distance n" and k = k and
        A = "\<lambda>s. \<not> exitFlag s \<and> l_pc s \<noteq> Returned \<and> length (l_ran s) \<le> n \<and> n < length (history s)"])
    show "(distance n s', distance n s) \<in> closer"
      if "\<not> exitFlag s \<and> l_pc s \<noteq> Returned \<and> length (l_ran s) \<le> n \<and> n < length (history s)"
        "\<not> exitFlag s' \<and> l_pc s' \<noteq> Returned \<and> length (l_ran s') \<le> n \<and> n < length (history s')"
        "linv s" "lstep acts thr s s'" "thr = Loop \<or> thr = Timeout" for thr s s'
      using distance_loop[OF that(4,5,3), of n] that(1,2) by simp
    show "distance n s' = distance n s" if "lstep acts (Other i) s s'" for i s s'
      by (rule distance_other[OF that])
  qed (use on here late hist in \<open>auto simp: history_def\<close>)
qed

text \<open>
  How far the loop thread is from the test of the exit flag: the same measure with the test as the last
  stage.
\<close>

fun exitStage :: "'t pc \<Rightarrow> nat" where
  "exitStage Wait = 4"
| "exitStage (Events cbs as) = 3"
| "exitStage Take = 2"
| "exitStage (Run ts as) = 1"
| "exitStage Check = 0"
| "exitStage Returned = 0"

definition toExit :: "'t lsys \<Rightarrow> nat \<times> (nat \<times> nat) \<times> nat" where
  "toExit s = (exitStage (l_pc s), pcLeft (l_pc s), length (loopMid s))"

lemma toExit_loop:
  assumes "lstep acts thr s s'" "thr = Loop \<or> thr = Timeout" "exitFlag s" "l_pc s' \<noteq> Returned"
  shows "(toExit s', toExit s) \<in> closer"
  using assms
proof (induction rule: lstep.induct)
  case (wakeRead s cbs s')
  then show ?case by (auto simp: toExit_def closer_def EventLoop_handleRead_eq Let_def split: if_splits)
next
  case (loopStmt s p ps s')
  note f = runPrim_fields[OF loopStmt(2)]
  then show ?case using loopStmt(1) by (simp add: toExit_def closer_def)
qed (auto simp: toExit_def closer_def)

lemma toExit_other: "lstep acts (Other i) s s' \<Longrightarrow> toExit s' = toExit s"
  using other_lstep[of acts i s s'] by (simp add: toExit_def)

text \<open>Nothing takes the exit flag back.\<close>

lemma exit_lstep: "lstep acts thr s s' \<Longrightarrow> exitFlag s \<Longrightarrow> exitFlag s'"
proof (induction rule: lstep.induct)
  case (wakeRead s cbs s')
  then show ?case by (auto simp: EventLoop_handleRead_eq Let_def split: if_splits)
next
  case (loopStmt s p ps s')
  then show ?case by (cases p) (auto simp del: runPrim.simps simp: prim_simps split: if_splits)
next
  case (stmt i s p ps s')
  then show ?case by (cases p) (auto simp del: runPrim.simps simp: prim_simps split: if_splits)
qed auto

lemma exit_stays:
  assumes "isRun acts run sched" "exitFlag (run k)" "k \<le> j"
  shows "exitFlag (run j)"
  using assms(3)
proof (induction rule: dec_induct)
  case (step j)
  then show ?case using assms(1) exit_lstep unfolding isRun_def by blast
qed (rule assms(2))

lemma eventually_returned:
  assumes run: "isRun acts run sched" and fair: "fair run sched" and "exitFlag (run k)"
  shows "\<exists>j \<ge> k. l_pc (run j) = Returned"
proof (rule ccontr)
  assume never: "\<not> ?thesis"
  show False
  proof (rule fair_progress[OF run fair, where d = toExit and k = k and A = "\<lambda>s. exitFlag s \<and> l_pc s \<noteq> Returned"])
    show "(toExit s', toExit s) \<in> closer" if "exitFlag s \<and> l_pc s \<noteq> Returned" "exitFlag s' \<and> l_pc s' \<noteq> Returned"
      "lstep acts thr s s'" "thr = Loop \<or> thr = Timeout" for thr s s'
      using toExit_loop[OF that(3,4)] that(1,2) by blast
    show "toExit s' = toExit s" if "lstep acts (Other i) s s'" for i s s' by (rule toExit_other[OF that])
  qed (use exit_stays[OF run assms(3)] never in auto)
qed

section \<open>Properties\<close>


text \<open>A run of the loop thread alone, something else always ready when the event descriptor is not.\<close>

definition demoMove :: "nat lsys \<Rightarrow> nat lsys" where
  "demoMove s = (case l_pc s of
       Check \<Rightarrow> s\<lparr>l_pc := Wait\<rparr>
     | Wait \<Rightarrow> s\<lparr>l_pc := Events [if wakeReadable s then None else Some 0] []\<rparr>
     | Events [] as \<Rightarrow> s\<lparr>workingFlag := True, l_pc := Take\<rparr>
     | Events (None # cbs) as \<Rightarrow> (case EventLoop_handleRead s of Inl e \<Rightarrow> s | Inr s' \<Rightarrow> s'\<lparr>l_pc := Events cbs []\<rparr>)
     | Events (Some t # cbs) as \<Rightarrow> s\<lparr>l_pc := Events cbs []\<rparr>
     | Take \<Rightarrow> s\<lparr>tasks := [], l_pc := Run (tasks s) []\<rparr>
     | Run [] as \<Rightarrow> s\<lparr>workingFlag := False, l_pc := Check\<rparr>
     | Run (t # ts) as \<Rightarrow> s\<lparr>l_pc := Run ts [], l_ran := l_ran s @ [t]\<rparr>
     | Returned \<Rightarrow> s)"

fun noCalls :: "'t pc \<Rightarrow> bool" where
  "noCalls (Events cbs as) = (as = [])"
| "noCalls (Run ts as) = (as = [])"
| "noCalls Returned = False"
| "noCalls p = True"

definition demoRun :: "nat \<Rightarrow> nat lsys" where
  "demoRun k = (demoMove ^^ k) (demoThreads [SysWriteFd 5 8] [7])"

lemma demoMove_step:
  assumes "(\<forall>i. l_mid s i = []) \<and> \<not> exitFlag s \<and> noCalls (l_pc s)"
  shows "lstep (\<lambda>_. []) Loop s (demoMove s) \<and>
    (\<forall>i. l_mid (demoMove s) i = []) \<and> \<not> exitFlag (demoMove s) \<and> noCalls (l_pc (demoMove s))"
proof (cases "l_pc s")
  case Check
  then show ?thesis using assms check[of s "\<lambda>_. []"] by (simp add: demoMove_def)
next
  case Wait
  then show ?thesis using assms wait[of s "[if wakeReadable s then None else Some 0]" "\<lambda>_. []"]
    by (simp add: demoMove_def split: if_splits)
next
  case (Events cbs as)
  then have e: "l_pc s = Events cbs []" using assms by simp
  obtain s' where r: "EventLoop_handleRead s = Inr s'" "l_mid s' = l_mid s" "exitFlag s' = exitFlag s"
    by (simp add: EventLoop_handleRead_eq Let_def)
  show ?thesis
  proof (cases cbs)
    case Nil
    then show ?thesis using assms e work[of s "\<lambda>_. []"] by (simp add: demoMove_def)
  next
    case (Cons x xs)
    then show ?thesis using assms e r wakeRead[of s xs s' "\<lambda>_. []"] callback[of s _ xs "\<lambda>_. []"]
      by (cases x) (simp_all add: demoMove_def)
  qed
next
  case Take
  then show ?thesis using assms take[of s "\<lambda>_. []"] by (simp add: demoMove_def)
next
  case (Run ts as)
  then show ?thesis using assms task[of s _ _ "\<lambda>_. []"] rest[of s "\<lambda>_. []"]
    by (cases ts) (simp_all add: demoMove_def)
qed (use assms in simp)

lemma demoRun_inv: "(\<forall>i. l_mid (demoRun k) i = []) \<and> \<not> exitFlag (demoRun k) \<and> noCalls (l_pc (demoRun k))"
proof (induction k)
  case 0
  then show ?case by (simp add: demoRun_def demoThreads_defs)
next
  case (Suc k)
  then show ?case using demoMove_step[of "demoRun k"] by (simp add: demoRun_def)
qed

lemma demoRun_run: "isRun (\<lambda>_. []) demoRun (\<lambda>_. Loop)" "fair demoRun (\<lambda>_. Loop)"
proof -
  have "lreach (\<lambda>_. []) (demoRun 0)"
    by (rule lreach.start) (simp add: lstart_def demoRun_def demoThreads_defs wakeReadable_def readable_def readableStep_def)
  moreover have "lstep (\<lambda>_. []) Loop (demoRun k) (demoRun (Suc k))" for k
    using demoMove_step[OF demoRun_inv] by (simp add: demoRun_def)
  ultimately show "isRun (\<lambda>_. []) demoRun (\<lambda>_. Loop)" by (simp add: isRun_def)
  have "\<not> busy (Other i) (demoRun k)" for i k using demoRun_inv by simp
  then have "thr = Loop" if "\<forall>j \<ge> k. busy thr (demoRun j)" for thr k
    using that by (cases thr) (auto simp del: busy.simps(3))
  then show "fair demoRun (\<lambda>_. Loop)" unfolding fair_def by blast
qed


text \<open>
  C7. The loop stops when it is told to: in every fair infinite run of the threads, once a \<^verbatim>\<open>quit\<close> from any
  thread has set the exit flag, the loop thread comes back from \<^verbatim>\<open>loop()\<close>, wherever it was (asleep in the
  wait included), whatever the other threads keep queueing, and without any help from the ten-second timeout.
\<close>

theorem quit_returns:
  assumes "isRun acts run sched" and "fair run sched" and "exitFlag (run k)"
  shows "\<exists>j \<ge> k. l_pc (run j) = Returned"
  by (rule eventually_returned[OF assms])

text \<open>A run in which thread 2 quits the loop before it starts and then queues tasks for ever.\<close>

definition quitMove :: "nat lsys \<Rightarrow> nat lsys" where
  "quitMove s = (case l_mid s 2 of
       [] \<Rightarrow> if exitFlag s \<and> l_pc s = Check then s\<lparr>l_pc := Returned\<rparr>
             else s\<lparr>l_mid := (l_mid s)(2 := prims (if exitFlag s then Queue 7 else QuitLoop))\<rparr>
     | p # ps \<Rightarrow> (case runPrim p (s\<lparr>curTid := 2\<rparr>) of Inl e \<Rightarrow> s | Inr t \<Rightarrow> t\<lparr>l_mid := (l_mid s)(2 := ps)\<rparr>))"

definition quitThread :: "nat lsys \<Rightarrow> thread" where
  "quitThread s = (if l_mid s 2 = [] \<and> exitFlag s \<and> l_pc s = Check then Loop else Other 2)"

definition quitRun :: "nat \<Rightarrow> nat lsys" where
  "quitRun k = (quitMove ^^ k) (demoThreads [] [])"

definition quitInv :: "nat lsys \<Rightarrow> bool" where
  "quitInv s \<longleftrightarrow> (\<forall>i. i \<noteq> 2 \<longrightarrow> l_mid s i = []) \<and> loopTid s = 1 \<and> (l_pc s = Check \<or> l_pc s = Returned)"

lemma quitMove_step:
  assumes "quitInv s"
  shows "lstep (\<lambda>_. []) (quitThread s) s (quitMove s) \<and> quitInv (quitMove s)"
proof (cases "l_mid s 2")
  case Nil
  show ?thesis
  proof (cases "exitFlag s \<and> l_pc s = Check")
    case True
    then show ?thesis using assms Nil check[of s "\<lambda>_. []"] by (simp add: quitInv_def quitMove_def quitThread_def)
  next
    case False
    then show ?thesis using assms Nil call[of 2 s "\<lambda>_. []"] by (auto simp: quitInv_def quitMove_def quitThread_def)
  qed
next
  case (Cons p ps)
  obtain t where t: "runPrim p (s\<lparr>curTid := 2\<rparr>) = Inr t" by (rule runPrim_core)
  have f: "l_pc t = l_pc s" "loopTid t = loopTid s" using runPrim_fields[OF t] by simp_all
  have "quitMove s = t\<lparr>l_mid := (l_mid s)(2 := ps)\<rparr>" "quitThread s = Other 2"
    using Cons t by (simp_all add: quitMove_def quitThread_def)
  then show ?thesis using assms f stmt[of 2 s p ps t "\<lambda>_. []"] Cons t by (auto simp: quitInv_def)
qed

lemma quitRun_inv: "quitInv (quitRun k)"
proof (induction k)
  case 0
  then show ?case by (simp add: quitRun_def quitInv_def demoThreads_defs)
next
  case (Suc k)
  then show ?case using quitMove_step by (simp add: quitRun_def)
qed

lemma quitRun_start: "exitFlag (quitRun 3)" "quitThread (quitRun 3) = Loop" "l_pc (quitRun 4) = Returned"
proof -
  have s: "quitRun (Suc k) = quitMove (quitRun k)" for k by (simp add: quitRun_def)
  have 0: "l_mid (quitRun 0) 2 = []" "\<not> exitFlag (quitRun 0)" "l_pc (quitRun 0) = Check"
    by (simp_all add: quitRun_def demoThreads_defs)
  have 1: "l_mid (quitRun 1) 2 = [SetExit, WakeQuit]" "l_pc (quitRun 1) = Check"
    using s[of 0] 0 by (simp_all add: quitMove_def)
  have 2: "l_mid (quitRun 2) 2 = [WakeQuit]" "exitFlag (quitRun 2)" "l_pc (quitRun 2) = Check"
    using s[of 1] 1 by (simp_all add: quitMove_def upd_def numeral_2_eq_2)
  have 3: "l_mid (quitRun 3) 2 = []" "exitFlag (quitRun 3)" "l_pc (quitRun 3) = Check"
    using s[of 2] 2 by (simp_all add: quitMove_def doIf_def wakeup_eq numeral_2_eq_2 numeral_3_eq_3)
  have "quitRun 4 = quitMove (quitRun 3)" using s[of 3] by (simp add: eval_nat_numeral)
  then show "exitFlag (quitRun 3)" "quitThread (quitRun 3) = Loop" "l_pc (quitRun 4) = Returned"
    using 3 by (simp_all add: quitMove_def quitThread_def)
qed

lemma quitRun_run: "isRun (\<lambda>_. []) quitRun (\<lambda>k. quitThread (quitRun k))" "fair quitRun (\<lambda>k. quitThread (quitRun k))"
proof -
  have step: "quitRun (Suc k) = quitMove (quitRun k)" for k by (simp add: quitRun_def)
  have "lreach (\<lambda>_. []) (quitRun 0)"
    by (rule lreach.start) (simp add: lstart_def quitRun_def demoThreads_defs)
  then show "isRun (\<lambda>_. []) quitRun (\<lambda>k. quitThread (quitRun k))"
    using quitMove_step[OF quitRun_inv] by (simp add: isRun_def step)
  have two: "\<exists>j \<ge> k. quitThread (quitRun j) = Other 2" for k
  proof (cases "quitThread (quitRun k) = Other 2")
    case False
    then have "l_mid (quitRun k) 2 = []" "exitFlag (quitRun k)" "l_pc (quitRun k) = Check"
      by (auto simp: quitThread_def split: if_splits)
    then have "quitThread (quitRun (Suc k)) = Other 2" by (simp add: step quitMove_def quitThread_def)
    then show ?thesis by (intro exI[of _ "Suc k"]) simp
  qed auto
  have gone: "l_pc (quitRun k) = Returned" if "4 \<le> k" for k
    using that
  proof (induction rule: dec_induct)
    case (step k)
    have "lstep (\<lambda>_. []) (quitThread (quitRun k)) (quitRun k) (quitMove (quitRun k))" "quitThread (quitRun k) = Other 2"
      using quitMove_step[OF quitRun_inv[of k]] step.IH by (simp_all add: quitThread_def)
    then show ?case using other_lstep(1)[of "\<lambda>_. []" 2 "quitRun k"] step.IH
      by (simp add: quitRun_def)
  qed (rule quitRun_start(3))
  show "fair quitRun (\<lambda>k. quitThread (quitRun k))"
    unfolding fair_def
  proof (intro allI impI)
    fix thr k assume b: "\<forall>j \<ge> k. busy thr (quitRun j)"
    show "\<exists>j \<ge> k. quitThread (quitRun j) = thr"
    proof (cases thr)
      case Loop
      have "k \<le> 3"
      proof (rule ccontr)
        assume "\<not> k \<le> 3"
        then show False using b gone[of k] Loop by auto
      qed
      then show ?thesis using quitRun_start(2) Loop by blast
    next
      case Timeout
      then show ?thesis using b by auto
    next
      case (Other i)
      then have "l_mid (quitRun k) i \<noteq> []" using b by auto
      then have "i = 2" using quitRun_inv[of k] by (auto simp: quitInv_def)
      then show ?thesis using two Other by simp
    qed
  qed
qed

theorem quit_returns_witness: "\<exists>j \<ge> 3. l_pc (quitRun j) = Returned"
  by (rule quit_returns[OF quitRun_run]) (rule quitRun_start(1))

end
