(* ===== verification/Teardown.thy ===== *)
theory Teardown
  imports ConnStream
begin

text \<open>
  The end of a connection: what its destructor (TcpConnection.cpp, with the members' destructors in
  Channel.cpp and TcpSocket.cpp) leaves behind in the loop.
\<close>

text \<open>Closing the socket, whatever the kernel answers.\<close>

lemma TcpSocket_dtor_closes:
  fixes s :: "('t, 'z) conns_scheme"
  assumes "0 \<le> fd"
  obtains s' tr where "TcpSocket_dtor fd s = Inr s'" "kernelStep s s'" "trace s' = trace s @ SysClose fd # tr"
    "SysClose fd \<notin> set tr"
proof -
  have tr: "trace (afterClose fd s) = trace s @ [SysClose fd]" using assms by (auto simp: afterClose_def)
  show thesis
  proof (cases "closeResult fd (nextAns s) = 0")
    case True
    let ?t = "afterSys (SysFcntlGetFl fd) (afterClose fd s)"
    have "kernelStep s ?t" by (rule kernelStep_trans[OF kernelStep_afterClose kernelStep_afterSys])
    with True tr show thesis
      by (intro that[of ?t "[SysFcntlGetFl fd]"]) (simp_all add: TcpSocket_dtor_def callE_def call_def ISocket_close_eq sysRet_eq)
  next
    case False
    with tr show thesis
      by (intro that[of "afterClose fd s" "[]"]) (simp_all add: TcpSocket_dtor_def callE_def ISocket_close_eq)
  qed
qed

text \<open>The channel of a closed connection goes without a call to the poller, leaving its task.\<close>

lemma Channel_dtor_closed:
  assumes "chans s cid = Some ch" and "c_mgmt ch" and "\<not> c_added ch"
  obtains s1 s' where "Channel_dtor closeTask cid s = Inr s'" "queueInLoop (closeTask cid) s = Inr s1"
    "s' = s1\<lparr>chans := (chans s1)(cid := None)\<rparr>"
  using assms
  by (auto simp: Channel_destroy_def withChan_def doIf_def upd_def queueInLoop_eq Let_def)

lemma TcpConnection_dtor_closed:
  fixes s :: "('t, 'z) conns_scheme"
  assumes "connHeap s c = Some k" and "chans s (k_chan k) = Some ch" and "c_mgmt ch" and "\<not> c_added ch"
    and "0 \<le> k_sock k"
  obtains s' pre post where "TcpConnection_dtor K c s = Inr s'" "connHeap s' = (connHeap s)(c := None)"
    "chans s' = (chans s)(k_chan k := None)" "tasks s' = tasks s @ [ct_chanClose K (k_chan k)]"
    "trace s' = trace s @ pre @ SysClose (k_sock k) # post" "SysClose (k_sock k) \<notin> set pre \<union> set post"
    "workingFlag s' = workingFlag s" "curTid s' = curTid s" "loopTid s' = loopTid s"
proof -
  let ?s0 = "logged DEBUG s" and ?cid = "k_chan k" and ?task = "ct_chanClose K (k_chan k)"
  have ch0: "chans ?s0 ?cid = Some ch" using assms(2) by simp
  obtain s1 s2 where d: "Channel_dtor (ct_chanClose K) ?cid ?s0 = Inr s2" "queueInLoop ?task ?s0 = Inr s1"
    "s2 = s1\<lparr>chans := (chans s1)(?cid := None)\<rparr>"
    by (rule Channel_dtor_closed[OF ch0 assms(3,4)])
  obtain s1' where q: "queueInLoop ?task ?s0 = Inr s1'" "ioStep ?s0 s1'"
    "trace s1' = trace ?s0 \<or> trace s1' = trace ?s0 @ [SysWriteFd (wakeupFd ?s0) 8]"
    by (rule ioStep_queueInLoop)
  obtain s1'' where q': "queueInLoop ?task ?s0 = Inr s1''" "tasks s1'' = tasks ?s0 @ [?task]"
    by (rule queueInLoop_ok)
  have s1: "s1' = s1" "s1'' = s1" using d(2) q(1) q'(1) by simp_all
  note f1 = ioStep_frame[OF q(2)[unfolded s1]]
  obtain s3 tr where s3: "TcpSocket_dtor (k_sock k) s2 = Inr s3" "kernelStep s2 s3"
    "trace s3 = trace s2 @ SysClose (k_sock k) # tr" "SysClose (k_sock k) \<notin> set tr"
    by (rule TcpSocket_dtor_closes[OF assms(5)])
  note f3 = kernelStep_fields[OF s3(2)]
  let ?t = "s3\<lparr>connHeap := (connHeap s3)(c := None)\<rparr>"
  have eq: "TcpConnection_dtor K c s = Inr ?t"
    using assms(1) d(1) s3(1) by (simp add: TcpConnection_dtor_def withConn_def upd_def)
  obtain pre where pre: "trace s1 = trace s @ pre" "SysClose (k_sock k) \<notin> set pre"
  proof -
    from q(3)[unfolded s1] show thesis
    proof
      assume "trace s1 = trace ?s0"
      then show thesis by (intro that[of "[]"]) simp_all
    next
      assume "trace s1 = trace ?s0 @ [SysWriteFd (wakeupFd ?s0) 8]"
      then show thesis by (intro that[of "[SysWriteFd (wakeupFd ?s0) 8]"]) simp_all
    qed
  qed
  show thesis
    by (rule that[OF eq, of pre tr]) (use d(3) f1 f3 s3 q'(2)[unfolded s1] pre in simp_all)
qed

section \<open>Properties\<close>


definition demoCloseTasks :: "level connTasks" where
  "demoCloseTasks = \<lparr>ct_read = (\<lambda>c. INFO), ct_write = (\<lambda>c. INFO), ct_close = (\<lambda>c. INFO), ct_error = (\<lambda>c. INFO),
     ct_forceClose = (\<lambda>c. INFO), ct_shutdown = (\<lambda>c. INFO), ct_send = (\<lambda>c xs. INFO), ct_chanClose = (\<lambda>c. ERROR)\<rparr>"


end
