(* ===== verification/ConnFrame.thy ===== *)
theory ConnFrame
  imports Teardown
begin

text \<open>
  What the operations of TcpConnection.cpp may do to the state, stated once. The locale \<open>conn_ops\<close> is
  the contract between them and a property of the state they are to keep: its assumptions are the
  changes an operation is made of (a system call, a log line, a mask, a task, a field of the
  connection), and every operation is shown to do no more. \<open>conn_frame\<close> adds the reading.
\<close>

section \<open>Statements that may fail\<close>

text \<open>\<open>yields P f Q\<close>: from a state with \<open>P\<close>, whatever \<open>f\<close> returns has \<open>Q\<close>; it may fail.\<close>

definition yields :: "('s \<Rightarrow> bool) \<Rightarrow> ('s \<Rightarrow> 'b outcome) \<Rightarrow> ('b \<Rightarrow> bool) \<Rightarrow> bool" where
  "yields P f Q \<longleftrightarrow> (\<forall>s r. P s \<longrightarrow> f s = Inr r \<longrightarrow> Q r)"

named_theorems yields_intros \<open>introduction rules for \<open>yields\<close>\<close>

lemma yieldsD: "yields P f Q \<Longrightarrow> P s \<Longrightarrow> f s = Inr r \<Longrightarrow> Q r"
  by (simp add: yields_def)

lemma yields_keeps: "yields P f P \<Longrightarrow> keeps P f"
  by (simp add: yields_def keeps_def)

lemma keeps_yields: "keeps P f \<Longrightarrow> yields P f P"
  by (simp add: yields_def keeps_def)

lemma yields_pre: "yields P f Q \<Longrightarrow> (\<And>s. P' s \<Longrightarrow> P s) \<Longrightarrow> yields P' f Q"
  unfolding yields_def by blast

lemma yields_Inr [yields_intros]: "yields P Inr P"
  by (simp add: yields_def)

lemma yields_Inl [yields_intros]: "yields P (\<lambda>_. Inl e) Q"
  by (simp add: yields_def)

lemma yields_retF [yields_intros]: "yields P (retF a) (\<lambda>r. P (snd r))"
  by (simp add: yields_def retF_def)

lemma yields_block_Nil [yields_intros]: "yields P (block []) P"
  by (simp add: yields_def)

lemma yields_block [yields_intros]: "yields P f P \<Longrightarrow> yields P (block fs) Q \<Longrightarrow> yields P (block (f # fs)) Q"
  by (fastforce simp: yields_def andThen_Inr_iff)

lemma yields_block_with: "yields P f R \<Longrightarrow> yields R (block fs) Q \<Longrightarrow> yields P (block (f # fs)) Q"
  by (fastforce simp: yields_def andThen_Inr_iff)

lemma yields_thenDo [yields_intros]: "yields P f P \<Longrightarrow> yields P k Q \<Longrightarrow> yields P (thenDo f k) Q"
  by (fastforce simp: yields_def andThen_Inr_iff thenDo_def)

lemma yields_letIn [yields_intros]: "(\<And>a. yields P (k a) Q) \<Longrightarrow> yields P (letIn f k) Q"
  unfolding yields_def letIn_def by blast

lemma yields_doIf [yields_intros]: "yields P f P \<Longrightarrow> yields P (doIf c f) P"
  by (simp add: yields_def doIf_def)

lemma yields_ifElse [yields_intros]: "yields P f Q \<Longrightarrow> yields P g Q \<Longrightarrow> yields P (ifElse c f g) Q"
  by (simp add: yields_def ifElse_def)

lemma yields_if [yields_intros]: "yields P f Q \<Longrightarrow> yields P g Q \<Longrightarrow> yields P (if b then f else g) Q"
  by simp

lemma yields_assertThat [yields_intros]: "yields P (assertThat m c) P"
  by (simp add: yields_def assertThat_def)

lemma yields_callE [yields_intros]:
  "yields P f (\<lambda>r. P (snd r)) \<Longrightarrow> (\<And>a. yields P (k a) Q) \<Longrightarrow> yields P (callE f k) Q"
  by (fastforce simp: yields_def andThen_Inr_iff callE_def)

lemma yields_option [yields_intros]:
  "yields P f Q \<Longrightarrow> (\<And>a. yields P (g a) Q) \<Longrightarrow> yields P (case o' of None \<Rightarrow> f | Some a \<Rightarrow> g a) Q"
  by (cases o') simp_all

lemma yields_pair [yields_intros]: "(\<And>a b. yields P (f a b) Q) \<Longrightarrow> yields P (case p of (a, b) \<Rightarrow> f a b) Q"
  by (cases p) simp

lemma yields_withConn:
  "(\<And>k. yields (\<lambda>s. P s \<and> connHeap s c = Some k) (f k) Q) \<Longrightarrow> yields P (withConn w c f) Q"
  by (auto simp: yields_def withConn_def split: option.splits)

lemma yields_withConn_any [yields_intros]: "(\<And>k. yields P (f k) Q) \<Longrightarrow> yields P (withConn w c f) Q"
  by (auto simp: yields_def withConn_def split: option.splits)

lemma yields_withChan [yields_intros]: "(\<And>ch. yields P (f ch) Q) \<Longrightarrow> yields P (withChan w cid f) Q"
  by (auto simp: yields_def withChan_def split: option.splits)

lemma yields_connWriting [yields_intros]: "(\<And>w. yields P (f w) Q) \<Longrightarrow> yields P (connWriting c f) Q"
  unfolding connWriting_def by (intro yields_intros)

lemma yields_connFd [yields_intros]: "(\<And>fd. yields P (f fd) Q) \<Longrightarrow> yields P (connFd c f) Q"
  unfolding connFd_def by (intro yields_intros)

lemma yields_outBytes [yields_intros]: "(\<And>xs. yields P (f xs) Q) \<Longrightarrow> yields P (outBytes c f) Q"
  by (auto simp: yields_def outBytes_def withConn_def andThen_Inr_iff split: option.splits)

lemma yields_assertInLoopThread [yields_intros]: "yields P assertInLoopThread P"
  unfolding assertInLoopThread_def by (intro yields_intros)

section \<open>What the operations of a connection may change\<close>

fun statusRank :: "connStatus \<Rightarrow> nat" where
  "statusRank Connecting = 0"
| "statusRank Connected = 1"
| "statusRank Disconnecting = 2"
| "statusRank Disconnected = 3"

fun outward :: "syscall \<Rightarrow> bool" where
  "outward (SysReadv fd n xs) = False"
| "outward (SysSocket d fd) = False"
| "outward (SysAccept d fd) = False"
| "outward (SysClose fd) = False"
| "outward c = True"

text \<open>
  \<open>queued t\<close>: the task \<open>t\<close> may be queued; the connection \<open>c\<close> may queue its write callback.
  \<open>own cid\<close>: the mask of the channel \<open>cid\<close> may change; the connection's channel is one of these.
\<close>

locale conn_ops =
  fixes P :: "('t, 'z) conns_scheme \<Rightarrow> bool" and queued :: "'t \<Rightarrow> bool" and own :: "nat \<Rightarrow> bool"
    and c :: nat
  assumes P_sys: "P s \<Longrightarrow> outward x \<Longrightarrow> P (afterSys x s)"
    and P_logged: "P s \<Longrightarrow> P (logged l s)"
    and P_own: "P s \<Longrightarrow> connHeap s c = Some k \<Longrightarrow> own (k_chan k)"
    and P_mask: "P s \<Longrightarrow> own cid \<Longrightarrow> chans s cid = Some ch \<Longrightarrow> P (s\<lparr>chans := (chans s)(cid \<mapsto> ch\<lparr>c_events := ev, c_added := a\<rparr>)\<rparr>)"
    and P_task: "P s \<Longrightarrow> queued t \<Longrightarrow> P (s\<lparr>tasks := tasks s @ [t]\<rparr>)"
    and P_status: "P s \<Longrightarrow> connHeap s c = Some k \<Longrightarrow> statusRank (k_status k) \<le> statusRank st \<Longrightarrow>
      P (s\<lparr>connHeap := (connHeap s)(c \<mapsto> k\<lparr>k_status := st\<rparr>)\<rparr>)"
    and P_out: "P s \<Longrightarrow> connHeap s c = Some k \<Longrightarrow> P (s\<lparr>connHeap := (connHeap s)(c \<mapsto> k\<lparr>k_out := b\<rparr>)\<rparr>)"
    and P_onWrite: "P s \<Longrightarrow> connHeap s c = Some k \<Longrightarrow> k_onWrite k = Some f \<Longrightarrow> queued (f c)"
begin

lemma yields_call:
  assumes "\<And>s. P s \<Longrightarrow> P (snd (f s))" "\<And>a. yields P (k a) Q"
  shows "yields P (call f k) Q"
  unfolding yields_def call_def
proof (intro allI impI)
  fix s r assume "P s" and r: "(case f s of (a, s') \<Rightarrow> k a s') = Inr r"
  then have "P (snd (f s))" by (intro assms(1))
  then show "Q r" using r yieldsD[OF assms(2)[of "fst (f s)"]] by (simp add: split_beta)
qed

lemma yields_LOG [yields_intros]: "l < FATAL \<Longrightarrow> yields P (LOG l) P"
  by (auto simp: yields_def LOG_below_fatal P_logged)

lemma yields_call_write [yields_intros]: "(\<And>n. yields P (k n) Q) \<Longrightarrow> yields P (call (ISocket_write fd xs) k) Q"
  by (rule yields_call) (simp_all add: ISocket_write_eq P_sys)

lemma yields_call_error [yields_intros]: "(\<And>n. yields P (k n) Q) \<Longrightarrow> yields P (call (ISocket_getSocketError fd) k) Q"
  by (rule yields_call) (simp_all add: ISocket_getSocketError_def call_def sys_eq P_sys)

lemma yields_shutdownWrite [yields_intros]: "yields P (TcpSocket_shutdownWrite fd) P"
  by (auto simp: yields_def TcpSocket_shutdownWrite_def ISocket_shutdownWrite_eq P_sys P_logged)

lemma afterWakeup_cases: "afterWakeup s = afterSys (SysWriteFd (wakeupFd s) 8) s \<or>
    afterWakeup s = logged ERROR (afterSys (SysWriteFd (wakeupFd s) 8) s)"
  by (auto simp: afterWakeup_def Let_def logged_def afterSys_def)

lemma yields_queueInLoop: "queued t \<Longrightarrow> yields P (queueInLoop t) P"
proof -
  assume t: "queued t"
  have "P (afterWakeup s)" if "P s" for s
    using afterWakeup_cases[of s] P_sys[OF that, of "SysWriteFd (wakeupFd s) 8"] P_logged by auto
  then show ?thesis using t by (auto simp: yields_def queueInLoop_eq Let_def P_task)
qed

lemma yields_runInLoop: "queued t \<Longrightarrow> yields P body P \<Longrightarrow> yields P (runInLoop t body) P"
  unfolding runInLoop_def by (intro yields_intros yields_queueInLoop)

lemma yields_onWrite:
  "yields P (withConn who c (\<lambda>k. case k_onWrite k of None \<Rightarrow> Inr | Some f \<Rightarrow> queueInLoop (f c))) P"
  unfolding yields_def withConn_def by (auto split: option.splits dest: P_onWrite intro: yieldsD[OF yields_queueInLoop])

lemma yields_update: "yields P (EPollPoller_update op cid) P"
  by (auto simp: yields_def EPollPoller_update_def withChan_def stmt_defs sysRet_eq P_sys P_logged split: option.splits
      if_splits)

lemma yields_onChan [yields_intros]: "(\<And>cid. own cid \<Longrightarrow> yields P (f cid) Q) \<Longrightarrow> yields P (onChan f c) Q"
  unfolding onChan_def yields_def withConn_def by (auto split: option.splits dest: P_own)

lemma yields_setAddToPoll: "own cid \<Longrightarrow> yields P (setAddToPoll a cid) P"
proof -
  assume o: "own cid"
  have "P (s\<lparr>chans := (chans s)(cid \<mapsto> ch\<lparr>c_added := a\<rparr>)\<rparr>)" if "P s" "chans s cid = Some ch" for s ch
    using P_mask[OF that(1) o that(2), of a "c_events ch"] by simp
  then show ?thesis by (auto simp: yields_def setAddToPoll_def modChan_def withChan_def split: option.splits)
qed

lemma yields_updateChannel: "own cid \<Longrightarrow> yields P (EventLoop_updateChannel cid) P"
  unfolding EventLoop_updateChannel_eq updateChannel_def
  by (intro yields_intros yields_update yields_setAddToPoll)

lemma yields_events: "own cid \<Longrightarrow> yields P (modChan who (\<lambda>ch. ch\<lparr>c_events := f (c_events ch)\<rparr>) cid) P"
proof -
  assume o: "own cid"
  have "P (s\<lparr>chans := (chans s)(cid \<mapsto> ch\<lparr>c_events := e\<rparr>)\<rparr>)" if "P s" "chans s cid = Some ch" for s ch e
    using P_mask[OF that(1) o that(2), of "c_added ch" e] by simp
  then show ?thesis by (auto simp: yields_def modChan_def withChan_def split: option.splits)
qed

lemma yields_masks [yields_intros]:
  assumes "own cid"
  shows "yields P (enableReading EventLoop_updateChannel cid) P" "yields P (enableWriting EventLoop_updateChannel cid) P"
    "yields P (disableWriting EventLoop_updateChannel cid) P" "yields P (disableAll EventLoop_updateChannel cid) P"
  unfolding enableReading_def enableWriting_def disableWriting_def disableAll_def
  by (intro yields_block yields_block_Nil yields_updateChannel yields_events assms)+

text \<open>Status changes: to the last status always, to another from a known earlier one.\<close>

lemma yields_setNetStatus:
  assumes "\<And>s. R s \<Longrightarrow> P s \<and> (\<forall>k. connHeap s c = Some k \<longrightarrow> statusRank (k_status k) \<le> statusRank st)"
  shows "yields R (setNetStatus st c) P"
  using assms by (auto simp: yields_def setNetStatus_def modConn_def withConn_def intro: P_status split: option.splits)

lemma yields_disconnected [yields_intros]: "yields P (setNetStatus Disconnected c) P"
proof (rule yields_setNetStatus)
  have "statusRank st \<le> statusRank Disconnected" for st by (cases st) simp_all
  then show "P s \<and> (\<forall>k. connHeap s c = Some k \<longrightarrow> statusRank (k_status k) \<le> statusRank Disconnected)" if "P s" for s
    using that by blast
qed

lemma yields_buffers [yields_intros]: "yields P (appendOut c xs) P" "yields P (retrieveOut c n) P"
  by (auto simp: yields_def appendOut_def retrieveOut_def withConn_def andThen_Inr_iff intro!: P_out split: option.splits)

text \<open>The operations, given callbacks that keep \<open>P\<close>.\<close>

lemma yields_tryWrite [yields_intros]: "yields P (tryWrite c xs) (\<lambda>r. P (snd r))"
  unfolding tryWrite_def by - (rule yields_onWrite yields_doIf yields_intros | simp add: less_level_def)+

lemma yields_sendInLoop [yields_intros]: "yields P (sendInLoop c xs) P"
  unfolding sendInLoop_def by (intro yields_intros) (simp_all add: less_level_def)

lemma yields_send: "queued (ct_send K c xs) \<Longrightarrow> yields P (send K c xs) (\<lambda>r. P (snd r))"
  unfolding send_def by (intro yields_intros yields_runInLoop)

lemma yields_shutdownInLoop [yields_intros]: "yields P (shutdownInLoop c) P"
  unfolding shutdownInLoop_def by (intro yields_intros)

lemma yields_shutdown: "queued (ct_shutdown K c) \<Longrightarrow> yields P (shutdown K c) P"
proof -
  assume q: "queued (ct_shutdown K c)"
  have "yields (\<lambda>s. P s \<and> connHeap s c = Some k)
      (if k_status k = Connected then block [setNetStatus Disconnecting c, runInLoop (ct_shutdown K c) (shutdownInLoop c)]
       else Inr) P" for k
  proof (cases "k_status k = Connected")
    case True
    have "yields (\<lambda>s. P s \<and> connHeap s c = Some k) (setNetStatus Disconnecting c) P"
      by (rule yields_setNetStatus) (use True in auto)
    with True show ?thesis
      by (simp only: if_True simp_thms) (rule yields_block_with, assumption, intro yields_intros yields_runInLoop q)
  next
    case False
    then show ?thesis by (simp add: yields_def)
  qed
  then show ?thesis unfolding shutdown_def by (rule yields_withConn)
qed

lemma yields_forceClose: "queued (ct_forceClose K c) \<Longrightarrow> yields P (forceClose K c) P"
proof -
  assume q: "queued (ct_forceClose K c)"
  have "yields (\<lambda>s. P s \<and> connHeap s c = Some k)
      (if k_status k = Connected \<or> k_status k = Disconnecting
       then block [setNetStatus Disconnecting c, queueInLoop (ct_forceClose K c)] else Inr) P" for k
  proof (cases "k_status k = Connected \<or> k_status k = Disconnecting")
    case True
    have "yields (\<lambda>s. P s \<and> connHeap s c = Some k) (setNetStatus Disconnecting c) P"
      by (rule yields_setNetStatus) (use True in auto)
    with True show ?thesis
      by (simp only: if_True) (rule yields_block_with, assumption, intro yields_intros yields_queueInLoop q)
  next
    case False
    then show ?thesis by (simp add: yields_def)
  qed
  then show ?thesis unfolding forceClose_def by (rule yields_withConn)
qed

lemma yields_handleWrite [yields_intros]: "yields P (TcpConnection_handleWrite c) P"
  unfolding TcpConnection_handleWrite_def by - (rule yields_onWrite yields_intros | simp add: less_level_def)+

lemma yields_handleError [yields_intros]: "yields P (TcpConnection_handleError c) P"
  unfolding TcpConnection_handleError_def by (intro yields_intros) (simp_all add: less_level_def)

lemma yields_handleClose:
  assumes "\<And>t. yields P (exec t) P"
  shows "yields P (handleClose exec c) P"
  unfolding handleClose_def by (intro yields_intros assms)

lemma yields_forceCloseInLoop:
  assumes "\<And>t. yields P (exec t) P"
  shows "yields P (forceCloseInLoop exec c) P"
  unfolding forceCloseInLoop_def by (intro yields_intros yields_handleClose assms)

lemma yields_connectionDestroyed:
  assumes "\<And>t. yields P (exec t) P"
  shows "yields P (connectionDestroyed exec c) P"
  unfolding connectionDestroyed_def by (intro yields_intros assms)

lemma yields_connectionEstablished:
  assumes "\<And>t. yields P (exec t) P"
  shows "yields P (connectionEstablished exec c) P"
proof -
  let ?R = "\<lambda>s. P s \<and> (\<exists>k. connHeap s c = Some k \<and> k_status k = Connecting)"
  have a: "yields P (withConn ''connectionEstablished'' c (\<lambda>k.
       assertThat ''connectionEstablished'' (\<lambda>_. k_status k = Connecting))) ?R"
    by (auto simp: yields_def withConn_def assertThat_def split: option.splits if_splits)
  have b: "yields ?R (setNetStatus Connected c) P" by (rule yields_setNetStatus) auto
  show ?thesis unfolding connectionEstablished_def
    by (rule yields_block[OF yields_assertInLoopThread], rule yields_block_with[OF a], rule yields_block_with[OF b])
      (intro yields_intros assms)
qed

end

text \<open>The contract with reading from the socket.\<close>

locale conn_frame = conn_ops +
  assumes P_kernel: "P s \<Longrightarrow> plainStep s s' \<Longrightarrow> P s'"
    and P_in: "P s \<Longrightarrow> connHeap s c = Some k \<Longrightarrow> P (s\<lparr>connHeap := (connHeap s)(c \<mapsto> k\<lparr>k_in := b\<rparr>)\<rparr>)"
begin

lemma yields_setInput: "yields P (modConn who (\<lambda>k. k\<lparr>k_in := b\<rparr>) c) P"
  by (auto simp: yields_def modConn_def withConn_def intro!: P_in split: option.splits)

lemma yields_readInput [yields_intros]: "yields P (readInput c) (\<lambda>r. P (snd r))"
proof -
  have "P (t\<lparr>connHeap := (connHeap t)(c \<mapsto> k\<lparr>k_in := b\<rparr>)\<rparr>)"
    if "P s" "connHeap s c = Some k" "readFd fd (k_in k) s = Inr (n, b, t)" for s t k fd n b
  proof -
    have "plainStep s t" by (rule readFd_plain[OF that(3)])
    then have "P t" "connHeap t = connHeap s" using P_kernel that(1) plainStep_fields(1) by blast+
    then show ?thesis using that(2) P_in[of t k b] by simp
  qed
  then show "yields P (readInput c) (\<lambda>r. P (snd r))"
    by (auto simp: yields_def readInput_def connFd_def withConn_def withChan_def andThen_Inr_iff split: option.splits)
qed

lemma yields_handleRead:
  assumes "\<And>t. yields P (exec t) P"
  shows "yields P (TcpConnection_handleRead exec c) P"
  unfolding TcpConnection_handleRead_def
  by (intro yields_intros yields_handleClose assms) (simp_all add: less_level_def)

end

section \<open>Work on one connection\<close>

text \<open>A connection to which something was sent, read or done: its channel, socket and callbacks are as before.\<close>

definition sameConn :: "'t conn \<Rightarrow> 't conn \<Rightarrow> bool" where
  "sameConn k k' \<longleftrightarrow> k_chan k' = k_chan k \<and> k_sock k' = k_sock k \<and> k_onMsg k' = k_onMsg k \<and> k_onConn k' = k_onConn k \<and>
     k_onWrite k' = k_onWrite k \<and> k_onClose k' = k_onClose k"

text \<open>
  \<open>alone Q c s0 s\<close>: between \<open>s0\<close> and \<open>s\<close>, of all connections and channels only \<open>c\<close> and its channel were
  touched, and only tasks from \<open>Q\<close> were queued; no socket was opened or closed.
\<close>

definition alone :: "'t set \<Rightarrow> nat \<Rightarrow> ('t, 'z) conns_scheme \<Rightarrow> ('t, 'z) conns_scheme \<Rightarrow> bool" where
  "alone Q c s0 s \<longleftrightarrow> (\<exists>k0 k ch0 ch. connHeap s0 c = Some k0 \<and> sameConn k0 k \<and> connHeap s = (connHeap s0)(c \<mapsto> k) \<and>
       chans s0 (k_chan k0) = Some ch0 \<and> chans s = (chans s0)(k_chan k0 \<mapsto> ch) \<and> c_fd ch = c_fd ch0 \<and>
       (\<forall>f. k_onWrite k0 = Some f \<longrightarrow> f c \<in> Q)) \<and>
     nextConn s = nextConn s0 \<and> nextChan s = nextChan s0 \<and> curTid s = curTid s0 \<and> loopTid s = loopTid s0 \<and>
     conns.more s = conns.more s0 \<and> tame s0 s \<and> (\<exists>ts. tasks s = tasks s0 @ ts \<and> set ts \<subseteq> Q)"

lemma aloneE:
  assumes "alone Q c s0 s"
  obtains k0 k ch0 ch where "connHeap s0 c = Some k0" "sameConn k0 k" "connHeap s = (connHeap s0)(c \<mapsto> k)"
    "chans s0 (k_chan k0) = Some ch0" "chans s = (chans s0)(k_chan k0 \<mapsto> ch)" "c_fd ch = c_fd ch0"
    "\<And>f. k_onWrite k0 = Some f \<Longrightarrow> f c \<in> Q" "nextConn s = nextConn s0" "nextChan s = nextChan s0" "curTid s = curTid s0"
    "loopTid s = loopTid s0" "conns.more s = conns.more s0" "tame s0 s" "set (tasks s) \<subseteq> set (tasks s0) \<union> Q"
  using assms unfolding alone_def by fastforce

lemma alone_queued: "alone Q c s0 s \<Longrightarrow> \<exists>ts. tasks s = tasks s0 @ ts \<and> set ts \<subseteq> Q"
  by (simp add: alone_def)

lemma aloneI:
  assumes "connHeap s0 c = Some k0" "sameConn k0 k" "connHeap s = (connHeap s0)(c \<mapsto> k)"
    "chans s0 (k_chan k0) = Some ch0" "chans s = (chans s0)(k_chan k0 \<mapsto> ch)" "c_fd ch = c_fd ch0"
    "\<And>f. k_onWrite k0 = Some f \<Longrightarrow> f c \<in> Q" "nextConn s = nextConn s0" "nextChan s = nextChan s0" "curTid s = curTid s0"
    "loopTid s = loopTid s0" "conns.more s = conns.more s0" "tame s0 s" "tasks s = tasks s0 @ ts" "set ts \<subseteq> Q"
  shows "alone Q c s0 s"
  unfolding alone_def using assms by blast

lemma outward_tame: "outward x \<Longrightarrow> plain x \<or> isCtl x"
  by (cases x) simp_all

interpretation alone: conn_frame "alone Q c s0" "\<lambda>t. t \<in> Q" "\<lambda>i. \<exists>k. connHeap s0 c = Some k \<and> i = k_chan k" c
proof unfold_locales
  fix s s' :: "('a, 'b) conns_scheme" and k x cid ch ev a t st l b f
  assume P: "alone Q c s0 s"
  from P obtain k0 k1 ch0 ch1 where *: "connHeap s0 c = Some k0" "sameConn k0 k1" "connHeap s = (connHeap s0)(c \<mapsto> k1)"
    "chans s0 (k_chan k0) = Some ch0" "chans s = (chans s0)(k_chan k0 \<mapsto> ch1)" "c_fd ch1 = c_fd ch0"
    "\<And>f. k_onWrite k0 = Some f \<Longrightarrow> f c \<in> Q" "nextConn s = nextConn s0" "nextChan s = nextChan s0" "curTid s = curTid s0"
    "loopTid s = loopTid s0" "conns.more s = conns.more s0" "tame s0 s"
    by (rule aloneE) blast
  obtain ts where ts: "tasks s = tasks s0 @ ts" "set ts \<subseteq> Q" using alone_queued[OF P] by blast
  note I = aloneI[OF *(1)]
  have tame: "tame s0 (s\<lparr>chans := h\<rparr>)" "tame s0 (s\<lparr>tasks := tl\<rparr>)" "tame s0 (s\<lparr>connHeap := kh\<rparr>)" "tame s0 (logged l s)"
    for h tl kh l by (rule tame_eq[OF *(13), of _ "[]"]; simp)+
  have tame_sys: "tame s0 (afterSys x s)" if "outward x" for x
    by (rule tame_eq[OF *(13), of _ "[x]"]) (use outward_tame[OF that] in simp_all)
  show "outward x \<Longrightarrow> alone Q c s0 (afterSys x s)"
    by (rule I[of k1 _ ch0 ch1]) (use * ts tame_sys in simp_all, simp add: afterSys_def)
  show "alone Q c s0 (logged l s)"
    by (rule I[of k1 _ ch0 ch1]) (use * ts tame in simp_all, simp add: logged_def)
  show "connHeap s c = Some k \<Longrightarrow> \<exists>k'. connHeap s0 c = Some k' \<and> k_chan k = k_chan k'"
    using *(1-3) by (auto simp: sameConn_def)
  show "\<exists>k. connHeap s0 c = Some k \<and> cid = k_chan k \<Longrightarrow> chans s cid = Some ch \<Longrightarrow>
      alone Q c s0 (s\<lparr>chans := (chans s)(cid \<mapsto> ch\<lparr>c_events := ev, c_added := a\<rparr>)\<rparr>)"
    by (rule I[of k1 _ ch0 "ch\<lparr>c_events := ev, c_added := a\<rparr>"]) (use * ts tame in \<open>auto simp: sameConn_def\<close>)
  show "t \<in> Q \<Longrightarrow> alone Q c s0 (s\<lparr>tasks := tasks s @ [t]\<rparr>)" by (rule I[of k1 _ ch0 ch1 _ "ts @ [t]"]) (use * ts tame in auto)
  show "connHeap s c = Some k \<Longrightarrow> alone Q c s0 (s\<lparr>connHeap := (connHeap s)(c \<mapsto> k\<lparr>k_status := st\<rparr>)\<rparr>)"
    by (rule I[of "k\<lparr>k_status := st\<rparr>" _ ch0 ch1]) (use * ts tame in \<open>auto simp: sameConn_def\<close>)
  show "connHeap s c = Some k \<Longrightarrow> alone Q c s0 (s\<lparr>connHeap := (connHeap s)(c \<mapsto> k\<lparr>k_out := b\<rparr>)\<rparr>)"
    by (rule I[of "k\<lparr>k_out := b\<rparr>" _ ch0 ch1]) (use * ts tame in \<open>auto simp: sameConn_def\<close>)
  show "connHeap s c = Some k \<Longrightarrow> alone Q c s0 (s\<lparr>connHeap := (connHeap s)(c \<mapsto> k\<lparr>k_in := b\<rparr>)\<rparr>)"
    by (rule I[of "k\<lparr>k_in := b\<rparr>" _ ch0 ch1]) (use * ts tame in \<open>auto simp: sameConn_def\<close>)
  show "connHeap s c = Some k \<Longrightarrow> k_onWrite k = Some f \<Longrightarrow> f c \<in> Q" using *(2,3,7) by (auto simp: sameConn_def)
  show "plainStep s s' \<Longrightarrow> alone Q c s0 s'"
    by (erule plainStepE, rule I[of k1 _ ch0 ch1]) (use * ts in \<open>simp_all add: tame_eq[OF *(13)]\<close>)
qed

end
