(* ===== verification/ConnStatus.thy ===== *)
theory ConnStatus
  imports ConnFrame
begin

text \<open>
  The status of a connection (\<^verbatim>\<open>TcpConnection::NetStatus\<close>) as a protocol: connecting, connected,
  disconnecting, disconnected, in this order.
\<close>

section \<open>The two uses of the contract\<close>

text \<open>The status of connection \<open>c\<close> is \<open>r\<close> or later.\<close>

definition statusFrom :: "nat \<Rightarrow> connStatus \<Rightarrow> ('t, 'z) conns_scheme \<Rightarrow> bool" where
  "statusFrom c r s \<longleftrightarrow> (\<exists>k. connHeap s c = Some k \<and> statusRank r \<le> statusRank (k_status k))"

interpretation status: conn_frame "statusFrom c r" "\<lambda>_. True" "\<lambda>_. True" c'
proof unfold_locales
  fix s :: "('a, 'b) conns_scheme" and k :: "'a conn" and st
  assume "statusFrom c r s" "connHeap s c' = Some k" "statusRank (k_status k) \<le> statusRank st"
  then show "statusFrom c r (s\<lparr>connHeap := (connHeap s)(c' \<mapsto> k\<lparr>k_status := st\<rparr>)\<rparr>)" by (auto simp: statusFrom_def)
qed (auto simp: statusFrom_def plainStep_fields)

text \<open>Whatever a program keeps in its extension of the state.\<close>

definition moreIs :: "'z \<Rightarrow> ('t, 'z) conns_scheme \<Rightarrow> bool" where
  "moreIs m s \<longleftrightarrow> conns.more s = m"

interpretation more: conn_frame "moreIs m" "\<lambda>_. True" "\<lambda>_. True" c
proof unfold_locales
  fix s s' :: "('b, 'a) conns_scheme"
  assume "moreIs m s" and k: "plainStep s s'"
  from k obtain tr ix e lo where "s' = s\<lparr>trace := trace s @ tr, envIx := ix, errno := e, logOut := lo\<rparr>" by (rule plainStepE)
  then show "moreIs m s'" using \<open>moreIs m s\<close> by (simp add: moreIs_def)
qed (simp_all add: moreIs_def logged_def afterSys_def)

section \<open>Properties\<close>

text \<open>Every operation of a connection, as a loop thread or an application may call it.\<close>

datatype connCall =
    CallSend "byte list"
  | CallSendInLoop "byte list"
  | CallShutdown
  | CallShutdownInLoop
  | CallForceClose
  | CallForceCloseInLoop
  | CallEstablished
  | CallDestroyed
  | CallHandleRead
  | CallHandleWrite
  | CallHandleClose
  | CallHandleError

fun runCall ::
  "('t \<Rightarrow> ('t, 'z) conns_scheme stmt) \<Rightarrow> 't connTasks \<Rightarrow> nat \<times> connCall \<Rightarrow> ('t, 'z) conns_scheme stmt" where
  "runCall exec K (c, CallSend xs) = callE (send K c xs) (\<lambda>_. Inr)"
| "runCall exec K (c, CallSendInLoop xs) = sendInLoop c xs"
| "runCall exec K (c, CallShutdown) = shutdown K c"
| "runCall exec K (c, CallShutdownInLoop) = shutdownInLoop c"
| "runCall exec K (c, CallForceClose) = forceClose K c"
| "runCall exec K (c, CallForceCloseInLoop) = forceCloseInLoop exec c"
| "runCall exec K (c, CallEstablished) = connectionEstablished exec c"
| "runCall exec K (c, CallDestroyed) = connectionDestroyed exec c"
| "runCall exec K (c, CallHandleRead) = TcpConnection_handleRead exec c"
| "runCall exec K (c, CallHandleWrite) = TcpConnection_handleWrite c"
| "runCall exec K (c, CallHandleClose) = handleClose exec c"
| "runCall exec K (c, CallHandleError) = TcpConnection_handleError c"

lemma runCall_status:
  assumes "\<And>t. keeps (statusFrom c r) (exec t)"
  shows "keeps (statusFrom c r) (runCall exec K cl)"
proof -
  have e: "\<And>t. yields (statusFrom c r) (exec t) (statusFrom c r)" using assms keeps_yields by blast
  obtain c' op where "cl = (c', op)" by (cases cl)
  then show ?thesis
    by (cases op) (auto intro!: yields_keeps status.yields_sendInLoop status.yields_shutdown status.yields_shutdownInLoop
        status.yields_forceClose status.yields_forceCloseInLoop status.yields_connectionEstablished e
        status.yields_connectionDestroyed status.yields_handleRead status.yields_handleWrite status.yields_handleClose
        status.yields_handleError yields_callE[OF status.yields_send] yields_Inr TrueI)
qed

text \<open>
  C13. The status of a connection only moves forward: through any sequence of calls of any of the
  operations, on this and on other connections, in any order and with any answers of the kernel,
  a connection that was connecting, connected, disconnecting or disconnected is at that stage or a
  later one, never at an earlier one; a closed connection is not reopened and a connection being
  shut down not taken back into service. (The callbacks are assumed to respect the order
  themselves, as they do when all they do with connections is to call these operations.)
\<close>

theorem status_moves_forward:
  assumes "\<And>t. keeps (statusFrom c r) (exec t)"
    and "connHeap s c = Some k" and "r = k_status k"
    and "block (map (runCall exec K) calls) s = Inr s'"
  shows "\<exists>k'. connHeap s' c = Some k' \<and> statusRank (k_status k) \<le> statusRank (k_status k')"
proof -
  have "keeps (statusFrom c r) (block (map (runCall exec K) calls))"
    using runCall_status[OF assms(1)] by (intro keeps_block) auto
  then have "statusFrom c r s'" using assms(2-4) keepsD[of "statusFrom c r"] by (fastforce simp: statusFrom_def)
  then show ?thesis using assms(3) by (simp add: statusFrom_def)
qed

theorem status_moves_forward_witness:
  "\<exists>s' k'. block (map (runCall printer demoCloseTasks) [(0, CallForceClose), (0, CallShutdown)])
      (demoConns (\<lambda>_. okAns) Connected []) = Inr s' \<and> connHeap s' 0 = Some k' \<and> 1 \<le> statusRank (k_status k')"
proof -
  let ?s = "demoConns (\<lambda>_. okAns) Connected []"
  let ?calls = "[(0, CallForceClose), (0, CallShutdown)] :: (nat \<times> connCall) list"
  have k: "connHeap ?s 0 = Some (demoConn Connected [])" "Connected = k_status (demoConn Connected [])"
    by (simp_all add: demoConns_defs)
  have p: "keeps (statusFrom 0 Connected) (printer t :: level conns stmt)" for t
    by (simp add: keeps_def printer_def upd_def statusFrom_def)
  obtain s' where s': "block (map (runCall printer demoCloseTasks) ?calls) ?s = Inr s'"
    using k by (simp add: forceClose_def shutdown_def withConn_def setNetStatus_def modConn_def queueInLoop_eq
        Let_def isInLoopThread_def demoConns_defs)
  from status_moves_forward[OF p k s'] k(2) s' show ?thesis by auto
qed

end
