(* ===== verification/Examples.thy ===== *)
theory Examples
  imports TcpServer TcpClient ConnStatus
begin

text \<open>
  example/: the programs built on the library. The echo server (echo_test.cpp) and the pong server
  (PingPongServer.cpp) send every message back; the ping client (PingPongClient.cpp) keeps a number
  of sessions that do the same and counts what passes. What \<^verbatim>\<open>main\<close> gets from its arguments
  through \<^verbatim>\<open>std::stoi\<close> and the like are arguments here.
\<close>

section \<open>Sending a message back\<close>

text \<open>
  \<^verbatim>\<open>conn->send(*buffer)\<close> on the connection's own input buffer, which \<^verbatim>\<open>send\<close> empties when it
  accepts the bytes.
\<close>

definition sendBack :: "'t connTasks \<Rightarrow> nat \<Rightarrow> ('t, 'z) conns_scheme stmt" where
  "sendBack K c = withConn ''onMessage'' c (\<lambda>k.
     callE (sendBuffer K c (k_in k)) (\<lambda>(ok, b). modConn ''onMessage'' (\<lambda>k. k\<lparr>k_in := b\<rparr>) c))"

section \<open>The echo server\<close>

definition EchoServer_ctor ::
  "'t serverTasks \<Rightarrow> (nat \<Rightarrow> 't) \<Rightarrow> nat \<Rightarrow> endpoint \<Rightarrow> ('t, 'z) server_scheme stmt" where
  "EchoServer_ctor K onMessage loop listenAddr = block [
     TcpServer_ctor K loop listenAddr True,
     TcpServer_setMessageCallback onMessage]"

definition EchoServer_start ::
  "('t \<Rightarrow> ('t, 'z) server_scheme stmt) \<Rightarrow> (nat \<Rightarrow> nat) \<Rightarrow> ('t, 'z) server_scheme stmt" where
  "EchoServer_start exec startLoop = TcpServer_start exec startLoop"

definition EchoServer_onMessage :: "'t connTasks \<Rightarrow> nat \<Rightarrow> ('t, 'z) conns_scheme stmt" where
  "EchoServer_onMessage K c = sendBack K c"

text \<open>A program: what comes before \<^verbatim>\<open>loop.loop()\<close>, then the loop.\<close>

definition thenLoop ::
  "('t \<Rightarrow> ('t, 'z) evloop_scheme stmt) \<Rightarrow> ('t, 'z) evloop_scheme stmt \<Rightarrow> ('t, 'z) evloop_scheme \<Rightarrow>
     ('t, 'z) evloop_scheme outcome option" where
  "thenLoop exec setup s = (case setup s of Inl e \<Rightarrow> Some (Inl e) | Inr s' \<Rightarrow> EventLoop_loop exec s')"

definition echo_main ::
  "('t \<Rightarrow> ('t, 'z) server_scheme stmt) \<Rightarrow> 't serverTasks \<Rightarrow> (nat \<Rightarrow> 't) \<Rightarrow> 't \<Rightarrow> 't \<Rightarrow> (nat \<Rightarrow> nat) \<Rightarrow> inet_pton \<Rightarrow>
     byte list \<Rightarrow> ('t, 'z) server_scheme \<Rightarrow> ('t, 'z) server_scheme outcome option" where
  "echo_main exec K onMessage timerRead wakeRead startLoop pton mem = thenLoop exec (block [
     EventLoop_ctor timerRead wakeRead,
     EchoServer_ctor K onMessage 0 (EndPoint_port pton mem 9102 False),
     EchoServer_start exec startLoop])"

section \<open>The pong server\<close>

definition pong_onPingMessage :: "'t connTasks \<Rightarrow> nat \<Rightarrow> ('t, 'z) conns_scheme stmt" where
  "pong_onPingMessage K c = sendBack K c"

text \<open>\<open>None\<close> arguments: too few on the command line, a usage line is printed.\<close>

definition pong_main ::
  "('t \<Rightarrow> ('t, 'z) server_scheme stmt) \<Rightarrow> 't serverTasks \<Rightarrow> (nat \<Rightarrow> 't) \<Rightarrow> 't \<Rightarrow> 't \<Rightarrow> (nat \<Rightarrow> nat) \<Rightarrow>
     (endpoint \<times> int) option \<Rightarrow> ('t, 'z) server_scheme \<Rightarrow> ('t, 'z) server_scheme outcome option" where
  "pong_main exec K onMessage timerRead wakeRead startLoop args s = (case args of
       None \<Rightarrow> Some (Inr s)
     | Some (listenAddr, threadNum) \<Rightarrow> thenLoop exec (block [
         EventLoop_ctor timerRead wakeRead,
         TcpServer_ctor K 0 listenAddr True,
         TcpServer_setMessageCallback onMessage,
         doIf (\<lambda>_. threadNum > 1) (TcpServer_setThreadNum (word_of_int threadNum)),
         TcpServer_start exec startLoop]) s)"

section \<open>The ping client\<close>

record session =
  se_loop :: nat
  se_bytesRead :: "64 word"
  se_bytesWritten :: "64 word"
  se_messagesRead :: "64 word"

text \<open>
  The client with its sessions: the objects by address, and the vector of the pointers that own
  them. Each session has a \<^verbatim>\<open>TcpClient\<close> of its own, on a loop of the pool. What a session calls on
  it is a task: \<open>pt_client i\<close> makes it, with the two callbacks bound to the session, \<open>pt_connect i\<close> and
  \<open>pt_disconnect i\<close> are its member functions.
\<close>

record 't pingpong = "'t conns" +
  pp_pool :: pool
  pp_timeout :: int
  pp_message :: "byte list"
  pp_sessionCount :: "64 word"
  pp_objs :: "nat \<Rightarrow> session option"
  pp_sessions :: "nat list"
  pp_numConnected :: "64 word"

record 't pingTasks =
  pt_conn :: "'t connTasks"
  pt_client :: "nat \<Rightarrow> nat \<Rightarrow> endpoint \<Rightarrow> 't"
  pt_connect :: "nat \<Rightarrow> 't"
  pt_disconnect :: "nat \<Rightarrow> 't"
  pt_timeout :: 't
  pt_quit :: 't
  pt_loopQuit :: 't
  pt_addTimer :: "nat \<Rightarrow> 't"

definition PingPongSession_ctor ::
  "('t \<Rightarrow> ('t, 'z) pingpong_scheme stmt) \<Rightarrow> 't pingTasks \<Rightarrow> nat \<Rightarrow> nat \<Rightarrow> endpoint \<Rightarrow> ('t, 'z) pingpong_scheme stmt" where
  "PingPongSession_ctor exec K i loop serverAddr = block [
     upd (\<lambda>s. s\<lparr>pp_objs := (pp_objs s)(i \<mapsto>
       \<lparr>se_loop = loop, se_bytesRead = 0, se_bytesWritten = 0, se_messagesRead = 0\<rparr>)\<rparr>),
     exec (pt_client K i loop serverAddr)]"

definition PingPongSession_start ::
  "('t \<Rightarrow> ('t, 'z) pingpong_scheme stmt) \<Rightarrow> 't pingTasks \<Rightarrow> nat \<Rightarrow> ('t, 'z) pingpong_scheme stmt" where
  "PingPongSession_start exec K i = exec (pt_connect K i)"

definition PingPongSession_stop ::
  "('t \<Rightarrow> ('t, 'z) pingpong_scheme stmt) \<Rightarrow> 't pingTasks \<Rightarrow> nat \<Rightarrow> ('t, 'z) pingpong_scheme stmt" where
  "PingPongSession_stop exec K i = exec (pt_disconnect K i)"

definition modSession :: "nat \<Rightarrow> (session \<Rightarrow> session) \<Rightarrow> ('t, 'z) pingpong_scheme stmt" where
  "modSession i f s = (case pp_objs s i of
       None \<Rightarrow> Inl (UseAfterFree ''PingPongSession'')
     | Some e \<Rightarrow> Inr (s\<lparr>pp_objs := (pp_objs s)(i \<mapsto> f e)\<rparr>))"

definition PingPongSession_onPingMessage ::
  "'t pingTasks \<Rightarrow> nat \<Rightarrow> nat \<Rightarrow> ('t, 'z) pingpong_scheme stmt" where
  "PingPongSession_onPingMessage K i c = block [
     modSession i (\<lambda>e. e\<lparr>se_messagesRead := se_messagesRead e + 1\<rparr>),
     withConn ''onPingMessage'' c (\<lambda>k s. andThen (readableBytes (k_in k)) (\<lambda>n.
       modSession i (\<lambda>e. e\<lparr>se_bytesRead := se_bytesRead e + of_nat n, se_bytesWritten := se_bytesWritten e + of_nat n\<rparr>) s)),
     sendBack (pt_conn K) c]"

text \<open>The client's part of a connection's start and end.\<close>

definition getMessage :: "(('t, 'z) pingpong_scheme, byte list) func" where
  "getMessage = thenDo (LOG DEBUG) (letIn pp_message retF)"

definition onConnect :: "('t, 'z) pingpong_scheme stmt" where
  "onConnect = block [
     upd (\<lambda>s. s\<lparr>pp_numConnected := pp_numConnected s + 1\<rparr>),
     doIf (\<lambda>s. pp_numConnected s = pp_sessionCount s) (LOG INFO)]"

definition bytesRead :: "session \<Rightarrow> 64 word" where
  "bytesRead e = se_bytesRead e"

definition messagesRead :: "session \<Rightarrow> 64 word" where
  "messagesRead e = se_messagesRead e"

text \<open>The totals over the sessions, which the last log lines print.\<close>

fun totals :: "nat list \<Rightarrow> 64 word \<Rightarrow> 64 word \<Rightarrow> (('t, 'z) pingpong_scheme, 64 word \<times> 64 word) func" where
  "totals [] b m s = Inr ((b, m), s)"
| "totals (i # is) b m s = (case pp_objs s i of
       None \<Rightarrow> Inl (UseAfterFree ''onDisconnect'')
     | Some e \<Rightarrow> totals is (b + bytesRead e) (m + messagesRead e) s)"

definition onDisconnect :: "'t pingTasks \<Rightarrow> nat \<Rightarrow> ('t, 'z) pingpong_scheme stmt" where
  "onDisconnect K c = block [
     upd (\<lambda>s. s\<lparr>pp_numConnected := pp_numConnected s - 1\<rparr>),
     doIf (\<lambda>s. pp_numConnected s = 0) (block [
       LOG INFO,
       letIn pp_sessions (\<lambda>is. callE (totals is 0 0) (\<lambda>_. Inr)),
       LOG INFO, LOG INFO, LOG INFO,
       queueInLoop (pt_quit K)])]"

definition PingPongSession_onConnection ::
  "'t pingTasks \<Rightarrow> nat \<Rightarrow> nat \<Rightarrow> bool \<Rightarrow> ('t, 'z) pingpong_scheme stmt" where
  "PingPongSession_onConnection K i c up = (if up then
       block [
         callE getMessage (\<lambda>m. callE (sendString (pt_conn K) c m) (\<lambda>_. Inr)),
         onConnect]
     else onDisconnect K c)"

definition PingPongClient_quit :: "'t pingTasks \<Rightarrow> ('t, 'z) pingpong_scheme stmt" where
  "PingPongClient_quit K = queueInLoop (pt_loopQuit K)"

definition handleTimeout ::
  "('t \<Rightarrow> ('t, 'z) pingpong_scheme stmt) \<Rightarrow> 't pingTasks \<Rightarrow> ('t, 'z) pingpong_scheme stmt" where
  "handleTimeout exec K = block [
     LOG INFO,
     letIn pp_sessions (\<lambda>ps. block (map (PingPongSession_stop exec K) ps))]"

definition PingPongClient_start ::
  "('t \<Rightarrow> ('t, 'z) pingpong_scheme stmt) \<Rightarrow> 't pingTasks \<Rightarrow> ('t, 'z) pingpong_scheme stmt" where
  "PingPongClient_start exec K =
     letIn pp_sessions (\<lambda>ps. block (map (PingPongSession_start exec K) ps))"

text \<open>The constructor's loops: the message \<^verbatim>\<open>static_cast<char>(i % 128)\<close>, and the sessions.\<close>

function buildMessage :: "int \<Rightarrow> int \<Rightarrow> byte list \<Rightarrow> byte list" where
  "buildMessage n i msg = (if i < n then buildMessage n (i + 1) (msg @ [word_of_int (i mod 128)]) else msg)"
  by pat_completeness auto
termination by (relation "measure (\<lambda>(n, i, m). nat (n - i))") auto

declare buildMessage.simps [simp del]

fun makeSessions ::
  "('t \<Rightarrow> ('t, 'z) pingpong_scheme stmt) \<Rightarrow> 't pingTasks \<Rightarrow> endpoint \<Rightarrow> nat \<Rightarrow> nat \<Rightarrow>
     ('t, 'z) pingpong_scheme stmt" where
  "makeSessions exec K serverAddr i 0 s = Inr s"
| "makeSessions exec K serverAddr i (Suc n) s = letIn pp_pool (\<lambda>p. callE (getNextLoop p) (\<lambda>(l, p'). block [
     upd (\<lambda>s. s\<lparr>pp_pool := p'\<rparr>),
     PingPongSession_ctor exec K i l serverAddr,
     PingPongSession_start exec K i,
     upd (\<lambda>s. s\<lparr>pp_sessions := pp_sessions s @ [i]\<rparr>),
     makeSessions exec K serverAddr (Suc i) n])) s"

definition PingPongClient_ctor ::
  "('t \<Rightarrow> ('t, 'z) pingpong_scheme stmt) \<Rightarrow> 't pingTasks \<Rightarrow> (nat \<Rightarrow> nat) \<Rightarrow> nat \<Rightarrow> endpoint \<Rightarrow> int \<Rightarrow> int \<Rightarrow> int \<Rightarrow>
     int \<Rightarrow> ('t, 'z) pingpong_scheme stmt" where
  "PingPongClient_ctor exec K startLoop loop serverAddr threadCount messageSize sessionCount timeout = block [
     upd (\<lambda>s. s\<lparr>pp_pool := EventLoopThreadPool_ctor loop, pp_timeout := timeout, pp_message := [],
       pp_sessionCount := word_of_int sessionCount, pp_objs := (\<lambda>_. None), pp_sessions := [], pp_numConnected := 0\<rparr>),
     callE (runAfter (pt_addTimer K) (doubleOfInt timeout) (pt_timeout K)) (\<lambda>_. Inr),
     doIf (\<lambda>_. threadCount > 1) (upd (\<lambda>s. s\<lparr>pp_pool := setThreadNum (word_of_int threadCount) (pp_pool s)\<rparr>)),
     letIn pp_pool (\<lambda>p. callE (pool_start startLoop None p) (\<lambda>p'. upd (\<lambda>s. s\<lparr>pp_pool := p'\<rparr>))),
     upd (\<lambda>s. s\<lparr>pp_message := buildMessage messageSize 0 []\<rparr>),
     LOG DEBUG,
     makeSessions exec K serverAddr 0 (nat sessionCount)]"

text \<open>
  \<open>None\<close> arguments: not seven words on the command line.
\<close>

definition ping_main ::
  "('t \<Rightarrow> ('t, 'z) pingpong_scheme stmt) \<Rightarrow> 't pingTasks \<Rightarrow> 't \<Rightarrow> 't \<Rightarrow> (nat \<Rightarrow> nat) \<Rightarrow>
     (endpoint \<times> int \<times> int \<times> int \<times> int) option \<Rightarrow> ('t, 'z) pingpong_scheme \<Rightarrow>
     ('t, 'z) pingpong_scheme outcome option" where
  "ping_main exec K timerRead wakeRead startLoop args s = (case args of
       None \<Rightarrow> Some (Inr s)
     | Some (serverAddr, threadCount, messageSize, sessionCount, timeout) \<Rightarrow> thenLoop exec (block [
         LOG INFO,
         EventLoop_ctor timerRead wakeRead,
         PingPongClient_ctor exec K startLoop 0 serverAddr threadCount messageSize sessionCount timeout,
         PingPongClient_start exec K]) s)"

section \<open>Properties\<close>

lemma sendBack_refused:
  assumes "connHeap s c = Some k" "k_status k \<noteq> Connected" "buf_wf (k_in k)"
  shows "sendBack K c s = Inr s"
proof -
  have "(connHeap s)(c \<mapsto> k\<lparr>k_in := k_in k\<rparr>) = connHeap s" using assms(1) by auto
  then show ?thesis using assms
    by (simp add: sendBack_def withConn_def callE_def sendBuffer_def buf_simps send_def retF_def modConn_def)
qed

lemma sendBack_ok:
  assumes up: "connUp c fd s" and k: "connHeap s c = Some k" "k_status k = Connected"
  obtains s' k' s1 k1 where "sendBack K c s = Inr s'" "connUp c fd s'"
    "written fd (trace s') @ pending c s' = written fd (trace s) @ pending c s @ content (k_in k)"
    "connHeap s' c = Some k'" "content (k_in k') = []"
    "sendInLoop c (content (k_in k)) s = Inr s1" "connHeap s1 c = Some k1"
    "s' = s1\<lparr>connHeap := (connHeap s1)(c \<mapsto> k1\<lparr>k_in := retrieveAll (k_in k)\<rparr>)\<rparr>"
proof -
  have wf: "buf_wf (k_in k)" and tid: "isInLoopThread s"
    using up k(1) by (auto simp: connUp_def isInLoopThread_def)
  obtain s1 where s1: "sendInLoop c (content (k_in k)) s = Inr s1" "connUp c fd s1"
    "written fd (trace s1) @ pending c s1 = written fd (trace s) @ pending c s @ content (k_in k)"
    by (rule sendInLoop_ok[OF up])
  obtain k1 where k1: "connHeap s1 c = Some k1" by (rule connUpE[OF s1(2)])
  let ?k2 = "k1\<lparr>k_in := retrieveAll (k_in k)\<rparr>"
  let ?s' = "s1\<lparr>connHeap := (connHeap s1)(c \<mapsto> ?k2)\<rparr>"
  have b: "buf_wf (retrieveAll (k_in k))" "content (retrieveAll (k_in k)) = []"
    using wf by (simp_all add: retrieveAll_def buf_wf_def content_def)
  show thesis
  proof (rule that[of ?s' ?k2 s1 k1])
    show "sendBack K c s = Inr ?s'"
      using k s1(1) k1 tid wf by (simp add: sendBack_def withConn_def callE_def sendBuffer_def buf_simps take_peek
          send_def thenDo_def retF_def ifElse_def modConn_def)
    show "connUp c fd ?s'" using s1(2) k1 b(1) by (auto simp: connUp_def pollSynced_def)
    show "written fd (trace ?s') @ pending c ?s' = written fd (trace s) @ pending c s @ content (k_in k)"
      using s1(3) k1 by (simp add: pending_def)
  qed (use b s1 k1 in simp_all)
qed

text \<open>
  A read event on an open connection whose message callback sends the message back: the bytes that
  arrived follow, in order and once, everything sent before. \<open>s1\<close> is the state the callback finds.
\<close>

lemma echo_ok:
  assumes up: "connUp c fd s" and k: "connHeap s c = Some k" "k_status k = Connected" "content (k_in k) = []"
    and cb: "k_onMsg k = Some g" "exec (g c) = sendBack K c"
    and xs: "readFdFirst (k_in k) s = Some xs" "xs \<noteq> []"
  obtains s1 b s' k' where "TcpConnection_handleRead exec c s = Inr s'"
    "connHeap s1 = (connHeap s)(c \<mapsto> k\<lparr>k_in := b\<rparr>)" "chans s1 = chans s" "tasks s1 = tasks s"
    "curTid s1 = loopTid s1" "sendBack K c s1 = Inr s'" "connUp c fd s'"
    "written fd (trace s') @ pending c s' = written fd (trace s) @ pending c s @ xs"
    "connHeap s' c = Some k'" "content (k_in k') = []"
proof -
  obtain s1 b where s1: "connUp c fd s1" "connHeap s1 = (connHeap s)(c \<mapsto> k\<lparr>k_in := b\<rparr>)" "content b = xs"
    "written fd (trace s1) = written fd (trace s)" "chans s1 = chans s" "tasks s1 = tasks s"
    "TcpConnection_handleRead exec c s = exec (g c) s1"
    using handleRead_cases[OF up k(1), of exec] k(3) cb(1) xs by (auto simp: readFdTaken_def)
  have k1: "connHeap s1 c = Some (k\<lparr>k_in := b\<rparr>)" "k_status (k\<lparr>k_in := b\<rparr>) = Connected"
    using s1(2) k(2) by simp_all
  obtain s' k' where s': "sendBack K c s1 = Inr s'" "connUp c fd s'"
    "written fd (trace s') @ pending c s' = written fd (trace s1) @ pending c s1 @ content (k_in (k\<lparr>k_in := b\<rparr>))"
    "connHeap s' c = Some k'" "content (k_in k') = []"
    by (rule sendBack_ok[OF s1(1) k1])
  have "pending c s1 = pending c s" using s1(2) k(1) by (simp add: pending_def)
  then have eq: "written fd (trace s') @ pending c s' = written fd (trace s) @ pending c s @ xs"
    using s'(3) s1(3,4) by simp
  have tid: "curTid s1 = loopTid s1" using s1(1) by (simp add: connUp_def)
  have hr: "TcpConnection_handleRead exec c s = Inr s'" using s1(7) cb(2) s'(1) by simp
  show thesis by (rule that[OF hr s1(2,5,6) tid s'(1,2) eq s'(4,5)])
qed

section \<open>The ping client's counters\<close>

text \<open>Sending back touches nothing of what the program keeps beside its connections.\<close>

lemma sendBack_more: "yields (moreIs m) (sendBack K c) (moreIs m)"
proof -
  have y: "yields (moreIs m) (callE (send K c xs) (\<lambda>ok. retF (f ok))) (\<lambda>r. moreIs m (snd r))"
    for xs and f :: "bool \<Rightarrow> bool \<times> buffer"
    by (rule yields_callE[OF more.yields_send[OF TrueI] yields_retF])
  have "yields (moreIs m) (sendBuffer K c b) (\<lambda>r. moreIs m (snd r))" for b :: buffer
    unfolding yields_def sendBuffer_def
    using yieldsD[OF y[where f = "\<lambda>ok. (ok, if ok then retrieveAll b else b)"]] by (auto simp: andThen_Inr_iff)
  moreover have "yields (moreIs m) (modConn w f c) (moreIs m)" for w f
    by (auto simp: yields_def modConn_def withConn_def moreIs_def split: option.splits)
  ultimately show ?thesis unfolding sendBack_def by (intro yields_intros)
qed

lemma sendBack_sessions:
  fixes s s' :: "('t, 'z) pingpong_scheme"
  assumes "sendBack K c s = Inr s'"
  shows "pp_objs s' = pp_objs s"
proof -
  have "conns.more s' = conns.more s"
    using yieldsD[OF sendBack_more, of "conns.more s" s K c s'] assms by (simp add: moreIs_def)
  then show ?thesis by (cases s; cases s') simp
qed

text \<open>
  A message of a session is counted once, with its bytes, as read and as written, and goes back
  like an echo; the other sessions' counters stay.
\<close>

lemma ping_counts:
  assumes "connUp c fd s" and "connHeap s c = Some k" and "k_status k = Connected" and "pp_objs s i = Some e"
  shows "\<exists>s' e'. PingPongSession_onPingMessage K i c s = Inr s' \<and> pp_objs s' = (pp_objs s)(i \<mapsto> e') \<and>
    se_messagesRead e' = se_messagesRead e + 1 \<and>
    se_bytesRead e' = se_bytesRead e + of_nat (length (content (k_in k))) \<and>
    se_bytesWritten e' = se_bytesWritten e + of_nat (length (content (k_in k))) \<and>
    written fd (trace s') @ pending c s' = written fd (trace s) @ pending c s @ content (k_in k)"
proof -
  let ?n = "length (content (k_in k))"
  let ?new = "e\<lparr>se_messagesRead := se_messagesRead e + 1, se_bytesRead := se_bytesRead e + of_nat ?n,
    se_bytesWritten := se_bytesWritten e + of_nat ?n\<rparr>"
  let ?upd = "s\<lparr>pp_objs := (pp_objs s)(i \<mapsto> ?new)\<rparr>"
  have wf: "buf_wf (k_in k)" using assms(1,2) by (auto simp: connUp_def)
  have up: "connUp c fd ?upd" "connHeap ?upd c = Some k" using assms(1,2) by (simp_all add: connUp_def pollSynced_def)
  obtain s' where s': "sendBack (pt_conn K) c ?upd = Inr s'"
    "written fd (trace s') @ pending c s' = written fd (trace ?upd) @ pending c ?upd @ content (k_in k)"
    by (rule sendBack_ok[OF up assms(3)])
  have p: "written fd (trace ?upd) @ pending c ?upd = written fd (trace s) @ pending c s" by (simp add: pending_def)
  let ?g = "\<lambda>e. e\<lparr>se_messagesRead := se_messagesRead e + 1\<rparr>"
  let ?h = "\<lambda>e. e\<lparr>se_bytesRead := se_bytesRead e + of_nat ?n, se_bytesWritten := se_bytesWritten e + of_nat ?n\<rparr>"
  let ?mid = "s\<lparr>pp_objs := (pp_objs s)(i \<mapsto> ?g e)\<rparr>"
  have m: "modSession i ?g s = Inr ?mid" "modSession i ?h ?mid = Inr ?upd"
    using assms(4) by (simp_all add: modSession_def)
  have n: "readableBytes (k_in k) = Inr ?n" using wf by (simp add: buf_simps)
  have h: "withConn ''onPingMessage'' c (\<lambda>k s. andThen (readableBytes (k_in k)) (\<lambda>n.
      modSession i (\<lambda>e. e\<lparr>se_bytesRead := se_bytesRead e + of_nat n, se_bytesWritten := se_bytesWritten e + of_nat n\<rparr>) s))
      ?mid = Inr ?upd"
    using assms(2) by (simp only: withConn_def n m(2) andThen.simps pingpong.simps conns.simps option.simps) (simp add: n m(2))
  have run: "PingPongSession_onPingMessage K i c s = Inr s'"
    by (simp only: PingPongSession_onPingMessage_def block.simps m(1) h s'(1) andThen.simps)
  have "pp_objs s' = pp_objs ?upd" by (rule sendBack_sessions[OF s'(1)])
  then show ?thesis
    using s' p run by (intro exI[of _ s'] exI[of _ ?new]) (simp add: append_assoc[symmetric] del: append_assoc)
qed

lemma buildMessage_bytes:
  "buildMessage n i msg = msg @ map (\<lambda>j. word_of_int (j mod 128)) [i..n - 1]"
proof (induction n i msg rule: buildMessage.induct)
  case (1 n i msg)
  then show ?case by (subst buildMessage.simps) (simp add: upto_rec1)
qed

end
