(* ===== verification/EchoLoop.thy ===== *)
theory EchoLoop
  imports Examples
begin

text \<open>
  The layers together: one turn of the event loop of an echo server, from \<^verbatim>\<open>epoll_wait\<close> through the
  channel and the connection to the write of the reply and the tasks. Poller, channel, connection,
  buffer and application meet here; each step rests on the lemmas of its component.
\<close>

section \<open>What sending leaves alone\<close>

text \<open>
  No task was queued, none will be by sending on \<open>c\<close> (it has no write callback), and the event
  stored in the channel \<open>cid\<close> is still \<open>r\<close>.
\<close>

definition quiet :: "nat \<Rightarrow> nat \<Rightarrow> 32 word \<Rightarrow> 't list \<Rightarrow> ('t, 'z) conns_scheme \<Rightarrow> bool" where
  "quiet c cid r ts s \<longleftrightarrow> tasks s = ts \<and> (\<forall>k. connHeap s c = Some k \<longrightarrow> k_onWrite k = None) \<and>
     (\<exists>ch. chans s cid = Some ch \<and> c_revents ch = r)"

interpretation quiet: conn_frame "quiet c cid r ts" "\<lambda>_. False" "\<lambda>_. True" c
proof unfold_locales
  fix s :: "('a, 'b) conns_scheme" and i ch ev a
  assume "quiet c cid r ts s" "chans s i = Some ch"
  then show "quiet c cid r ts (s\<lparr>chans := (chans s)(i \<mapsto> ch\<lparr>c_events := ev, c_added := a\<rparr>)\<rparr>)"
    by (auto simp: quiet_def)
qed (auto simp: quiet_def plainStep_fields)

lemma sendBack_quiet:
  assumes "sendBack K c s = Inr s'" and "quiet c cid r ts s" and "curTid s = loopTid s"
  shows "quiet c cid r ts s'"
proof -
  obtain k where k: "connHeap s c = Some k" using assms(1) by (auto simp: sendBack_def withConn_def split: option.splits)
  have send: "quiet c cid r ts (snd x)" if sx: "send K c xs s = Inr x" for xs x
  proof (cases "k_status k = Connected")
    case True
    then obtain t where "sendInLoop c xs s = Inr t" "x = (True, t)"
      using sx k assms(3) by (auto simp: send_def withConn_def thenDo_def retF_def ifElse_def isInLoopThread_def andThen_Inr_iff)
    then show ?thesis using yieldsD[OF quiet.yields_sendInLoop assms(2)] by auto
  next
    case False
    then show ?thesis using sx k assms(2) by (auto simp: send_def withConn_def retF_def)
  qed
  obtain n ok t b where t: "send K c (take n (peek (k_in k))) s = Inr (ok, t)"
    "modConn ''onMessage'' (\<lambda>k. k\<lparr>k_in := b\<rparr>) c t = Inr s'"
    using assms(1) k by (auto simp: sendBack_def withConn_def sendBuffer_def callE_def retF_def andThen_Inr_iff)
  have "quiet c cid r ts t" using send[OF t(1)] by simp
  then show ?thesis using t(2) by (rule yieldsD[OF quiet.yields_setInput])
qed

section \<open>One turn of the loop\<close>

lemma afterPoll_frame:
  fixes s :: "('t, 'z) conns_scheme"
  shows "connHeap (afterPoll ms evs s) = connHeap s" "tasks (afterPoll ms evs s) = tasks s"
    "curTid (afterPoll ms evs s) = curTid s" "loopTid (afterPoll ms evs s) = loopTid s"
    "chans (afterPoll ms evs s) = storeRevents evs (chans s)" "env (afterPoll ms evs s) = env s"
    "envIx (afterPoll ms evs s) = Suc (envIx s)"
  by (simp_all add: afterPoll_def now_def logged_def afterSys_def split: prod.split)

lemma connUp_afterPoll:
  fixes s :: "('t, 'z) conns_scheme"
  assumes up: "connUp c fd s" and ev: "pollEvents s = Some [(cid, r)]"
    and size: "kInitEventListSize \<le> evSize s" "evSize s < 2 ^ 62" and ch: "chans s cid = Some ch"
  shows "EPollPoller_poll ms s = Inr ((fst (now s), [cid]), afterPoll ms [(cid, r)] s)"
    "connUp c fd (afterPoll ms [(cid, r)] s)"
    "written fd (trace (afterPoll ms [(cid, r)] s)) = written fd (trace s)"
proof -
  have live: "\<forall>e \<in> set [(cid, r)]. chans s (fst e) \<noteq> None" using ch by simp
  note poll = poll_eq[OF ev live size, of ms]
  show "EPollPoller_poll ms s = Inr ((fst (now s), [cid]), afterPoll ms [(cid, r)] s)" using poll(1) by simp
  show "written fd (trace (afterPoll ms [(cid, r)] s)) = written fd (trace s)"
    using poll(2) by (simp add: writtenOf_def)
  have "interest (trace (afterPoll ms [(cid, r)] s)) = interest (trace s)"
    using poll(2) by (simp add: interest_snoc interestStep_def)
  then show "connUp c fd (afterPoll ms [(cid, r)] s)" using up ch
    by (auto simp: connUp_def pollSynced_def afterPoll_frame isWriting_def split: if_splits)
qed

lemma handleEvent_input:
  assumes "chans s cid = Some ch" "c_revents ch = POLLIN" "c_onRead ch = Some t" "exec t s = Inr s'"
    "chans s' cid = Some ch'" "c_revents ch' = POLLIN"
  shows "handleEvent exec cid s = Inr s'"
proof -
  have "POLLIN AND POLLHUP = 0" "POLLIN AND (POLLERR OR POLLNVAL) = 0" "POLLIN AND POLLOUT = 0"
    "POLLIN AND (POLLIN OR POLLPRI OR POLLRDHUP) \<noteq> 0"
    by (simp_all add: mask_defs)
  then show ?thesis using assms by (simp add: handleEvent_def withChan_def doIf_def fire_def)
qed

lemma doTask_nothing: "tasks s = [] \<Longrightarrow> doTask exec s = Inr (s\<lparr>workingFlag := False\<rparr>)"
  by (simp add: doTask_def upd_def letIn_def)

section \<open>Properties\<close>

text \<open>
  C9. One turn of the loop of the echo server: when \<^verbatim>\<open>epoll_wait\<close> reports input on an open, idle
  connection, the turn reads the bytes that arrived and sends back the very same bytes, in order and
  once, after everything sent before on that connection (what the kernel does not take waits in the
  output buffer, with the interest in writing registered); the turn comes to its end without a
  fault, with the connection open, its input buffer empty and no task left behind. (\<open>exec\<close> gives the
  meaning of the channel's callbacks, \<open>message\<close> that of the connection's.)
\<close>

theorem loop_turn_echoes:
  assumes up: "connUp c fd s" and k: "connHeap s c = Some k" "k_status k = Connected" "content (k_in k) = []"
    and cb: "k_onWrite k = None" "k_onMsg k = Some g" "message (g c) = EchoServer_onMessage K c"
    and ch: "chans s (k_chan k) = Some ch" "c_onRead ch = Some t" "exec t = TcpConnection_handleRead message c"
    and idle: "tasks s = []"
    and ev: "pollEvents s = Some [(k_chan k, POLLIN)]" "kInitEventListSize \<le> evSize s" "evSize s < 2 ^ 62"
    and xs: "readFdFirst (k_in k) (afterPoll kPollTimeMs [(k_chan k, POLLIN)] s) = Some xs" "xs \<noteq> []"
  shows "\<exists>s' k'. loopBody exec s = Inr s' \<and> connUp c fd s' \<and>
    written fd (trace s') @ pending c s' = written fd (trace s) @ pending c s @ xs \<and>
    connHeap s' c = Some k' \<and> content (k_in k') = [] \<and> tasks s' = []"
proof -
  let ?cid = "k_chan k" and ?p = "afterPoll kPollTimeMs [(k_chan k, POLLIN)] s"
  note poll = connUp_afterPoll[OF up ev ch(1), of kPollTimeMs]
  have kp: "connHeap ?p c = Some k" using k(1) by (simp add: afterPoll_frame)
  have sb: "message (g c) = sendBack K c" using cb(3) by (simp add: EchoServer_onMessage_def)
  obtain s1 b s2 k' where s2: "TcpConnection_handleRead message c ?p = Inr s2"
    "connHeap s1 = (connHeap ?p)(c \<mapsto> k\<lparr>k_in := b\<rparr>)" "chans s1 = chans ?p" "tasks s1 = tasks ?p"
    "curTid s1 = loopTid s1" "sendBack K c s1 = Inr s2" "connUp c fd s2"
    "written fd (trace s2) @ pending c s2 = written fd (trace ?p) @ pending c ?p @ xs"
    "connHeap s2 c = Some k'" "content (k_in k') = []"
    by (rule echo_ok[where exec = message and g = g and c = c and K = K, OF poll(2) kp k(2,3) cb(2) sb xs])
  have chp: "chans ?p ?cid = Some (ch\<lparr>c_revents := POLLIN\<rparr>)" using ch(1) by (simp add: afterPoll_frame)
  have "quiet c ?cid POLLIN [] s1"
    using s2(2) chp cb(1) idle by (simp add: quiet_def s2(3,4) afterPoll_frame(1,2))
  then have q: "quiet c ?cid POLLIN [] s2" by (rule sendBack_quiet[OF s2(6) _ s2(5)])
  then obtain ch' where ch': "chans s2 ?cid = Some ch'" "c_revents ch' = POLLIN" by (auto simp: quiet_def)
  have he: "handleEvent exec ?cid ?p = Inr s2"
  proof (rule handleEvent_input[OF chp _ _ _ ch'])
    show "exec t ?p = Inr s2" unfolding ch(3) by (rule s2(1))
  qed (use ch(2) in simp_all)
  let ?s' = "s2\<lparr>workingFlag := False\<rparr>"
  have "loopBody exec s = doTask exec s2"
    using poll(1) he by (simp add: loopBody_def callE_def)
  also have "\<dots> = Inr ?s'" using q by (simp add: doTask_nothing quiet_def)
  finally have turn: "loopBody exec s = Inr ?s'" .
  have "connUp c fd ?s'" "pending c ?s' = pending c s2"
    using s2(7) by (simp_all add: connUp_def pollSynced_def pending_def)
  moreover have "pending c ?p = pending c s" using k(1) by (simp add: pending_def afterPoll_frame)
  ultimately show ?thesis using turn s2(8,9,10) poll(3) q
    by (intro exI[of _ ?s'] exI[of _ k']) (simp add: quiet_def)
qed

text \<open>The connection of the examples, with its read callback, and one answer for every call.\<close>

definition demoEcho :: "level conns" where
  "demoEcho = (demoConns (\<lambda>_. \<lparr>a_ret = 1, a_err = 0, a_payload = [5, 6], a_events = [(4, POLLIN)]\<rparr>) Connected [])
     \<lparr>chans := [4 \<mapsto> (mkChannel 9 True)\<lparr>c_added := True, c_events := kReadEvent, c_onRead := Some DEBUG\<rparr>]\<rparr>"

theorem loop_turn_echoes_witness:
  "\<exists>s'. loopBody (\<lambda>l. if l = DEBUG then TcpConnection_handleRead
        (\<lambda>l. if l = INFO then EchoServer_onMessage demoCloseTasks 0 else printer l) 0 else printer l) demoEcho = Inr s' \<and>
     written 9 (trace s') @ pending 0 s' = [5, 6] \<and> tasks s' = []"
proof -
  let ?m = "(\<lambda>l. if l = INFO then EchoServer_onMessage demoCloseTasks 0 else printer l) :: level \<Rightarrow> level conns stmt"
  let ?e = "(\<lambda>l. if l = DEBUG then TcpConnection_handleRead ?m 0 else printer l) :: level \<Rightarrow> level conns stmt"
  let ?k = "demoConn Connected []" and ?ch = "(mkChannel 9 True)\<lparr>c_added := True, c_events := kReadEvent, c_onRead := Some DEBUG\<rparr>"
  have "kReadEvent \<noteq> 0" "kReadEvent AND kWriteEvent = 0" by (simp_all add: mask_defs)
  then have up: "connUp 0 9 demoEcho"
    by (auto simp: connUp_def demoEcho_def demoConns_defs pollSynced_def buf_wf_def content_def isWriting_def
        mkBuffer_def interest_def interestStep_def)
  have none: "pending 0 demoEcho = []" "written 9 (trace demoEcho) = []"
    by (simp_all add: pending_def demoEcho_def demoConns_defs content_def)
  have k: "connHeap demoEcho 0 = Some ?k" "k_status ?k = Connected" "content (k_in ?k) = []" "k_onWrite ?k = None"
    "k_onMsg ?k = Some (\<lambda>_. INFO)" "k_chan ?k = 4"
    by (simp_all add: demoEcho_def demoConns_defs content_def mkBuffer_def)
  have c: "?m ((\<lambda>_. INFO) 0) = EchoServer_onMessage demoCloseTasks 0" "?e DEBUG = TcpConnection_handleRead ?m 0"
    by simp_all
  have ch: "chans demoEcho (k_chan ?k) = Some ?ch" "c_onRead ?ch = Some DEBUG" "tasks demoEcho = []"
    by (simp_all add: demoEcho_def demoConns_defs)
  have ev: "pollEvents demoEcho = Some [(k_chan ?k, POLLIN)]" "kInitEventListSize \<le> evSize demoEcho" "evSize demoEcho < 2 ^ 62"
    by (simp_all add: pollEvents_def nextAns_def demoEcho_def demoConns_defs kInitEventListSize_def)
  have xs: "readFdFirst (k_in ?k) (afterPoll kPollTimeMs [(k_chan ?k, POLLIN)] demoEcho) = Some [5, 6]"
    by (simp add: readFdFirst_def readResult_def nextAns_def afterPoll_frame demoEcho_def demoConns_defs
        readCap_def extraSize_def mkBuffer_def)
  show ?thesis
    using loop_turn_echoes[where exec = ?e and message = ?m and K = demoCloseTasks,
        OF up k(1-5) c(1) ch(1,2) c(2) ch(3) ev xs] none by auto
qed

end
