(* ===== verification/EchoRun.thy ===== *)
theory EchoRun
  imports EchoLoop
begin

text \<open>
  The event loop of an echo server over any number of turns: whatever \<^verbatim>\<open>epoll_wait\<close>, \<^verbatim>\<open>readv\<close> and
  \<^verbatim>\<open>write\<close> answer, the loop keeps running, and the bytes sent back are the bytes received. The loop
  invariant is stated over the trace of system calls; that the connection's operations keep the
  wiring of its callbacks is an instance of the contract \<open>conn_ops\<close>.
\<close>

section \<open>The invariant\<close>

text \<open>The objects of one connection and the tokens of its callbacks.\<close>

record 't wiring =
  w_conn :: nat
  w_chan :: nat
  w_fd :: int
  w_onMsg :: "nat \<Rightarrow> 't"
  w_onConn :: "nat \<Rightarrow> bool \<Rightarrow> 't"
  w_onClose :: "nat \<Rightarrow> 't"
  w_read :: 't
  w_write :: 't
  w_close :: 't
  w_error :: 't

definition own :: "'t wiring \<Rightarrow> 't set" where
  "own W = {w_read W, w_write W, w_close W, w_error W}"

text \<open>
  The connection and its channel are there with their callbacks, the channel's last event is \<open>r\<close>,
  the bytes received on its descriptor are \<open>zs\<close> and the input buffer holds \<open>inc\<close>.
\<close>

definition wiredConn :: "'t wiring \<Rightarrow> byte list \<Rightarrow> 't conn \<Rightarrow> bool" where
  "wiredConn W inc k \<longleftrightarrow> k_chan k = w_chan W \<and> content (k_in k) = inc \<and> k_onMsg k = Some (w_onMsg W) \<and>
     k_onConn k = Some (w_onConn W) \<and> k_onClose k = Some (w_onClose W) \<and> k_onWrite k = None"

definition wiredChan :: "'t wiring \<Rightarrow> 32 word \<Rightarrow> 't channel \<Rightarrow> bool" where
  "wiredChan W r ch \<longleftrightarrow> c_fd ch = w_fd W \<and> c_revents ch = r \<and> c_onRead ch = Some (w_read W) \<and>
     c_onWrite ch = Some (w_write W) \<and> c_onClose ch = Some (w_close W) \<and> c_onError ch = Some (w_error W)"

definition wired :: "'t wiring \<Rightarrow> 32 word \<Rightarrow> byte list \<Rightarrow> byte list \<Rightarrow> ('t, 'z) conns_scheme \<Rightarrow> bool" where
  "wired W r zs inc s \<longleftrightarrow> curTid s = loopTid s \<and> evSize s = kInitEventListSize \<and> set (tasks s) \<inter> own W = {} \<and>
     received (w_fd W) (trace s) = zs \<and>
     (\<exists>k. connHeap s (w_conn W) = Some k \<and> wiredConn W inc k) \<and>
     (\<exists>ch. chans s (w_chan W) = Some ch \<and> wiredChan W r ch)"

lemma receivedOf_other: "outward x \<Longrightarrow> receivedOf fd x = []"
  by (cases x) (simp_all add: receivedOf_def)

interpretation wired: conn_ops "wired W r zs inc" "\<lambda>t. t \<notin> own W" "\<lambda>_. True" "w_conn W"
proof unfold_locales
  fix s :: "('a, 'b) conns_scheme" and i ch ev a
  assume "wired W r zs inc s" "chans s i = Some ch"
  then show "wired W r zs inc (s\<lparr>chans := (chans s)(i \<mapsto> ch\<lparr>c_events := ev, c_added := a\<rparr>)\<rparr>)"
    by (auto simp: wired_def wiredChan_def)
next
  fix s :: "('a, 'b) conns_scheme" and k f
  assume "wired W r zs inc s" "connHeap s (w_conn W) = Some k" "k_onWrite k = Some f"
  then show "f (w_conn W) \<notin> own W" by (auto simp: wired_def wiredConn_def)
qed (auto simp: wired_def wiredConn_def receivedOf_other)

text \<open>
  The balance: since the reading started with \<open>r0\<close> received and \<open>w0\<close> written, the bytes written, those in
  the output buffer and those in the input buffer make up, in this order, the bytes received.
\<close>

definition balance :: "'t wiring \<Rightarrow> 32 word \<Rightarrow> byte list \<Rightarrow> byte list \<Rightarrow> ('t, 'z) conns_scheme \<Rightarrow> bool" where
  "balance W r w0 r0 s \<longleftrightarrow> (\<exists>zs inc. wired W r (r0 @ zs) inc s \<and>
     written (w_fd W) (trace s) @ pending (w_conn W) s @ inc = w0 @ zs)"

definition opened :: "'t wiring \<Rightarrow> ('t, 'z) conns_scheme \<Rightarrow> bool" where
  "opened W s \<longleftrightarrow> connUp (w_conn W) (w_fd W) s"

definition closed :: "'t wiring \<Rightarrow> ('t, 'z) conns_scheme \<Rightarrow> bool" where
  "closed W s \<longleftrightarrow> interest (trace s) (w_fd W) = None \<and>
     (\<exists>k. connHeap s (w_conn W) = Some k \<and> k_status k = Disconnected) \<and>
     (\<exists>ch. chans s (w_chan W) = Some ch \<and> c_events ch = 0)"

definition serving :: "'t wiring \<Rightarrow> 32 word \<Rightarrow> byte list \<Rightarrow> byte list \<Rightarrow> ('t, 'z) conns_scheme \<Rightarrow> bool" where
  "serving W r w0 r0 s \<longleftrightarrow> balance W r w0 r0 s \<and> (opened W s \<or> closed W s)"

lemma balanceE:
  assumes "balance W r w0 r0 s"
  obtains k ch zs where "wired W r (r0 @ zs) (content (k_in k)) s" "connHeap s (w_conn W) = Some k"
    "wiredConn W (content (k_in k)) k" "chans s (w_chan W) = Some ch" "wiredChan W r ch"
    "curTid s = loopTid s"
    "written (w_fd W) (trace s) @ content (k_out k) @ content (k_in k) = w0 @ zs"
  using assms unfolding balance_def wired_def wiredConn_def pending_def by auto

text \<open>What a log line or a step that neither reads nor writes the connection leaves.\<close>

lemma balance_same:
  assumes "balance W r w0 r0 s" and "\<And>zs inc. wired W r zs inc s \<Longrightarrow> wired W r zs inc s'"
    and "written (w_fd W) (trace s') @ pending (w_conn W) s' = written (w_fd W) (trace s) @ pending (w_conn W) s"
  shows "balance W r w0 r0 s'"
proof -
  obtain zs inc where b: "wired W r (r0 @ zs) inc s"
    "(written (w_fd W) (trace s) @ pending (w_conn W) s) @ inc = w0 @ zs"
    using assms(1) unfolding balance_def by auto
  then show ?thesis using assms(2)[OF b(1)] b(2)[folded assms(3)] unfolding balance_def by auto
qed

lemma opened_logged: "opened W s \<Longrightarrow> opened W (logged l s)"
  unfolding opened_def by (rule connUp_ioStep(1)[OF ioStep_logged])

lemma serving_logged:
  assumes "serving W r w0 r0 s"
  shows "serving W r w0 r0 (logged l s)"
proof -
  have "balance W r w0 r0 (logged l s)" using assms
    by (auto simp: serving_def pending_def intro: balance_same wired.P_logged)
  then show ?thesis using assms opened_logged by (auto simp: serving_def closed_def)
qed

section \<open>The callbacks of the channel\<close>

lemma handleError_serves:
  assumes "serving W r w0 r0 s"
  shows "\<exists>s'. TcpConnection_handleError (w_conn W) s = Inr s' \<and> serving W r w0 r0 s' \<and> (opened W s \<longrightarrow> opened W s')"
proof -
  let ?t = "afterSys (SysSoError (w_fd W)) s"
  have b: "balance W r w0 r0 s" using assms by (simp add: serving_def)
  from b obtain k ch where k: "connHeap s (w_conn W) = Some k" "wiredConn W (content (k_in k)) k"
    "chans s (w_chan W) = Some ch" "wiredChan W r ch" "curTid s = loopTid s"
    by (rule balanceE)
  have eq: "TcpConnection_handleError (w_conn W) s = Inr (logged ERROR ?t)"
    using k by (simp add: TcpConnection_handleError_def assertInLoopThread_def assertThat_def connFd_def withConn_def
        withChan_def call_def ISocket_getSocketError_def sys_eq wiredConn_def wiredChan_def stmt_defs)
  have "balance W r w0 r0 ?t"
    by (rule balance_same[OF b]) (auto intro: wired.P_sys simp: writtenOf_def pending_def)
  moreover have "opened W ?t" if "opened W s"
    using that connUp_ioStep(1)[OF ioStep_afterSys, of "SysSoError (w_fd W)" "w_conn W" "w_fd W" s] by (simp add: opened_def)
  moreover have "closed W ?t" if "closed W s" using that by (simp add: closed_def interest_snoc interestStep_def)
  ultimately have "serving W r w0 r0 ?t" "opened W s \<longrightarrow> opened W ?t" using assms by (auto simp: serving_def)
  then show ?thesis using eq serving_logged opened_logged by blast
qed

lemma handleWrite_serves:
  assumes "serving W r w0 r0 s"
  shows "\<exists>s'. TcpConnection_handleWrite (w_conn W) s = Inr s' \<and> serving W r w0 r0 s'"
proof (cases "opened W s")
  case True
  then have up: "connUp (w_conn W) (w_fd W) s" by (simp add: opened_def)
  obtain s' where s': "TcpConnection_handleWrite (w_conn W) s = Inr s'" "connUp (w_conn W) (w_fd W) s'"
    "written (w_fd W) (trace s') @ pending (w_conn W) s' = written (w_fd W) (trace s) @ pending (w_conn W) s"
    by (rule handleWrite_ok[OF up])
  have b: "balance W r w0 r0 s" using assms by (simp add: serving_def)
  have "balance W r w0 r0 s'"
    by (rule balance_same[OF b _ s'(3)]) (rule yieldsD[OF wired.yields_handleWrite _ s'(1)])
  then show ?thesis using s'(1,2) by (auto simp: serving_def opened_def)
next
  case False
  have b: "balance W r w0 r0 s" using assms by (simp add: serving_def)
  obtain k ch where k: "connHeap s (w_conn W) = Some k" "wiredConn W (content (k_in k)) k"
    "chans s (w_chan W) = Some ch" "curTid s = loopTid s"
    by (rule balanceE[OF b])
  have "c_events ch = 0" using False assms k(3) by (auto simp: serving_def closed_def)
  then have "TcpConnection_handleWrite (w_conn W) s = Inr (logged INFO s)"
    using k by (simp add: TcpConnection_handleWrite_def assertInLoopThread_def assertThat_def connWriting_def
        withConn_def withChan_def wiredConn_def isWriting_def)
  then show ?thesis using serving_logged[OF assms] by blast
qed

text \<open>Closing, when the two callbacks it runs leave the connection in service.\<close>

lemma handleClose_serves:
  assumes b: "balance W r w0 r0 s" and up: "opened W s"
    and cb: "ensures (serving W r w0 r0) (exec (w_onConn W (w_conn W) False)) (serving W r w0 r0)"
      "ensures (serving W r w0 r0) (exec (w_onClose W (w_conn W))) (serving W r w0 r0)"
  shows "\<exists>s'. handleClose exec (w_conn W) s = Inr s' \<and> serving W r w0 r0 s'"
proof -
  let ?c = "w_conn W"
  obtain k ch zs where k: "wired W r (r0 @ zs) (content (k_in k)) s" "connHeap s ?c = Some k"
    "wiredConn W (content (k_in k)) k" "chans s (w_chan W) = Some ch" "wiredChan W r ch"
    by (rule balanceE[OF b])
  have cn: "k_onConn k = Some (w_onConn W)" "k_chan k = w_chan W" using k(3) by (simp_all add: wiredConn_def)
  obtain s1 where s1: "handleClose exec ?c s = andThen (exec (w_onConn W ?c False) s1) (withConn ''handleClose'' ?c (\<lambda>k.
       case k_onClose k of None \<Rightarrow> (\<lambda>_. Inl (BadFunctionCall ''_onCloseCb'')) | Some g \<Rightarrow> exec (g ?c)))"
    "connHeap s1 = (connHeap s)(?c \<mapsto> k\<lparr>k_status := Disconnected\<rparr>)" "interest (trace s1) (w_fd W) = None"
    "written (w_fd W) (trace s1) = written (w_fd W) (trace s)"
    "maskStep (s\<lparr>connHeap := (connHeap s)(?c \<mapsto> k\<lparr>k_status := Disconnected\<rparr>)\<rparr>) s1"
    "\<exists>ch. chans s (k_chan k) = Some ch \<and> chans s1 = (chans s)(k_chan k \<mapsto> ch\<lparr>c_events := 0, c_added := False\<rparr>)"
    by (rule handleClose_ok[OF up[unfolded opened_def] k(2) cn(1)])
  have ch1: "chans s1 = (chans s)(w_chan W \<mapsto> ch\<lparr>c_events := 0, c_added := False\<rparr>)" using s1(6) k(4) cn(2) by auto
  have "wired W r zs' inc s1" if "wired W r zs' inc s" for zs' inc
    using that s1(2,5) ch1 k(2,4) by (auto simp: wired_def wiredConn_def wiredChan_def maskStep_def receivedOf_def)
  then have "balance W r w0 r0 s1"
    by (rule balance_same[OF b]) (use s1(2,4) k(2) in \<open>simp_all add: pending_def\<close>)
  then have v1: "serving W r w0 r0 s1" using s1(2,3) ch1 by (simp add: serving_def closed_def)
  obtain s2 where s2: "exec (w_onConn W ?c False) s1 = Inr s2" "serving W r w0 r0 s2"
    using ensuresD[OF cb(1) v1] by blast
  have "balance W r w0 r0 s2" using s2(2) by (simp add: serving_def)
  then obtain k2 where "connHeap s2 ?c = Some k2" "wiredConn W (content (k_in k2)) k2" by (rule balanceE)
  moreover obtain s3 where "exec (w_onClose W ?c) s2 = Inr s3" "serving W r w0 r0 s3"
    using ensuresD[OF cb(2) s2(2)] by blast
  ultimately show ?thesis using s1(1) s2(1) by (intro exI[of _ s3]) (simp add: withConn_def wiredConn_def)
qed

text \<open>Sending back: the bytes move from the input buffer to the output, or stay if \<^verbatim>\<open>send\<close> refuses them.\<close>

lemma sendBack_serves:
  assumes b: "balance W r w0 r0 s" and up: "opened W s"
  shows "\<exists>s'. sendBack K (w_conn W) s = Inr s' \<and> serving W r w0 r0 s'"
proof -
  let ?c = "w_conn W" and ?fd = "w_fd W"
  obtain k ch zs where k: "wired W r (r0 @ zs) (content (k_in k)) s" "connHeap s ?c = Some k"
    "written ?fd (trace s) @ content (k_out k) @ content (k_in k) = w0 @ zs"
    by (rule balanceE[OF b])
  have up': "connUp ?c ?fd s" using up by (simp add: opened_def)
  have wf: "buf_wf (k_in k)" using up' k(2) by (auto simp: connUp_def)
  show ?thesis
  proof (cases "k_status k = Connected")
    case True
    obtain s' s1 k1 where s': "sendBack K ?c s = Inr s'" "connUp ?c ?fd s'"
      "written ?fd (trace s') @ pending ?c s' = written ?fd (trace s) @ pending ?c s @ content (k_in k)"
      "sendInLoop ?c (content (k_in k)) s = Inr s1" "connHeap s1 ?c = Some k1"
      "s' = s1\<lparr>connHeap := (connHeap s1)(?c \<mapsto> k1\<lparr>k_in := retrieveAll (k_in k)\<rparr>)\<rparr>"
      by (rule sendBack_ok[OF up' k(2) True])
    have "content (retrieveAll (k_in k)) = []" using wf by (simp add: retrieveAll_def content_def)
    moreover have "wired W r (r0 @ zs) (content (k_in k)) s1" by (rule yieldsD[OF wired.yields_sendInLoop k(1) s'(4)])
    ultimately have "wired W r (r0 @ zs) [] s'" using s'(5,6) by (auto simp: wired_def wiredConn_def)
    moreover have "written ?fd (trace s') @ pending ?c s' = w0 @ zs" using s'(3) k(2,3) by (simp add: pending_def)
    ultimately have "balance W r w0 r0 s'"
      unfolding balance_def by (intro exI[of _ zs] exI[of _ "[]"]) (simp only: append_Nil2 simp_thms)
    then show ?thesis using s'(1,2) by (auto simp: serving_def opened_def)
  next
    case False
    have "sendBack K ?c s = Inr s" by (rule sendBack_refused[OF k(2) False wf])
    then show ?thesis using b up by (auto simp: serving_def)
  qed
qed

text \<open>Reading, with the callbacks of the connection those of the echo server.\<close>

definition echoCallbacks ::
  "('t \<Rightarrow> ('t, 'z) conns_scheme stmt) \<Rightarrow> 't connTasks \<Rightarrow> 't wiring \<Rightarrow> byte list \<Rightarrow> byte list \<Rightarrow> bool" where
  "echoCallbacks msg K W w0 r0 \<longleftrightarrow> msg (w_onMsg W (w_conn W)) = EchoServer_onMessage K (w_conn W) \<and>
     (\<forall>r. ensures (serving W r w0 r0) (msg (w_onConn W (w_conn W) False)) (serving W r w0 r0) \<and>
          ensures (serving W r w0 r0) (msg (w_onClose W (w_conn W))) (serving W r w0 r0))"

lemma handleRead_serves:
  assumes b: "balance W r w0 r0 s" and up: "opened W s" and cb: "echoCallbacks msg K W w0 r0"
  shows "\<exists>s'. TcpConnection_handleRead msg (w_conn W) s = Inr s' \<and> serving W r w0 r0 s'"
proof -
  let ?c = "w_conn W" and ?fd = "w_fd W"
  obtain k ch zs where k: "wired W r (r0 @ zs) (content (k_in k)) s" "connHeap s ?c = Some k"
    "wiredConn W (content (k_in k)) k" "chans s (w_chan W) = Some ch"
    "written ?fd (trace s) @ content (k_out k) @ content (k_in k) = w0 @ zs"
    by (rule balanceE[OF b])
  let ?taken = "readFdTaken (k_in k) s"
  obtain s1 b' where s1: "connUp ?c ?fd s1" "connHeap s1 = (connHeap s)(?c \<mapsto> k\<lparr>k_in := b'\<rparr>)"
    "content b' = content (k_in k) @ ?taken" "written ?fd (trace s1) = written ?fd (trace s)" "chans s1 = chans s"
    "tasks s1 = tasks s" "evSize s1 = evSize s"
    "received ?fd (trace s1) = received ?fd (trace s) @ ?taken"
    "TcpConnection_handleRead msg ?c s = (case readFdFirst (k_in k) s of
         None \<Rightarrow> Inr (logged ERROR s1)
       | Some xs \<Rightarrow> if xs = [] then handleClose msg ?c s1
           else case k_onMsg k of None \<Rightarrow> Inr (logged ERROR s1) | Some f \<Rightarrow> msg (f ?c) s1)"
    using handleRead_cases[OF up[unfolded opened_def] k(2), of msg] by blast
  have "curTid s1 = loopTid s1" using s1(1) by (simp add: connUp_def)
  then have "wired W r (r0 @ zs @ ?taken) (content b') s1"
    using k(1-4) s1(2,5-8) by (auto simp: wired_def wiredConn_def)
  moreover have "written ?fd (trace s1) @ content (k_out k) @ content b' = w0 @ zs @ ?taken"
    using s1(3,4) k(5) by (metis append.assoc)
  moreover have "pending ?c s1 = content (k_out k)" using s1(2) by (simp add: pending_def)
  ultimately have b1: "balance W r w0 r0 s1"
    unfolding balance_def by (intro exI[of _ "zs @ ?taken"] exI[of _ "content b'"]) (simp only: simp_thms)
  have o1: "opened W s1" using s1(1) by (simp add: opened_def)
  then have v1: "serving W r w0 r0 s1" using b1 by (simp add: serving_def)
  have close: "ensures (serving W r w0 r0) (msg (w_onConn W ?c False)) (serving W r w0 r0)"
    "ensures (serving W r w0 r0) (msg (w_onClose W ?c)) (serving W r w0 r0)"
    and reply: "msg (w_onMsg W ?c) = sendBack K ?c"
    using cb by (simp_all add: echoCallbacks_def EchoServer_onMessage_def)
  have onMsg: "k_onMsg k = Some (w_onMsg W)" using k(3) by (simp add: wiredConn_def)
  show ?thesis
  proof (cases "readFdFirst (k_in k) s")
    case None
    then show ?thesis using s1(9) serving_logged[OF v1] by simp
  next
    case (Some xs)
    show ?thesis
    proof (cases "xs = []")
      case True
      then show ?thesis using s1(9) Some handleClose_serves[where exec = msg, OF b1 o1 close] by simp
    next
      case False
      then show ?thesis using s1(9) Some onMsg reply sendBack_serves[OF b1 o1, of K] by simp
    qed
  qed
qed

section \<open>A turn of the loop\<close>

text \<open>
  What the kernel may report at a wait: an error, nothing, or one event on the connection's channel
  while the descriptor is registered. The event must not call a hang-up with nothing to read urgent
  or half closed at the same time: on that mask \<^verbatim>\<open>handleEvent\<close> closes the connection and then reads from it.
\<close>

definition saneEvent :: "32 word \<Rightarrow> bool" where
  "saneEvent r \<longleftrightarrow> (r AND POLLHUP \<noteq> 0 \<and> r AND POLLIN = 0 \<longrightarrow> r AND (POLLIN OR POLLPRI OR POLLRDHUP) = 0)"

definition pollOk :: "'t wiring \<Rightarrow> ('t, 'z) conns_scheme \<Rightarrow> bool" where
  "pollOk W s \<longleftrightarrow> (case pollEvents s of None \<Rightarrow> True
     | Some evs \<Rightarrow> evs = [] \<or> (\<exists>r. evs = [(w_chan W, r)] \<and> saneEvent r \<and> interest (trace s) (w_fd W) \<noteq> None))"

text \<open>The channel's tasks are the connection's member functions, and every other task leaves it in service.\<close>

definition echoTasks ::
  "('t \<Rightarrow> ('t, 'z) conns_scheme stmt) \<Rightarrow> ('t \<Rightarrow> ('t, 'z) conns_scheme stmt) \<Rightarrow> 't wiring \<Rightarrow> byte list \<Rightarrow> byte list \<Rightarrow> bool" where
  "echoTasks exec msg W w0 r0 \<longleftrightarrow>
     exec (w_read W) = TcpConnection_handleRead msg (w_conn W) \<and> exec (w_write W) = TcpConnection_handleWrite (w_conn W) \<and>
     exec (w_close W) = handleClose msg (w_conn W) \<and> exec (w_error W) = TcpConnection_handleError (w_conn W) \<and>
     (\<forall>t r. t \<notin> own W \<longrightarrow> ensures (serving W r w0 r0) (exec t) (serving W r w0 r0))"

text \<open>The channel as each test of \<^verbatim>\<open>handleEvent\<close> finds it.\<close>

lemma serving_chan:
  assumes "serving W r w0 r0 s"
  obtains ch where "chans s (w_chan W) = Some ch" "c_revents ch = r" "c_onRead ch = Some (w_read W)"
    "c_onWrite ch = Some (w_write W)" "c_onClose ch = Some (w_close W)" "c_onError ch = Some (w_error W)"
  using assms unfolding serving_def balance_def wired_def wiredChan_def by auto

lemma ensures_test:
  assumes "\<And>s. P s \<Longrightarrow> \<exists>ch. chans s cid = Some ch \<and> c_revents ch = r \<and> cb ch = Some t"
    and "\<And>s. P s \<Longrightarrow> if c r then \<exists>s'. exec t s = Inr s' \<and> Q s' else Q s"
  shows "ensures P (withChan who cid (\<lambda>ch. doIf (\<lambda>_. c (c_revents ch)) (fire exec (cb ch)))) Q"
  unfolding ensures_def
proof (intro allI impI)
  fix s assume P: "P s"
  then obtain ch where "chans s cid = Some ch" "c_revents ch = r" "cb ch = Some t" using assms(1) by blast
  then show "\<exists>s'. withChan who cid (\<lambda>ch. doIf (\<lambda>_. c (c_revents ch)) (fire exec (cb ch))) s = Inr s' \<and> Q s'"
    using assms(2)[OF P] by (auto simp: withChan_def doIf_def fire_def)
qed

lemma handleEvent_serves:
  fixes s :: "('t, 'z) conns_scheme"
  assumes "serving W r w0 r0 s" and "opened W s" and "saneEvent r"
    and cb: "echoCallbacks msg K W w0 r0" and tk: "echoTasks exec msg W w0 r0"
  shows "\<exists>s'. handleEvent exec (w_chan W) s = Inr s' \<and> serving W r w0 r0 s'"
proof -
  let ?V = "serving W r w0 r0" and ?hup = "r AND POLLHUP \<noteq> 0 \<and> r AND POLLIN = 0"
  let ?O = "\<lambda>s. ?V s \<and> (\<not> ?hup \<longrightarrow> opened W s)"
  have chan: "\<exists>ch. chans s (w_chan W) = Some ch \<and> c_revents ch = r \<and> c_onClose ch = Some (w_close W)"
    "\<exists>ch. chans s (w_chan W) = Some ch \<and> c_revents ch = r \<and> c_onError ch = Some (w_error W)"
    "\<exists>ch. chans s (w_chan W) = Some ch \<and> c_revents ch = r \<and> c_onRead ch = Some (w_read W)"
    "\<exists>ch. chans s (w_chan W) = Some ch \<and> c_revents ch = r \<and> c_onWrite ch = Some (w_write W)" if "?V s" for s :: "('t, 'z) conns_scheme"
    by (rule serving_chan[OF that], blast)+
  have ops: "exec (w_read W) = TcpConnection_handleRead msg (w_conn W)" "exec (w_write W) = TcpConnection_handleWrite (w_conn W)"
    "exec (w_close W) = handleClose msg (w_conn W)" "exec (w_error W) = TcpConnection_handleError (w_conn W)"
    using tk by (simp_all add: echoTasks_def)
  have close: "ensures (?V) (msg (w_onConn W (w_conn W) False)) (?V)" "ensures (?V) (msg (w_onClose W (w_conn W))) (?V)"
    using cb by (simp_all add: echoCallbacks_def)
  have "ensures (\<lambda>s. ?V s \<and> opened W s) (handleEvent exec (w_chan W)) ?V"
    unfolding handleEvent_def
  proof (rule ensures_seq[OF _ ensures_seq[OF _ ensures_seq[OF _ ensures_last]]])
    show "ensures (\<lambda>s. ?V s \<and> opened W s) (withChan ''Channel::handleEvent'' (w_chan W) (\<lambda>ch.
       doIf (\<lambda>_. c_revents ch AND POLLHUP \<noteq> 0 \<and> c_revents ch AND POLLIN = 0) (fire exec (c_onClose ch)))) ?O"
      by (rule ensures_test[where r = r and t = "w_close W"])
        (use chan ops close handleClose_serves[where exec = msg] in \<open>auto simp: serving_def\<close>)
  next
    show "ensures ?O (withChan ''Channel::handleEvent'' (w_chan W) (\<lambda>ch.
       doIf (\<lambda>_. c_revents ch AND (POLLERR OR POLLNVAL) \<noteq> 0) (fire exec (c_onError ch)))) ?O"
    proof (rule ensures_test[where r = r and t = "w_error W"])
      fix s :: "('t, 'z) conns_scheme" assume "?O s"
      then show "if r AND (POLLERR OR POLLNVAL) \<noteq> 0 then \<exists>s'. exec (w_error W) s = Inr s' \<and> ?O s' else ?O s"
        using handleError_serves[of W r w0 r0 s] ops by auto
    qed (use chan in blast)
  next
    show "ensures ?O (withChan ''Channel::handleEvent'' (w_chan W) (\<lambda>ch.
       doIf (\<lambda>_. c_revents ch AND (POLLIN OR POLLPRI OR POLLRDHUP) \<noteq> 0) (fire exec (c_onRead ch)))) ?V"
    proof (rule ensures_test[where r = r and t = "w_read W"])
      fix s :: "('t, 'z) conns_scheme" assume "?O s"
      then show "if r AND (POLLIN OR POLLPRI OR POLLRDHUP) \<noteq> 0 then \<exists>s'. exec (w_read W) s = Inr s' \<and> ?V s' else ?V s"
        using handleRead_serves[OF _ _ cb, of r s] ops assms(3) by (auto simp: saneEvent_def serving_def)
    qed (use chan in blast)
  next
    show "ensures ?V (withChan ''Channel::handleEvent'' (w_chan W) (\<lambda>ch.
       doIf (\<lambda>_. c_revents ch AND POLLOUT \<noteq> 0) (fire exec (c_onWrite ch)))) ?V"
      by (rule ensures_test[where r = r and t = "w_write W"]) (use chan ops handleWrite_serves in auto)
  qed
  then show ?thesis using assms(1,2) by (auto simp: ensures_def)
qed

text \<open>The wait.\<close>

lemma serving_update:
  assumes "serving W r w0 r0 s"
  shows "serving W r w0 r0 (s\<lparr>workingFlag := b\<rparr>)" "serving W r w0 r0 (s\<lparr>workingFlag := b, tasks := []\<rparr>)"
    "serving W r w0 r0 (snd (now s))"
  using assms by (auto simp: serving_def balance_def wired_def pending_def opened_def connUp_def pollSynced_def
      closed_def now_def split: prod.split)

lemma serving_wait:
  assumes "serving W r w0 r0 s"
  shows "serving W r w0 r0 (snd (now (afterSys (SysEpollWait e n ms) s)))"
proof -
  let ?t = "afterSys (SysEpollWait e n ms) s"
  have b: "balance W r w0 r0 s" using assms by (simp add: serving_def)
  have "balance W r w0 r0 ?t"
    by (rule balance_same[OF b]) (auto intro: wired.P_sys simp: writtenOf_def pending_def)
  moreover have "opened W ?t" if "opened W s"
    using that connUp_ioStep(1)[OF ioStep_afterSys, of "SysEpollWait e n ms" "w_conn W" "w_fd W" s] by (simp add: opened_def)
  moreover have "closed W ?t" if "closed W s" using that by (simp add: closed_def interest_snoc interestStep_def)
  ultimately have "serving W r w0 r0 ?t" using assms by (auto simp: serving_def)
  then show ?thesis by (rule serving_update)
qed

lemma opened_wait: "opened W s \<Longrightarrow> opened W (logged l (snd (now (afterSys (SysEpollWait e n ms) s))))"
proof -
  assume "opened W s"
  then have "opened W (afterSys (SysEpollWait e n ms) s)"
    using connUp_ioStep(1)[OF ioStep_afterSys, of "SysEpollWait e n ms" "w_conn W" "w_fd W" s] by (simp add: opened_def)
  then have "opened W (snd (now (afterSys (SysEpollWait e n ms) s)))"
    by (auto simp: opened_def connUp_def pollSynced_def now_def split: prod.split)
  then show ?thesis by (rule opened_logged)
qed

lemma serving_event:
  assumes "serving W r w0 r0 s" "opened W s" "chans s (w_chan W) = Some ch"
  shows "serving W r' w0 r0 (s\<lparr>chans := (chans s)(w_chan W \<mapsto> ch\<lparr>c_revents := r'\<rparr>)\<rparr>)"
    "opened W (s\<lparr>chans := (chans s)(w_chan W \<mapsto> ch\<lparr>c_revents := r'\<rparr>)\<rparr>)"
proof -
  let ?t = "s\<lparr>chans := (chans s)(w_chan W \<mapsto> ch\<lparr>c_revents := r'\<rparr>)\<rparr>"
  obtain zs inc where b: "wired W r (r0 @ zs) inc s"
    "written (w_fd W) (trace s) @ pending (w_conn W) s @ inc = w0 @ zs"
    using assms(1) by (auto simp: serving_def balance_def)
  have "wired W r' (r0 @ zs) inc ?t" using b(1) assms(3) by (auto simp: wired_def wiredChan_def)
  then have "balance W r' w0 r0 ?t" using b(2)
    unfolding balance_def by (intro exI[of _ zs] exI[of _ inc]) (simp add: pending_def)
  moreover show "opened W ?t" using assms(2,3) by (auto simp: opened_def connUp_def pollSynced_def isWriting_def)
  ultimately show "serving W r' w0 r0 ?t" by (simp add: serving_def)
qed

text \<open>A turn: from a state in service and an answer of the kernel as above, the turn ends in service.\<close>

lemma turn_serves:
  fixes s :: "('t, 'z) conns_scheme"
  assumes v: "serving W r w0 r0 s" and ok: "pollOk W s"
    and cb: "echoCallbacks msg K W w0 r0" and tk: "echoTasks exec msg W w0 r0"
  shows "\<exists>s' r'. loopBody exec s = Inr s' \<and> serving W r' w0 r0 s'"
proof -
  have size: "evSize s = kInitEventListSize" "kInitEventListSize \<le> evSize s" "evSize s < 2 ^ 62"
    using v by (auto simp: serving_def balance_def wired_def kInitEventListSize_def)
  have tasks: "\<exists>s'. doTask exec t = Inr s' \<and> serving W q w0 r0 s'" if t: "serving W q w0 r0 t" for t q
  proof -
    have "x \<notin> own W" if "x \<in> set (tasks t)" for x
      using t that by (auto simp: serving_def balance_def wired_def)
    then have "ensures (serving W q w0 r0) (exec x) (serving W q w0 r0)" if "x \<in> set (tasks t)" for x
      using tk that by (auto simp: echoTasks_def)
    then have "ensures (serving W q w0 r0) (block (map exec (tasks t))) (serving W q w0 r0)"
      by (intro ensures_block) auto
    from ensuresD[OF this serving_update(2)[OF t, of True]] obtain u where
      "block (map exec (tasks t)) (t\<lparr>workingFlag := True, tasks := []\<rparr>) = Inr u" "serving W q w0 r0 u" by blast
    then show ?thesis using serving_update(1)[of W q w0 r0 u False]
      by (intro exI[of _ "u\<lparr>workingFlag := False\<rparr>"]) (simp add: doTask_def upd_def letIn_def)
  qed
  let ?w = "snd (now (afterSys (SysEpollWait (epollFd s) (evSize s) kPollTimeMs) s))"
  note w = serving_wait[OF v, of "epollFd s" "evSize s" kPollTimeMs]
  show ?thesis
  proof (cases "pollEvents s")
    case None
    have "serving W r w0 r0 (afterFailedPoll kPollTimeMs s)" unfolding afterFailedPoll_def by (rule serving_logged[OF w])
    from tasks[OF this] poll_fails(1)[OF None size(3), of kPollTimeMs] show ?thesis
      by (auto simp: loopBody_def callE_def)
  next
    case (Some evs)
    consider "evs = []" | r' where "evs = [(w_chan W, r')]" "saneEvent r'" "interest (trace s) (w_fd W) \<noteq> None"
      using ok Some by (auto simp: pollOk_def)
    then show ?thesis
    proof cases
      case 1
      have fr: "chans ?w = chans s" "evSize ?w = evSize s" by (simp_all add: now_def split: prod.split)
      have "afterPoll kPollTimeMs [] s = logged DEBUG ?w"
        using size(1) fr by (simp add: afterPoll_def nextSize_def kInitEventListSize_def)
      then have "serving W r w0 r0 (afterPoll kPollTimeMs [] s)" using serving_logged[OF w] by simp
      from tasks[OF this] poll_eq(1)[OF Some[unfolded 1] _ size(2,3), of kPollTimeMs] show ?thesis
        by (auto simp: loopBody_def callE_def)
    next
      case 2
      have o': "opened W s" using 2(3) v by (auto simp: serving_def closed_def)
      obtain ch where ch: "chans s (w_chan W) = Some ch" by (rule serving_chan[OF v])
      let ?p = "afterPoll kPollTimeMs [(w_chan W, r')] s" and ?l = "logged DEBUG ?w"
      have fr: "chans ?l = chans s" "evSize ?l = evSize s" by (simp_all add: now_def split: prod.split)
      have "?p = ?l\<lparr>chans := (chans ?l)(w_chan W \<mapsto> ch\<lparr>c_revents := r'\<rparr>)\<rparr>"
        using size(1) fr ch by (simp add: afterPoll_def nextSize_def kInitEventListSize_def)
      moreover have "chans ?l (w_chan W) = Some ch" using fr ch by simp
      ultimately have p: "serving W r' w0 r0 ?p" "opened W ?p"
        using serving_event[OF serving_logged[OF w] opened_wait[OF o']] by auto
      obtain t where t: "handleEvent exec (w_chan W) ?p = Inr t" "serving W r' w0 r0 t"
        using handleEvent_serves[OF p 2(2) cb tk] by blast
      have live: "\<forall>e \<in> set [(w_chan W, r')]. chans s (fst e) \<noteq> None" using ch by simp
      from tasks[OF t(2)] t(1) poll_eq(1)[OF Some[unfolded 2(1)] live size(2,3), of kPollTimeMs] show ?thesis
        by (auto simp: loopBody_def callE_def)
    qed
  qed
qed

lemma turns_serve:
  assumes "serving W r w0 r0 s"
    and "echoCallbacks msg K W w0 r0" "echoTasks exec msg W w0 r0"
    and "\<And>m t. m < n \<Longrightarrow> block (replicate m (loopBody exec)) s = Inr t \<Longrightarrow> pollOk W t"
  shows "\<exists>s' r'. block (replicate n (loopBody exec)) s = Inr s' \<and> serving W r' w0 r0 s'"
  using assms(1,4)
proof (induction n arbitrary: r s)
  case 0
  then show ?case by auto
next
  case (Suc n)
  obtain t q where t: "loopBody exec s = Inr t" "serving W q w0 r0 t"
    using turn_serves[OF Suc.prems(1) Suc.prems(2)[of 0 s] assms(2,3)] by auto
  obtain s' r' where "block (replicate n (loopBody exec)) t = Inr s'" "serving W r' w0 r0 s'"
  proof (rule exE[OF Suc.IH[OF t(2)]])
    show "pollOk W u" if "m < n" "block (replicate m (loopBody exec)) t = Inr u" for m u
      using Suc.prems(2)[of "Suc m" u] that t(1) by simp
  qed (use that in blast)
  then show ?case using t(1) by auto
qed

section \<open>Properties\<close>

definition incoming :: "nat \<Rightarrow> ('t, 'z) conns_scheme \<Rightarrow> byte list" where
  "incoming c s = (case connHeap s c of None \<Rightarrow> [] | Some k \<Rightarrow> content (k_in k))"


text \<open>The connection of the examples with all its callbacks; a third party's tasks only log.\<close>

definition demoWiring :: "level wiring" where
  "demoWiring = \<lparr>w_conn = 0, w_chan = 4, w_fd = 9, w_onMsg = (\<lambda>_. INFO), w_onConn = (\<lambda>_ up. if up then DEBUG else WARN),
     w_onClose = (\<lambda>_. ERROR), w_read = DEBUG, w_write = INFO, w_close = WARN, w_error = ERROR\<rparr>"

definition demoMsg :: "level \<Rightarrow> level conns stmt" where
  "demoMsg l = (if l = INFO then EchoServer_onMessage demoCloseTasks 0 else printer l)"

definition demoExec :: "level \<Rightarrow> level conns stmt" where
  "demoExec l = (if l = DEBUG then TcpConnection_handleRead demoMsg 0 else if l = INFO then TcpConnection_handleWrite 0
     else if l = WARN then handleClose demoMsg 0 else if l = ERROR then TcpConnection_handleError 0 else printer l)"

definition demoServing :: "level conns" where
  "demoServing = demoEcho\<lparr>chans := [4 \<mapsto> (mkChannel 9 True)\<lparr>c_added := True, c_events := kReadEvent,
     c_onRead := Some DEBUG, c_onWrite := Some INFO, c_onClose := Some WARN, c_onError := Some ERROR\<rparr>]\<rparr>"

lemma serving_printer: "ensures (serving W r w0 r0) (printer l) (serving W r w0 r0)"
  by (auto simp: ensures_def printer_def upd_def serving_def balance_def wired_def pending_def opened_def connUp_def
      pollSynced_def closed_def)

lemma demo_wired: "echoCallbacks demoMsg demoCloseTasks demoWiring [] []" "echoTasks demoExec demoMsg demoWiring [] []"
proof -
  have d: "w_conn demoWiring = 0" "w_onMsg demoWiring 0 = INFO" "w_onConn demoWiring 0 False = WARN" "w_onClose demoWiring 0 = ERROR"
    by (simp_all add: demoWiring_def)
  show "echoCallbacks demoMsg demoCloseTasks demoWiring [] []"
    unfolding echoCallbacks_def d demoMsg_def by (simp add: serving_printer)
  have "demoExec t = printer t" if "t \<notin> own demoWiring" for t
    using that by (simp add: demoExec_def own_def demoWiring_def)
  then show "echoTasks demoExec demoMsg demoWiring [] []"
    by (auto simp: echoTasks_def serving_printer) (simp_all add: demoExec_def demoWiring_def)
qed

lemma demo_serving: "serving demoWiring 0 [] [] demoServing"
proof -
  have "kReadEvent \<noteq> 0" "kReadEvent AND kWriteEvent = 0" by (simp_all add: mask_defs)
  then have "opened demoWiring demoServing"
    by (auto simp: opened_def demoWiring_def demoServing_def demoEcho_def connUp_def demoConns_defs pollSynced_def
        buf_wf_def content_def isWriting_def mkBuffer_def interest_def interestStep_def)
  moreover have "wired demoWiring 0 [] [] demoServing"
    by (simp add: wired_def wiredConn_def wiredChan_def demoWiring_def demoServing_def demoEcho_def demoConns_defs
        content_def mkBuffer_def mkChannel_def kInitEventListSize_def receivedOf_def)
  moreover have "written 9 (trace demoServing) @ pending 0 demoServing @ [] = []"
    by (simp add: demoServing_def demoEcho_def demoConns_defs pending_def content_def)
  ultimately show ?thesis by (auto simp: serving_def balance_def demoWiring_def)
qed


end
