(* ===== verification/Refinement.thy ===== *)
theory Refinement
  imports Process
begin

text \<open>
  Data refinement for a component with operations. The locale is the proof obligation for one
  operation; its lemma is the statement for every run of operations. A run is a sequence of operations each
  of which its caller may make (\<open>valid\<close>, judged by what the caller can know, the abstract state); \<open>inv n\<close> is an
  invariant that is good for \<open>n\<close> more operations.
\<close>

inductive conRun ::
  "('op \<Rightarrow> 'a \<Rightarrow> bool) \<Rightarrow> ('s \<Rightarrow> 'a) \<Rightarrow> ('op \<Rightarrow> 's stmt) \<Rightarrow> 'op list \<Rightarrow> 's \<Rightarrow> 's outcome \<Rightarrow> bool"
  for valid view run where
  nil: "conRun valid view run [] s (Inr s)"
| step: "valid op (view s) \<Longrightarrow> run op s = Inr t \<Longrightarrow> conRun valid view run ops t r \<Longrightarrow> conRun valid view run (op # ops) s r"
| fail: "valid op (view s) \<Longrightarrow> run op s = Inl e \<Longrightarrow> conRun valid view run (op # ops) s (Inl e)"

inductive_cases conRun_NilE: "conRun valid view run [] s r"
inductive_cases conRun_ConsE: "conRun valid view run (op # ops) s r"

inductive absRun :: "('op \<Rightarrow> 'a \<Rightarrow> 'a \<Rightarrow> bool) \<Rightarrow> 'op list \<Rightarrow> 'a \<Rightarrow> 'a \<Rightarrow> bool" for spec where
  nil: "absRun spec [] a a"
| step: "spec op a b \<Longrightarrow> absRun spec ops b c \<Longrightarrow> absRun spec (op # ops) a c"

inductive_cases absRun_NilE: "absRun spec [] a c"
inductive_cases absRun_ConsE: "absRun spec (op # ops) a c"

locale refinement =
  fixes inv :: "nat \<Rightarrow> 's \<Rightarrow> bool"
    and view :: "'s \<Rightarrow> 'a"
    and valid :: "'op \<Rightarrow> 'a \<Rightarrow> bool"
    and run :: "'op \<Rightarrow> 's stmt"
    and spec :: "'op \<Rightarrow> 'a \<Rightarrow> 'a \<Rightarrow> bool"
  assumes refines: "inv (Suc n) s \<Longrightarrow> valid op (view s) \<Longrightarrow>
    run op s = Inl FatalLog \<or> (\<exists>s'. run op s = Inr s' \<and> inv n s' \<and> spec op (view s) (view s'))"
begin

lemma run_refines:
  "inv (length ops) s \<Longrightarrow> conRun valid view run ops s r \<Longrightarrow>
     r = Inl FatalLog \<or> (\<exists>s'. r = Inr s' \<and> inv 0 s' \<and> absRun spec ops (view s) (view s'))"
proof (induction ops arbitrary: s)
  case Nil
  then show ?case by (auto elim: conRun_NilE intro: absRun.nil)
next
  case (Cons op ops)
  have inv: "inv (Suc (length ops)) s" using Cons.prems(1) by simp
  from Cons.prems(2) show ?case
  proof (rule conRun_ConsE)
    fix t assume t: "valid op (view s)" "run op s = Inr t" "conRun valid view run ops t r"
    then have "inv (length ops) t" "spec op (view s) (view t)" using refines[OF inv, of op] by auto
    with Cons.IH[of t] t show ?thesis by (auto intro: absRun.step)
  next
    fix e assume "r = Inl e" "valid op (view s)" "run op s = Inl e"
    then show ?thesis using refines[OF inv, of op] by auto
  qed
qed

end

text \<open>The same for operations that never fail.\<close>

locale total_refinement =
  fixes inv :: "nat \<Rightarrow> 's \<Rightarrow> bool"
    and view :: "'s \<Rightarrow> 'a"
    and valid :: "'op \<Rightarrow> 'a \<Rightarrow> bool"
    and run :: "'op \<Rightarrow> 's stmt"
    and spec :: "'op \<Rightarrow> 'a \<Rightarrow> 'a \<Rightarrow> bool"
  assumes works: "inv (Suc n) s \<Longrightarrow> valid op (view s) \<Longrightarrow>
    \<exists>s'. run op s = Inr s' \<and> inv n s' \<and> spec op (view s) (view s')"

sublocale total_refinement \<subseteq> refinement
  by unfold_locales (use works in blast)

context total_refinement
begin

lemma run_succeeds: "inv (length ops) s \<Longrightarrow> conRun valid view run ops s r \<Longrightarrow> r \<noteq> Inl e"
proof (induction ops arbitrary: s)
  case Nil
  then show ?case by (auto elim: conRun_NilE)
next
  case (Cons op ops)
  have inv: "inv (Suc (length ops)) s" using Cons.prems(1) by simp
  from Cons.prems(2) show ?case
    by (rule conRun_ConsE) (use works[OF inv, of op] Cons.IH in auto)
qed

lemma run_works:
  assumes "inv (length ops) s" "conRun valid view run ops s r"
  shows "\<exists>s'. r = Inr s' \<and> inv 0 s' \<and> absRun spec ops (view s) (view s')"
  using run_refines[OF assms] run_succeeds[OF assms] by blast

end

end
