(* ===== verification/TimerSchedule.thy ===== *)
theory TimerSchedule
  imports Timer Refinement
begin

text \<open>
  src/net/Timer.h and Timer.cpp from outside: to its users the timer queue is a schedule, a table from
  timer handles to what is to be called and when. The theory proves that the queue, with its set of pointers,
  its counter and its descriptor, implements that table.
\<close>

section \<open>The schedule\<close>

text \<open>An entry: the time, the interval at which it repeats (or not), and the callback.\<close>

type_synonym 't entry = "timestamp \<times> double \<times> 't"

text \<open>The schedule, what has been called so far, the clock and how often it has been read.\<close>

record 't schedule =
  sc_entries :: "timerId \<Rightarrow> 't entry option"
  sc_called :: "'t list"
  sc_clock :: "nat \<Rightarrow> int \<times> int"
  sc_reads :: nat

text \<open>What the clock says when it is read next.\<close>

definition sc_time :: "'t schedule \<Rightarrow> timestamp" where
  "sc_time S = (case sc_clock S (sc_reads S) of (sec, usec) \<Rightarrow> sec * kMicroSecondsPerSecond + usec)"

datatype 't timerOp = Schedule 't timestamp double | Unschedule timerId | Fire

fun timerValid :: "'t timerOp \<Rightarrow> 't schedule \<Rightarrow> bool" where
  "timerValid (Unschedule h) S \<longleftrightarrow> sc_entries S h \<noteq> None"
| "timerValid op S \<longleftrightarrow> True"

text \<open>What firing at a time makes of an entry: due ones repeat or go, the others stay.\<close>

definition afterFire :: "timestamp \<Rightarrow> 't entry \<Rightarrow> 't entry option" where
  "afterFire t0 x = (case x of (e, iv, cb) \<Rightarrow>
     if t0 < e then Some x else if doublePos iv then Some (addTime iv t0, iv, cb) else None)"

definition dueBefore :: "('i \<Rightarrow> 't entry option) \<Rightarrow> ('i \<Rightarrow> 32 word) \<Rightarrow> 'i \<Rightarrow> 'i \<Rightarrow> bool" where
  "dueBefore S seq a b \<longleftrightarrow> timerLess (fst (the (S a)), seq a) (fst (the (S b)), seq b)"

text \<open>
  The operations on the schedule. \<open>Fire\<close> calls the entries that are due, each once, in the order of their
  times (and of their handles' sequence numbers where these agree).
\<close>

fun timerSpec :: "'t timerOp \<Rightarrow> 't schedule \<Rightarrow> 't schedule \<Rightarrow> bool" where
  "timerSpec (Schedule cb time iv) S S' \<longleftrightarrow> sc_called S' = sc_called S \<and> sc_clock S' = sc_clock S \<and>
     sc_reads S \<le> sc_reads S' \<and>
     (\<exists>h. sc_entries S h = None \<and> sc_entries S' = (sc_entries S)(h \<mapsto> (time, iv, cb)))"
| "timerSpec (Unschedule h) S S' \<longleftrightarrow> S' = S\<lparr>sc_entries := (sc_entries S)(h := None)\<rparr>"
| "timerSpec Fire S S' \<longleftrightarrow> sc_clock S' = sc_clock S \<and> sc_reads S < sc_reads S' \<and>
     (\<exists>due. distinct due \<and> set due = {h. \<exists>e iv cb. sc_entries S h = Some (e, iv, cb) \<and> e \<le> sc_time S} \<and>
        sorted_wrt (dueBefore (sc_entries S) fst) due \<and>
        sc_called S' = sc_called S @ map (\<lambda>h. snd (snd (the (sc_entries S h)))) due \<and>
        sc_entries S' = (\<lambda>h. Option.bind (sc_entries S h) (afterFire (sc_time S))))"

section \<open>The queue\<close>

text \<open>The timer queue whose callbacks leave it alone: they only record that they ran.\<close>

record 't tlog = "'t timerq" +
  ranLog :: "'t list"

lemma tlog_frame [simp]: "ranLog (logged l s) = ranLog s" "ranLog (afterSys c s) = ranLog s"
  by (simp_all add: logged_def afterSys_def)

definition recordRun :: "'t \<Rightarrow> 't tlog stmt" where
  "recordRun t = upd (\<lambda>s. s\<lparr>ranLog := ranLog s @ [t]\<rparr>)"

fun timerRun :: "(nat \<Rightarrow> 't) \<Rightarrow> 't timerOp \<Rightarrow> 't tlog stmt" where
  "timerRun tok (Schedule cb time iv) = (\<lambda>s. callE (addTimer tok cb time iv) (\<lambda>_. Inr) s)"
| "timerRun tok (Unschedule h) = cancelInLoop h"
| "timerRun tok Fire = TimerQueue_handleRead recordRun"

definition entryOf :: "'t timer \<Rightarrow> 't entry" where
  "entryOf t = (tm_expire t, tm_interval t, tm_cb t)"

text \<open>The timers that are in the set, by handle.\<close>

definition entries :: "('t, 'z) timerq_scheme \<Rightarrow> timerId \<Rightarrow> 't entry option" where
  "entries s h = (case tmHeap s (snd h) of
       None \<Rightarrow> None
     | Some t \<Rightarrow> if snd h \<in> set (timers s) \<and> tm_id t = fst h then Some (entryOf t) else None)"

definition scheduleOf :: "'t tlog \<Rightarrow> 't schedule" where
  "scheduleOf s = \<lparr>sc_entries = entries s, sc_called = ranLog s, sc_clock = clock s, sc_reads = clockIx s\<rparr>"

lemma scheduleOf_time: "sc_time (scheduleOf s) = fst (now s)"
  by (simp add: sc_time_def scheduleOf_def now_def split: prod.split)

text \<open>
  The invariant: the queue is well formed and at rest, and its timers have sequence numbers from before
  the counter, which \<open>n\<close> more operations do not wrap around.
\<close>

definition seqOf :: "(nat \<Rightarrow> 't timer option) \<Rightarrow> nat \<Rightarrow> 32 word" where
  "seqOf h p = snd (keyIn h p)"

definition queueInv :: "nat \<Rightarrow> ('t, 'z) timerq_scheme \<Rightarrow> bool" where
  "queueInv n s \<longleftrightarrow> timerInv [] s \<and> canceling s = [] \<and> \<not> timerWorking s \<and> curTid s = loopTid s \<and>
     inj_on (seqOf (tmHeap s)) (set (timers s)) \<and> (\<forall>p \<in> set (timers s). seqOf (tmHeap s) p < numCreated s) \<and>
     unat (numCreated s) + n < 2 ^ 32"

lemma entries_iff:
  assumes "timerInv [] s"
  shows "entries s h = Some x \<longleftrightarrow> snd h \<in> set (timers s) \<and> seqOf (tmHeap s) (snd h) = fst h \<and>
    (\<exists>t. tmHeap s (snd h) = Some t \<and> x = entryOf t)"
  using assms by (auto simp: entries_def timerInv_def seqOf_def split: option.splits if_splits)

lemma numCreated_next: "unat (n :: 32 word) + Suc k < 2 ^ 32 \<Longrightarrow> n < n + 1 \<and> unat (n + 1) + k < 2 ^ 32"
  by (auto simp: word_less_nat_alt unat_word_ariths)

section \<open>Scheduling and unscheduling\<close>

lemma seqOf_other: "q \<noteq> p \<Longrightarrow> seqOf (h(p := x)) q = seqOf h q"
  by (simp add: seqOf_def)

lemma schedule_step:
  fixes s :: "'t tlog"
  assumes inv: "queueInv (Suc n) s"
  shows "timerRun tok (Schedule cb time iv) s = Inl FatalLog \<or> (\<exists>s'. timerRun tok (Schedule cb time iv) s = Inr s' \<and>
    queueInv n s' \<and> timerSpec (Schedule cb time iv) (scheduleOf s) (scheduleOf s'))"
proof -
  have i: "timerInv [] s" "isInLoopThread s" using inv by (simp_all add: queueInv_def isInLoopThread_def)
  let ?p = "nextTimer s" and ?i = "numCreated s"
  let ?t = "\<lparr>tm_cb = cb, tm_expire = time, tm_interval = iv, tm_id = ?i\<rparr>"
  let ?h = "(tmHeap s)(?p \<mapsto> ?t)"
  show ?thesis
  proof (cases rule: addTimer_ok[OF i, of tok cb time iv])
    case 1
    then show ?thesis by (simp add: callE_def)
  next
    case (2 ts tr ix e ck)
    let ?s = "s\<lparr>tmHeap := ?h, nextTimer := Suc ?p, numCreated := ?i + 1, timers := ts, trace := trace s @ tr,
      envIx := ix, errno := e, clockIx := ck\<rparr>"
    have free: "tmHeap s ?p = None" using i(1) unfolding timerInv_def by (metis less_irrefl)
    then have p: "?p \<notin> set (timers s)" "tmHeap s ?p = None" using i(1) by (auto simp: timerInv_def)
    have old: "keyIn ?h q = keyIn (tmHeap s) q" "seqOf ?h q = seqOf (tmHeap s) q" if "q \<in> set (timers s)" for q
    proof -
      have "q \<noteq> ?p" using that p(1) by blast
      then show "keyIn ?h q = keyIn (tmHeap s) q" "seqOf ?h q = seqOf (tmHeap s) q" by (simp_all add: seqOf_def)
    qed
    have less: "seqOf (tmHeap s) q < ?i" if "q \<in> set (timers s)" for q using inv that by (simp add: queueInv_def)
    have new: "seqOf ?h ?p = ?i" by (simp add: seqOf_def)
    have set: "set ts = insert ?p (set (timers s))" unfolding 2(5)
    proof (rule ts.insert_set, intro ballI)
      fix q assume q: "q \<in> set (timers s)"
      have "seqOf ?h ?p \<noteq> seqOf ?h q" using old(2)[OF q] less[OF q] new by simp
      then have "keyIn ?h ?p \<noteq> keyIn ?h q" unfolding seqOf_def by (rule contrapos_nn) simp
      then show "timerLess (keyIn ?h ?p) (keyIn ?h q) \<or> timerLess (keyIn ?h q) (keyIn ?h ?p)"
        using timerLess_total by blast
    qed
    have inv': "timerInv [] ?s" using 2(2) by (simp add: timerInv_def)
    have c: "?i < ?i + 1" "unat (?i + 1) + n < 2 ^ 32"
      using inv numCreated_next[of ?i n] by (simp_all add: queueInv_def)
    have "inj_on (seqOf (tmHeap s)) (set (timers s))" using inv by (simp add: queueInv_def)
    then have "inj_on (seqOf ?h) (set (timers s))" using old(2) by (simp add: inj_on_def)
    moreover have "seqOf ?h ?p \<notin> seqOf ?h ` (set (timers s) - {?p})"
    proof
      assume "seqOf ?h ?p \<in> seqOf ?h ` (set (timers s) - {?p})"
      then obtain q where q: "seqOf ?h ?p = seqOf ?h q" "q \<in> set (timers s) - {?p}" by (rule imageE)
      then show False using old(2)[of q] less[of q] new by simp
    qed
    ultimately have "inj_on (seqOf ?h) (set ts)" unfolding set inj_on_insert by blast
    moreover have "seqOf ?h q < ?i + 1" if "q \<in> set ts" for q
    proof (cases "q = ?p")
      case True
      then show ?thesis using new c(1) by simp
    next
      case False
      then have "q \<in> set (timers s)" using that set by simp
      then show ?thesis using old(2)[of q] less[of q] less_trans[OF _ c(1)] by simp
    qed
    ultimately have "queueInv n ?s" using inv inv' c(2) by (simp add: queueInv_def)
    moreover have "entries ?s = (entries s)((?i, ?p) \<mapsto> (time, iv, cb))"
      using p by (intro ext) (auto simp: entries_def set entryOf_def split: option.splits)
    moreover have "entries s (?i, ?p) = None" using p by (simp add: entries_def)
    ultimately have "queueInv n ?s" "\<exists>h. entries s h = None \<and> entries ?s = (entries s)(h \<mapsto> (time, iv, cb))" by blast+
    moreover have "timerRun tok (Schedule cb time iv) s = Inr ?s" using 2(1) by (simp add: callE_def)
    ultimately show ?thesis using 2(6) by (intro disjI2 exI[of _ ?s]) (simp add: scheduleOf_def del: fun_upd_apply split_paired_Ex)
  qed
qed

lemma unschedule_step:
  fixes s :: "'t tlog"
  assumes inv: "queueInv (Suc n) s" and v: "entries s h \<noteq> None"
  shows "\<exists>s'. timerRun tok (Unschedule h) s = Inr s' \<and> queueInv n s' \<and>
    timerSpec (Unschedule h) (scheduleOf s) (scheduleOf s')"
proof -
  have i: "timerInv [] s" "\<not> timerWorking s" using inv by (simp_all add: queueInv_def)
  obtain i p where h: "h = (i, p)" by (cases h)
  have p: "p \<in> set (timers s)" "seqOf (tmHeap s) p = i" using v entries_iff[OF i(1)] h by auto
  let ?s = "s\<lparr>timers := remove1 p (timers s), tmHeap := (tmHeap s)(p := None)\<rparr>"
  note d = deleteTimer_ok[OF i(1) p(1)]
  have "distinct (timers s)" using i(1) by (simp add: timerInv_def)
  then have set: "set (remove1 p (timers s)) = set (timers s) - {p}" by simp
  have "queueInv n ?s" using inv d(2)
    by (auto simp: queueInv_def set inj_on_def seqOf_other)
  moreover have "entries ?s = (entries s)(h := None)"
  proof
    fix k show "entries ?s k = ((entries s)(h := None)) k"
      using p entries_iff[OF i(1), of k] h
      by (cases k) (auto simp: entries_def set seqOf_def keyIn_def split: option.splits)
  qed
  ultimately show ?thesis using d(1) i(2) h
    by (intro exI[of _ ?s]) (simp add: cancelInLoop_def ifElse_def scheduleOf_def)
qed

section \<open>Firing\<close>

lemma record_all: "block (map recordRun ts) s = Inr (s\<lparr>ranLog := ranLog s @ ts\<rparr>)"
  by (induction ts arbitrary: s) (simp_all add: recordRun_def upd_def)

lemma recordRun_callbackInv: "ensures (callbackInv X h) (recordRun t) (callbackInv X h)"
  by (simp add: ensures_def recordRun_def upd_def callbackInv_def timerInv_def)

lemma rearm_fields:
  fixes s :: "'t tlog"
  assumes "rearm s = Inr s'"
  shows "timers s' = timers s" "tmHeap s' = tmHeap s" "canceling s' = canceling s" "timerWorking s' = timerWorking s"
    "curTid s' = curTid s" "loopTid s' = loopTid s" "numCreated s' = numCreated s" "nextTimer s' = nextTimer s"
    "ranLog s' = ranLog s" "clock s' = clock s" "clockIx s \<le> clockIx s'"
  using assms by (auto simp: rearm_def resetTimerfd_eq split: if_splits prod.splits)

lemma rearm_fails: "rearm s = Inl e \<Longrightarrow> e = FatalLog"
  by (auto simp: rearm_def resetTimerfd_eq split: if_splits prod.splits)

text \<open>The timers that are due, as the specification describes them.\<close>

lemma due_exact:
  assumes "timerInv [] s" "\<forall>p \<in> set (timers s). seqOf (tmHeap s) p < numCreated s" "canceling s = []"
  shows "set (dueTimers s) = {p \<in> set (timers s). expirationOf p s \<le> fst (now s)}"
    "ordered timerLess (keyIn (tmHeap s)) (dueTimers s)" "distinct (dueTimers s)"
proof -
  let ?t0 = "fst (now s)"
  have X: "dueTimers s = before_bound timerLess (keyIn (tmHeap s)) (?t0, numCreated s) (timers s)"
    using assms(3) by (simp add: dueTimers_def cancelled_def)
  obtain E t where "getExpired ?t0 s = Inr (E, t)" "set E = {p \<in> set (timers s). expirationOf p s \<le> ?t0}"
    using getExpired_exact[OF assms(1), of ?t0] assms(2) by (auto simp: seqOf_def)
  then show "set (dueTimers s) = {p \<in> set (timers s). expirationOf p s \<le> ?t0}"
    using getExpired_ok(1)[OF assms(1), of ?t0] X by simp
  show o: "ordered timerLess (keyIn (tmHeap s)) (dueTimers s)"
    unfolding X by (rule ts.before_ordered) (use assms(1) in \<open>simp add: timerInv_def\<close>)
  then show "distinct (dueTimers s)" by (rule ts.ordered_distinct)
qed

lemma restart_id [simp]: "tm_id (restart t0 t) = tm_id t" "tm_cb (restart t0 t) = tm_cb t"
  "tm_interval (restart t0 t) = tm_interval t"
  by (simp_all add: restart_def)

text \<open>What the queue looks like after firing: \<open>s1\<close>, before the descriptor is set again.\<close>

lemma fire_state:
  fixes s :: "'t tlog"
  assumes inv: "queueInv (Suc n) s"
  obtains s1 where "TimerQueue_handleRead recordRun s = rearm s1" "queueInv n s1"
    "ranLog s1 = ranLog s @ map (\<lambda>p. tm_cb (the (tmHeap s p))) (dueTimers s)"
    "set (timers s1) = {p \<in> set (timers s). p \<in> set (dueTimers s) \<longrightarrow> repeat (the (tmHeap s p))}"
    "\<And>p. p \<in> set (timers s1) \<Longrightarrow> tmHeap s1 p =
       (if p \<in> set (dueTimers s) then map_option (restart (fst (now s))) (tmHeap s p) else tmHeap s p)"
    "clock s1 = clock s" "clockIx s < clockIx s1"
proof -
  let ?X = "dueTimers s" and ?t0 = "fst (now s)"
  have i: "timerInv [] s" "canceling s = []" "curTid s = loopTid s" "cancelled s = []" "pendingOk s"
    using inv by (simp_all add: queueInv_def cancelled_def pendingOk_def)
  obtain s0 sc s1 where r: "TimerQueue_handleRead recordRun s = rearm s1" "timerInv [] s1" "\<not> timerWorking s1"
    "?X @ timers s0 = filter (\<lambda>p. p \<notin> set (cancelled s)) (timers s)" "canceling s0 = []"
    "block (map (\<lambda>p. recordRun (tm_cb (the (tmHeap s p)))) ?X) s0 = Inr sc" "canceling s1 = canceling sc"
    "\<forall>p \<in> set ?X. \<forall>t. tmHeap s p = Some t \<longrightarrow> rescheduled ?t0 (canceling s1) p t s1"
    "timersOnly ?X (sc\<lparr>timerWorking := False\<rparr>) s1"
    "\<forall>q. tmHeap s0 q = (if q \<in> set (cancelled s) then None else tmHeap s q)" "numCreated s0 = numCreated s + 1"
    "curTid s0 = curTid s" "loopTid s0 = loopTid s" "timerq.more s0 = timerq.more s"
    "clock s0 = clock s" "clockIx s0 = Suc (clockIx s)"
    by (rule handleRead_ok[OF i(3,1,5) recordRun_callbackInv])
  let ?log = "map (\<lambda>p. tm_cb (the (tmHeap s p))) ?X"
  have sc: "sc = s0\<lparr>ranLog := ranLog s0 @ ?log\<rparr>" using r(6) record_all[of ?log s0] by (simp add: comp_def)
  have log0: "ranLog s0 = ranLog s" using r(14) by (cases s; cases s0) simp
  obtain h ts where d: "s1 = sc\<lparr>timerWorking := False, tmHeap := h, timers := ts\<rparr>"
    using r(9) by (auto simp: timersOnly_def timersDiffer_def)
  have can: "canceling s1 = []" using r(7) sc r(5) by simp
  have XR: "set (timers s) = set ?X \<union> set (timers s0)" "distinct (?X @ timers s0)"
    using r(4) i(1,4) by (simp_all add: timerInv_def flip: set_append)
  have other: "tmHeap s1 q = tmHeap s q" if "q \<notin> set ?X" for q
    using r(9) that r(10) i(4) sc by (simp add: timersOnly_def)
  have rest: "q \<in> set (timers s1) \<longleftrightarrow> q \<in> set (timers s)" if "q \<notin> set ?X" for q
    using r(9) that sc XR(1) by (auto simp: timersOnly_def)
  have due: "\<exists>t. tmHeap s p = Some t \<and> rescheduled ?t0 [] p t s1" if "p \<in> set ?X" for p
    using that r(8) i(1) XR(1) can by (force simp: timerInv_def)
  have same: "seqOf (tmHeap s1) q = seqOf (tmHeap s) q" if "q \<in> set (timers s1)" for q
  proof (cases "q \<in> set ?X")
    case True
    then show ?thesis using due[OF True] that by (auto simp: rescheduled_def seqOf_def split: if_splits)
  qed (use other in \<open>simp add: seqOf_def keyIn_def\<close>)
  have sub: "set (timers s1) \<subseteq> set (timers s)" using rest XR(1) by blast
  have inj: "inj_on (seqOf (tmHeap s)) (set (timers s))" using inv by (simp add: queueInv_def)
  have again: "p \<in> set (timers s1)" if p: "p \<in> set ?X" "tmHeap s p = Some t" "repeat t" for p t
  proof -
    obtain q where q: "q \<in> set (timers s1)" "keyIn (tmHeap s1) q = keyIn (tmHeap s1) p" "tmHeap s1 p = Some (restart ?t0 t)"
      using due[OF p(1)] p(2,3) by (auto simp: rescheduled_def kept_def)
    have "seqOf (tmHeap s) q = seqOf (tmHeap s) p" using same[OF q(1)] q(2,3) p(2) by (simp add: seqOf_def)
    moreover have "q \<in> set (timers s)" "p \<in> set (timers s)" using q(1) sub p(1) XR(1) by auto
    ultimately have "q = p" by (rule inj_onD[OF inj])
    with q(1) show ?thesis by simp
  qed
  have set: "set (timers s1) = {p \<in> set (timers s). p \<in> set ?X \<longrightarrow> repeat (the (tmHeap s p))}"
  proof (intro equalityI subsetI)
    fix p assume p: "p \<in> set (timers s1)"
    have "repeat (the (tmHeap s p))" if X: "p \<in> set ?X"
      using due[OF X] p by (auto simp: rescheduled_def kept_def split: if_splits)
    then show "p \<in> {p \<in> set (timers s). p \<in> set ?X \<longrightarrow> repeat (the (tmHeap s p))}" using p sub by auto
  next
    fix p assume p: "p \<in> {p \<in> set (timers s). p \<in> set ?X \<longrightarrow> repeat (the (tmHeap s p))}"
    show "p \<in> set (timers s1)"
    proof (cases "p \<in> set ?X")
      case True
      then show ?thesis using due[OF True] again p by auto
    qed (use rest p in auto)
  qed
  have heap: "tmHeap s1 p = (if p \<in> set ?X then map_option (restart ?t0) (tmHeap s p) else tmHeap s p)"
    if "p \<in> set (timers s1)" for p
  proof (cases "p \<in> set ?X")
    case True
    then show ?thesis using due[OF True] that by (auto simp: rescheduled_def split: if_splits)
  qed (use other in simp)
  have c: "numCreated s < numCreated s + 1" "unat (numCreated s + 1) + n < 2 ^ 32"
    using inv numCreated_next[of "numCreated s" n] by (simp_all add: queueInv_def)
  have "inj_on (seqOf (tmHeap s1)) (set (timers s1))" using inj_on_subset[OF inj sub] same by (simp add: inj_on_def)
  moreover have "seqOf (tmHeap s1) p < numCreated s + 1" if "p \<in> set (timers s1)" for p
  proof -
    have "seqOf (tmHeap s) p < numCreated s" using inv sub that by (auto simp: queueInv_def)
    then show ?thesis using same[OF that] less_trans[OF _ c(1)] by simp
  qed
  ultimately have "queueInv n s1"
    using r(2,3,11,12,13) can c(2) d sc i(3) by (simp add: queueInv_def)
  then show thesis by (rule that[OF r(1)]) (use d sc log0 set heap r(15,16) in simp_all)
qed

lemma fire_step:
  fixes s :: "'t tlog"
  assumes inv: "queueInv (Suc n) s"
  shows "timerRun tok Fire s = Inl FatalLog \<or> (\<exists>s'. timerRun tok Fire s = Inr s' \<and> queueInv n s' \<and>
    timerSpec Fire (scheduleOf s) (scheduleOf s'))"
proof -
  let ?X = "dueTimers s" and ?t0 = "fst (now s)" and ?k = "keyIn (tmHeap s)"
  have i: "timerInv [] s" "\<forall>p \<in> set (timers s). seqOf (tmHeap s) p < numCreated s" "canceling s = []"
    using inv by (simp_all add: queueInv_def)
  obtain s1 where s1: "TimerQueue_handleRead recordRun s = rearm s1" "queueInv n s1"
    "ranLog s1 = ranLog s @ map (\<lambda>p. tm_cb (the (tmHeap s p))) ?X"
    "set (timers s1) = {p \<in> set (timers s). p \<in> set ?X \<longrightarrow> repeat (the (tmHeap s p))}"
    "\<And>p. p \<in> set (timers s1) \<Longrightarrow> tmHeap s1 p =
       (if p \<in> set ?X then map_option (restart ?t0) (tmHeap s p) else tmHeap s p)"
    "clock s1 = clock s" "clockIx s < clockIx s1"
    by (rule fire_state[OF inv]) (rule that; assumption)
  have inv1: "timerInv [] s1" using s1(2) by (simp add: queueInv_def)
  note X = due_exact[OF i]
  have alive: "\<exists>t. tmHeap s p = Some t" if "p \<in> set (timers s)" for p using i(1) that by (auto simp: timerInv_def)
  have dueX: "p \<in> set ?X \<longleftrightarrow> tm_expire t \<le> ?t0" if "p \<in> set (timers s)" "tmHeap s p = Some t" for p t
    using that X(1) by (simp add: expirationOf_def)
  have entry: "entries s (seqOf (tmHeap s) p, p) = map_option entryOf (tmHeap s p)" if "p \<in> set (timers s)" for p
    using alive[OF that] that by (auto simp: entries_def seqOf_def)
  have new: "entries s1 h = Option.bind (entries s h) (afterFire ?t0)" for h
  proof (cases "entries s h")
    case None
    have "entries s1 h = None"
    proof (rule ccontr)
      assume "entries s1 h \<noteq> None"
      then have h: "snd h \<in> set (timers s1)" "seqOf (tmHeap s1) (snd h) = fst h" using entries_iff[OF inv1, of h] by auto
      then have "snd h \<in> set (timers s)" using s1(4) by simp
      moreover from this have "seqOf (tmHeap s) (snd h) = fst h"
        using h s1(5)[OF h(1)] alive[of "snd h"] by (auto simp: seqOf_def keyIn_def split: if_splits)
      ultimately show False using None entry[of "snd h"] alive[of "snd h"] by auto
    qed
    with None show ?thesis by simp
  next
    case (Some x)
    then obtain t where h: "snd h \<in> set (timers s)" "tmHeap s (snd h) = Some t" "tm_id t = fst h" "x = entryOf t"
      using entries_iff[OF i(1), of h x] by (auto simp: seqOf_def)
    show ?thesis
    proof (cases "snd h \<in> set ?X")
      case True
      then have le: "tm_expire t \<le> ?t0" using dueX[OF h(1,2)] by simp
      show ?thesis
      proof (cases "repeat t")
        case True
        then have "snd h \<in> set (timers s1)" using s1(4) h by simp
        then show ?thesis using s1(5)[of "snd h"] Some h True \<open>snd h \<in> set ?X\<close> le
          by (simp add: entries_def afterFire_def entryOf_def repeat_def restart_def)
      next
        case False
        then have "snd h \<notin> set (timers s1)" using s1(4) h \<open>snd h \<in> set ?X\<close> by simp
        then have "entries s1 h = None" by (simp add: entries_def split: option.split)
        then show ?thesis using Some h False le by (simp add: afterFire_def entryOf_def repeat_def)
      qed
    next
      case False
      then have "snd h \<in> set (timers s1)" "\<not> tm_expire t \<le> ?t0" using s1(4) h dueX[OF h(1,2)] by simp_all
      then show ?thesis using s1(5)[of "snd h"] Some h False by (simp add: entries_def afterFire_def entryOf_def)
    qed
  qed
  let ?due = "map (\<lambda>p. (seqOf (tmHeap s) p, p)) ?X"
  have sub: "p \<in> set (timers s)" if "p \<in> set ?X" for p using that X(1) by simp
  have due1: "distinct ?due" using X(3) by (simp add: distinct_map inj_on_def)
  have due2: "set ?due = {h. \<exists>e iv cb. entries s h = Some (e, iv, cb) \<and> e \<le> ?t0}"
  proof (intro equalityI subsetI)
    fix h assume "h \<in> set ?due"
    then obtain p where p: "p \<in> set ?X" "h = (seqOf (tmHeap s) p, p)" by auto
    obtain t where "tmHeap s p = Some t" using alive[OF sub[OF p(1)]] by blast
    then show "h \<in> {h. \<exists>e iv cb. entries s h = Some (e, iv, cb) \<and> e \<le> ?t0}"
      using entry[OF sub[OF p(1)]] dueX[OF sub[OF p(1)]] p by (auto simp: entryOf_def)
  next
    fix h assume "h \<in> {h. \<exists>e iv cb. entries s h = Some (e, iv, cb) \<and> e \<le> ?t0}"
    then obtain t where t: "snd h \<in> set (timers s)" "tmHeap s (snd h) = Some t" "tm_id t = fst h" "tm_expire t \<le> ?t0"
      using entries_iff[OF i(1), of h] by (auto simp: entryOf_def seqOf_def)
    then have "snd h \<in> set ?X" "h = (seqOf (tmHeap s) (snd h), snd h)"
      using dueX[OF t(1,2)] by (simp_all add: seqOf_def prod_eq_iff)
    then show "h \<in> set ?due" by auto
  qed
  have due3: "sorted_wrt (dueBefore (entries s) fst) ?due"
    unfolding sorted_wrt_map
  proof (rule sorted_wrt_mono_rel[OF _ X(2)[unfolded ordered_def]])
    fix p q assume p: "p \<in> set ?X" "q \<in> set ?X" "timerLess (?k p) (?k q)"
    have "(fst (the (entries s (seqOf (tmHeap s) x, x))), seqOf (tmHeap s) x) = ?k x" if "x \<in> set ?X" for x
      using alive[OF sub[OF that]] entry[OF sub[OF that]] by (auto simp: entryOf_def seqOf_def)
    then show "dueBefore (entries s) fst (seqOf (tmHeap s) p, p) (seqOf (tmHeap s) q, q)"
      using p by (simp add: dueBefore_def)
  qed
  have cb: "snd (snd (the (entries s (seqOf (tmHeap s) p, p)))) = tm_cb (the (tmHeap s p))" if "p \<in> set ?X" for p
    using alive[OF sub[OF that]] entry[OF sub[OF that]] by (auto simp: entryOf_def)
  have called: "map (\<lambda>h. snd (snd (the (entries s h)))) ?due = map (\<lambda>p. tm_cb (the (tmHeap s p))) ?X"
    using cb by simp
  show ?thesis
  proof (cases "rearm s1")
    case (Inl e)
    then show ?thesis using s1(1) rearm_fails by auto
  next
    case (Inr s')
    note f = rearm_fields[OF Inr]
    have "queueInv n s'" using s1(2) f by (simp add: queueInv_def timerInv_def)
    moreover have "entries s' = entries s1" unfolding entries_def f(1,2) by (rule refl)
    ultimately show ?thesis using s1(1) Inr f(9) s1(3) due1 due2 due3 called new
      s1(6,7) f(10,11) scheduleOf_time[of s]
      by (intro disjI2 exI[of _ s']) (auto simp: scheduleOf_def fun_eq_iff intro!: exI[of _ ?due])
  qed
qed

section \<open>The refinement\<close>

interpretation tq: refinement queueInv scheduleOf timerValid "timerRun tok" timerSpec for tok :: "nat \<Rightarrow> 't"
proof
  fix n s and op :: "'t timerOp"
  assume a: "queueInv (Suc n) s" "timerValid op (scheduleOf s)"
  show "timerRun tok op s = Inl FatalLog \<or> (\<exists>s'. timerRun tok op s = Inr s' \<and> queueInv n s' \<and>
    timerSpec op (scheduleOf s) (scheduleOf s'))"
  proof (cases op)
    case (Schedule cb time iv)
    then show ?thesis using schedule_step[OF a(1)] by blast
  next
    case (Unschedule h)
    then show ?thesis using unschedule_step[OF a(1), of h tok] a(2) by (simp add: scheduleOf_def)
  next
    case Fire
    then show ?thesis using fire_step[OF a(1)] by blast
  qed
qed

text \<open>
  C6. The timer queue implements a schedule. Whatever sequence of operations its loop makes
  (scheduling a callback for a time, once or repeating; cancelling a timer that is still in the queue; the
  descriptor's readiness), and whatever the kernel and the clock answer, the run either ends in the fatal exit
  for a descriptor that cannot be set, or completes and did to the table of handles what the schedule's
  operations do: adding gives a handle that was free; cancelling removes that entry and no other;
  firing calls exactly the due callbacks, each once, ordered by time and then by handle, moves the repeating
  ones to the clock reading plus their interval, drops the others, and leaves the entries that are not due as
  they were. The sequence counter must not wrap around within the run.
\<close>

theorem timer_queue_refines:
  assumes "queueInv (length ops) s" and "conRun timerValid scheduleOf (timerRun tok) ops s r"
  shows "r = Inl FatalLog \<or> (\<exists>s'. r = Inr s' \<and> queueInv 0 s' \<and> absRun timerSpec ops (scheduleOf s) (scheduleOf s'))"
  using assms by (rule tq.run_refines)

text \<open>Two one-shot timers, both due; the first is cancelled before the descriptor fires.\<close>

definition twoTimers :: "demoCb tlog" where
  "twoTimers = timerq.extend (demoTimerq (\<lambda>_. okAns) [1 \<mapsto> demoTimer (Say INFO) 100 0 0,
     2 \<mapsto> demoTimer (Say WARN) 200 0 1] [1, 2]) \<lparr>ranLog = []\<rparr>"

lemmas twoTimers_defs = twoTimers_def timerq.defs demoTimerq_defs demoTimer_def kMicroSecondsPerSecond_def

definition oneTimer :: "demoCb tlog" where
  "oneTimer = twoTimers\<lparr>timers := [2], tmHeap := (tmHeap twoTimers)(1 := None)\<rparr>"

lemma twoTimers_inv: "queueInv 2 twoTimers" "queueInv 1 oneTimer"
  by (auto simp: queueInv_def twoTimers_defs oneTimer_def timerInv_def seqOf_def keyIn_def ordered_def timerLess_def
      split: if_splits)

lemma twoTimers_unschedule: "timerRun tok (Unschedule (0, 1)) twoTimers = Inr oneTimer"
proof -
  have "timerInv [] twoTimers" "1 \<in> set (timers twoTimers)"
    using twoTimers_inv(1) by (simp_all add: queueInv_def twoTimers_defs)
  then show ?thesis using deleteTimer_ok(1)[of "[]" twoTimers 1]
    by (simp add: cancelInLoop_def ifElse_def oneTimer_def) (simp add: twoTimers_defs)
qed

lemma oneTimer_fires: "\<exists>s'. timerRun tok Fire oneTimer = Inr s' \<and> timers s' = []"
proof -
  have d: "dueTimers oneTimer = [2]"
    by (simp add: dueTimers_def cancelled_def now_def before_bound_def timerLess_def keyIn_def oneTimer_def twoTimers_defs)
  have "queueInv (Suc 0) oneTimer" using twoTimers_inv(2) by simp
  then obtain s1 where s1: "TimerQueue_handleRead recordRun oneTimer = rearm s1"
    "set (timers s1) = {p \<in> set (timers oneTimer). p \<in> set (dueTimers oneTimer) \<longrightarrow> repeat (the (tmHeap oneTimer p))}"
    by (rule fire_state) (rule that; assumption)
  have one: "timers oneTimer = [2]" "\<not> repeat (the (tmHeap oneTimer 2))"
    by (simp_all add: oneTimer_def twoTimers_defs repeat_def)
  have "set (timers s1) = {}" unfolding s1(2) d one(1) using one(2) by auto
  then show ?thesis using s1(1) by (simp add: rearm_def)
qed

theorem timer_queue_refines_witness:
  "\<exists>s'. conRun timerValid scheduleOf (timerRun (\<lambda>_. Say FATAL)) [Unschedule (0, 1), Fire] twoTimers (Inr s') \<and>
     ranLog s' = [Say WARN]"
proof -
  let ?ops = "[Unschedule (0, 1), Fire] :: demoCb timerOp list" and ?run = "timerRun (\<lambda>_. Say FATAL)"
  obtain s' where s': "?run Fire oneTimer = Inr s'" using oneTimer_fires by blast
  have v: "timerValid (Unschedule (0, 1)) (scheduleOf twoTimers)"
    by (simp add: scheduleOf_def entries_def twoTimers_defs)
  have run: "conRun timerValid scheduleOf ?run ?ops twoTimers (Inr s')"
  proof (rule conRun.step)
    show "conRun timerValid scheduleOf ?run [Fire] oneTimer (Inr s')"
      by (rule conRun.step[where run = ?run, OF _ s' conRun.nil]) simp
  qed (rule v twoTimers_unschedule)+
  have "absRun timerSpec ?ops (scheduleOf twoTimers) (scheduleOf s')"
    using timer_queue_refines[OF _ run] twoTimers_inv(1) by (simp add: numeral_2_eq_2)
  then obtain S where S: "timerSpec (Unschedule (0, 1)) (scheduleOf twoTimers) S" "timerSpec Fire S (scheduleOf s')"
    by (elim absRun_ConsE absRun_NilE) (rule that, assumption, simp only:)
  have S': "sc_called S = []" "sc_time S = 1000000" "sc_entries S = (entries twoTimers)((0, 1) := None)"
    using S(1) scheduleOf_time[of twoTimers]
    by (simp_all add: scheduleOf_def sc_time_def now_def twoTimers_defs)
  have e: "sc_entries S h = (if h = (1, 2) then Some (200, Dbl 0 0, Say WARN) else None)" for h
    unfolding S'(3) by (cases h) (auto simp: entries_def entryOf_def twoTimers_defs split: option.splits)
  obtain due where due: "distinct due" "set due = {(1, 2)}"
    "ranLog s' = map (\<lambda>h. snd (snd (the (sc_entries S h)))) due"
    using S(2) unfolding timerSpec.simps S'(1,2) e by (auto simp: scheduleOf_def split: if_splits)
  then have "due = [(1, 2)]" by (cases due) (auto dest: subset_singletonD)
  then show ?thesis using due(3) run e by auto
qed

end
