(* ===== verification/ServerRun.thy ===== *)
theory ServerRun
  imports ConnFrame Examples Refinement
begin

text \<open>
  A server on one loop, over its whole life: TcpServer.cpp with the TcpConnection.cpp of all its
  connections. To its user the server is a set of open connections that accepting adds to and closing removes
  from; the theory proves that the code keeps that set, with everything that hangs on it, through any
  sequence of events and tasks, and never fails.
\<close>

section \<open>The set of connections\<close>

text \<open>The open connections with their descriptors, the closed ones, and the descriptors being watched.\<close>

record netView =
  n_open :: "nat \<Rightarrow> int option"
  n_gone :: "nat set"
  n_busy :: "int set"

definition known :: "netView \<Rightarrow> nat set" where
  "known A = dom (n_open A) \<union> n_gone A"

definition closeOne :: "nat \<Rightarrow> netView \<Rightarrow> netView" where
  "closeOne c A = A\<lparr>n_open := (n_open A)(c := None), n_gone := insert c (n_gone A),
     n_busy := n_busy A - {the (n_open A c)}\<rparr>"

text \<open>Some of the open connections are closed, one after the other.\<close>

inductive closes :: "netView \<Rightarrow> netView \<Rightarrow> bool" where
  none: "closes A A"
| one: "c \<in> dom (n_open A) \<Longrightarrow> closes (closeOne c A) B \<Longrightarrow> closes A B"

lemma closes_trans: "closes A B \<Longrightarrow> closes B C \<Longrightarrow> closes A C"
  by (induction rule: closes.induct) (auto intro: closes.one)

lemma known_closeOne: "c \<in> dom (n_open A) \<Longrightarrow> known (closeOne c A) = known A"
  by (auto simp: known_def closeOne_def)

lemma closes_known: "closes A B \<Longrightarrow> known B = known A \<and> n_gone A \<subseteq> n_gone B"
  by (induction rule: closes.induct) (auto simp: known_closeOne, auto simp: closeOne_def)

section \<open>The invariant of the server\<close>

text \<open>What the server is set up with: its callbacks, and the tasks its user may queue for a connection.\<close>

record 't service =
  v_onConn :: "nat \<Rightarrow> bool \<Rightarrow> 't"
  v_onMsg :: "(nat \<Rightarrow> 't) option"
  v_onWrite :: "(nat \<Rightarrow> 't) option"
  v_user :: "nat \<Rightarrow> 't set"

definition served :: "'t service \<Rightarrow> 't serverTasks \<Rightarrow> nat \<Rightarrow> 't conn \<Rightarrow> bool" where
  "served V K c k \<longleftrightarrow> k_onConn k = Some (v_onConn V) \<and> k_onMsg k = v_onMsg V \<and> k_onWrite k = v_onWrite V \<and>
     k_onClose k = Some (st_remove K) \<and> (\<forall>w. v_onWrite V = Some w \<longrightarrow> w c \<in> v_user V c)"

text \<open>The tasks that can be in the queue when the set of connections is \<open>A\<close>.\<close>

definition taskOk :: "'t service \<Rightarrow> 't serverTasks \<Rightarrow> netView \<Rightarrow> 't \<Rightarrow> bool" where
  "taskOk V K A t \<longleftrightarrow> (\<exists>c \<in> known A. t \<in> v_user V c \<or> t = st_destroyed K c \<and> c \<in> n_gone A)"

definition viewOf :: "('t, 'z) conns_scheme \<Rightarrow> netView" where
  "viewOf s = \<lparr>n_open = (\<lambda>c. case connHeap s c of None \<Rightarrow> None
       | Some k \<Rightarrow> if k_status k = Disconnected then None else Some (k_sock k)),
     n_gone = {c. \<exists>k. connHeap s c = Some k \<and> k_status k = Disconnected},
     n_busy = {fd. \<exists>i ch. chans s i = Some ch \<and> c_added ch \<and> c_fd ch = fd}\<rparr>"

text \<open>
  \<open>X\<close>: the connections that are closing: disconnected, and still in the server's set while their callback runs.
  The channel of a closed connection is idle; an open connection is \<open>connUp\<close>.
\<close>

definition connOk :: "'t service \<Rightarrow> 't serverTasks \<Rightarrow> nat \<Rightarrow> 't conn \<Rightarrow> ('t, 'z) conns_scheme \<Rightarrow> bool" where
  "connOk V K c k s \<longleftrightarrow> served V K c k \<and>
     (if k_status k = Disconnected then \<exists>ch. chans s (k_chan k) = Some ch \<and> \<not> c_added ch else connUp c (k_sock k) s)"

definition serverInv :: "'t service \<Rightarrow> 't serverTasks \<Rightarrow> nat set \<Rightarrow> ('t, 'z) server_scheme \<Rightarrow> bool" where
  "serverInv V K X s \<longleftrightarrow> pollSynced s \<and> curTid s = loopTid s \<and>
     p_loops (sv_pool s) = [] \<and> sv_onConn s = Some (v_onConn V) \<and> sv_onMsg s = v_onMsg V \<and> sv_onWrite s = v_onWrite V \<and>
     distinct (sv_conns s) \<and> set (sv_conns s) = dom (n_open (viewOf s)) \<union> X \<and> X \<subseteq> n_gone (viewOf s) \<and>
     (\<forall>i ch. chans s i = Some ch \<longrightarrow> i < nextChan s) \<and> (\<forall>c \<in> known (viewOf s). c < nextConn s) \<and>
     (\<forall>c d k l. connHeap s c = Some k \<longrightarrow> connHeap s d = Some l \<longrightarrow> k_chan k = k_chan l \<longrightarrow> c = d) \<and>
     (\<forall>c k. connHeap s c = Some k \<longrightarrow> connOk V K c k s \<and> sv_owner s c = p_base (sv_pool s)) \<and>
     (\<forall>t \<in> set (tasks s). taskOk V K (viewOf s) t)"

lemma known_view: "c \<in> known (viewOf s) \<longleftrightarrow> connHeap s c \<noteq> None"
  by (auto simp: known_def viewOf_def split: option.splits if_splits)

lemma open_view: "n_open (viewOf s) c = Some fd \<longleftrightarrow>
    (\<exists>k. connHeap s c = Some k \<and> k_status k \<noteq> Disconnected \<and> k_sock k = fd)"
  by (auto simp: viewOf_def split: option.splits)

lemma gone_view: "c \<in> n_gone (viewOf s) \<longleftrightarrow> (\<exists>k. connHeap s c = Some k \<and> k_status k = Disconnected)"
  by (simp add: viewOf_def)

lemma taskOk_closes: "taskOk V K A t \<Longrightarrow> closes A B \<Longrightarrow> taskOk V K B t"
  using closes_known[of A B] by (auto simp: taskOk_def)

lemma serverInvD:
  assumes "serverInv V K X s"
  shows "pollSynced s" "curTid s = loopTid s" "p_loops (sv_pool s) = []" "sv_onConn s = Some (v_onConn V)"
    "sv_onMsg s = v_onMsg V" "sv_onWrite s = v_onWrite V" "distinct (sv_conns s)"
    "set (sv_conns s) = dom (n_open (viewOf s)) \<union> X" "X \<subseteq> n_gone (viewOf s)"
    "\<And>i ch. chans s i = Some ch \<Longrightarrow> i < nextChan s" "\<And>c. c \<in> known (viewOf s) \<Longrightarrow> c < nextConn s"
    "\<And>c d k l. connHeap s c = Some k \<Longrightarrow> connHeap s d = Some l \<Longrightarrow> k_chan k = k_chan l \<Longrightarrow> c = d"
    "\<And>c k. connHeap s c = Some k \<Longrightarrow> connOk V K c k s" "\<And>c k. connHeap s c = Some k \<Longrightarrow> sv_owner s c = p_base (sv_pool s)"
    "\<And>t. t \<in> set (tasks s) \<Longrightarrow> taskOk V K (viewOf s) t"
proof -
  note * = assms[unfolded serverInv_def]
  show "pollSynced s" "curTid s = loopTid s" "p_loops (sv_pool s) = []" "sv_onConn s = Some (v_onConn V)"
    "sv_onMsg s = v_onMsg V" "sv_onWrite s = v_onWrite V" "distinct (sv_conns s)"
    "set (sv_conns s) = dom (n_open (viewOf s)) \<union> X" "X \<subseteq> n_gone (viewOf s)"
    by (insert *, elim conjE, assumption)+
  have a: "\<forall>i ch. chans s i = Some ch \<longrightarrow> i < nextChan s" "\<forall>c \<in> known (viewOf s). c < nextConn s"
    "\<forall>c d k l. connHeap s c = Some k \<longrightarrow> connHeap s d = Some l \<longrightarrow> k_chan k = k_chan l \<longrightarrow> c = d"
    "\<forall>c k. connHeap s c = Some k \<longrightarrow> connOk V K c k s \<and> sv_owner s c = p_base (sv_pool s)"
    "\<forall>t \<in> set (tasks s). taskOk V K (viewOf s) t"
    by (insert *, elim conjE, assumption)+
  show "\<And>i ch. chans s i = Some ch \<Longrightarrow> i < nextChan s" using a(1) by blast
  show "\<And>c. c \<in> known (viewOf s) \<Longrightarrow> c < nextConn s" using a(2) by blast
  show "\<And>c d k l. connHeap s c = Some k \<Longrightarrow> connHeap s d = Some l \<Longrightarrow> k_chan k = k_chan l \<Longrightarrow> c = d" using a(3) by blast
  show "\<And>c k. connHeap s c = Some k \<Longrightarrow> connOk V K c k s" "\<And>c k. connHeap s c = Some k \<Longrightarrow> sv_owner s c = p_base (sv_pool s)"
    using a(4) by blast+
  show "\<And>t. t \<in> set (tasks s) \<Longrightarrow> taskOk V K (viewOf s) t" using a(5) by blast
qed

lemma serverInv_up:
  assumes "serverInv V K X s" "c \<in> dom (n_open (viewOf s))"
  obtains k where "connHeap s c = Some k" "served V K c k" "k_status k \<noteq> Disconnected" "connUp c (k_sock k) s"
    "n_open (viewOf s) c = Some (k_sock k)"
proof -
  obtain fd where fd: "n_open (viewOf s) c = Some fd" using assms(2) by blast
  then obtain k where k: "connHeap s c = Some k" "k_status k \<noteq> Disconnected" "k_sock k = fd" using open_view[of s c fd] by blast
  have "connOk V K c k s" by (rule serverInvD(13)[OF assms(1) k(1)])
  then show thesis using that[OF k(1)] k fd by (simp add: connOk_def)
qed

lemma serverInvI:
  assumes "pollSynced s" "curTid s = loopTid s" "p_loops (sv_pool s) = []" "sv_onConn s = Some (v_onConn V)"
    "sv_onMsg s = v_onMsg V" "sv_onWrite s = v_onWrite V" "distinct (sv_conns s)"
    "set (sv_conns s) = dom (n_open (viewOf s)) \<union> X" "X \<subseteq> n_gone (viewOf s)"
    "\<And>i ch. chans s i = Some ch \<Longrightarrow> i < nextChan s" "\<And>c. c \<in> known (viewOf s) \<Longrightarrow> c < nextConn s"
    "\<And>c d k l. connHeap s c = Some k \<Longrightarrow> connHeap s d = Some l \<Longrightarrow> k_chan k = k_chan l \<Longrightarrow> c = d"
    "\<And>c k. connHeap s c = Some k \<Longrightarrow> connOk V K c k s" "\<And>c k. connHeap s c = Some k \<Longrightarrow> sv_owner s c = p_base (sv_pool s)"
    "\<And>t. t \<in> set (tasks s) \<Longrightarrow> taskOk V K (viewOf s) t"
  shows "serverInv V K X s"
  unfolding serverInv_def by (intro conjI allI impI ballI; (rule assms; assumption)?)

section \<open>One connection works, the others stay\<close>

lemma server_more:
  fixes s t :: "('t, 'z) server_scheme"
  assumes "conns.more t = conns.more s"
  shows "sv_pool t = sv_pool s" "sv_onConn t = sv_onConn s" "sv_onMsg t = sv_onMsg s" "sv_onWrite t = sv_onWrite s"
    "sv_conns t = sv_conns s" "sv_owner t = sv_owner s"
  using assms by (cases s; cases t; simp)+

lemma connOk_other:
  assumes "connOk V K d l s" "connHeap s d = Some l" "connHeap t d = Some l" "chans t (k_chan l) = chans s (k_chan l)" "pollSynced t"
    "curTid t = loopTid t"
  shows "connOk V K d l t"
  using assms by (auto simp: connOk_def connUp_def)

lemma alone_inv:
  fixes s t :: "('t, 'z) server_scheme"
  assumes inv: "serverInv V K X s" and al: "alone (v_user V c) c s t" and sy: "pollSynced t"
    and kt: "connHeap t c = Some k" "connOk V K c k t"
    and set: "set (sv_conns s) = dom (n_open (viewOf t)) \<union> Y" "Y \<subseteq> n_gone (viewOf t)" and gone: "n_gone (viewOf s) \<subseteq> n_gone (viewOf t)"
  shows "serverInv V K Y t"
proof -
  note i = serverInvD[OF inv]
  obtain k0 k' ch0 ch where a: "connHeap s c = Some k0" "sameConn k0 k'" "connHeap t = (connHeap s)(c \<mapsto> k')"
    "chans s (k_chan k0) = Some ch0" "chans t = (chans s)(k_chan k0 \<mapsto> ch)" "c_fd ch = c_fd ch0"
    "nextConn t = nextConn s" "nextChan t = nextChan s" "curTid t = curTid s"
    "loopTid t = loopTid s" "conns.more t = conns.more s" "set (tasks t) \<subseteq> set (tasks s) \<union> v_user V c"
    by (rule aloneE[OF al]) blast
  note m = server_more[OF a(11)]
  have kk: "k' = k" "k_chan k = k_chan k0" using a(2,3) kt(1) by (auto simp: sameConn_def)
  have kn: "known (viewOf t) = known (viewOf s)" using known_view[of _ t] known_view[of _ s] a(1,3)
    by (intro set_eqI) (simp split: if_splits)
  have old: "connHeap s d = Some l" "k_chan l \<noteq> k_chan k0" if "connHeap t d = Some l" "d \<noteq> c" for d l
    using that a(1,3) i(12)[of d l c k0] by auto
  have ok: "connOk V K d l t" if "connHeap t d = Some l" for d l
  proof (cases "d = c")
    case True
    then show ?thesis using that kt by simp
  next
    case False
    note o = old[OF that False]
    show ?thesis by (rule connOk_other[OF i(13)[OF o(1)] o(1) that _ sy]) (use o(2) a(5,9,10) i(2) in simp_all)
  qed
  show ?thesis
  proof (rule serverInvI)
    show "connHeap t d = Some l \<Longrightarrow> connHeap t e = Some l' \<Longrightarrow> k_chan l = k_chan l' \<Longrightarrow> d = e" for d e l l'
      using old[of d l] old[of e l'] kk kt(1) i(12)[of d l e l'] by (cases "d = c"; cases "e = c") auto
    show "taskOk V K (viewOf t) x" if x: "x \<in> set (tasks t)" for x
    proof (cases "x \<in> set (tasks s)")
      case True
      then show ?thesis using i(15) kn gone by (fastforce simp: taskOk_def)
    next
      case False
      then have "x \<in> v_user V c" using a(12) x by blast
      moreover have "c \<in> known (viewOf t)" using kt(1) known_view by blast
      ultimately show ?thesis by (auto simp: taskOk_def)
    qed
    show "chans t j = Some x \<Longrightarrow> j < nextChan t" for j x using i(10) a(4,5,8) by (auto split: if_splits)
    show "connHeap t d = Some l \<Longrightarrow> sv_owner t d = p_base (sv_pool t)" for d l
      using i(14) m a(1,3) by (cases "d = c") auto
  qed (use sy i(1-7,11) m set kn ok a(7,9,10) in simp_all)
qed

lemma netView_eqI:
  "n_open A = n_open B \<Longrightarrow> n_gone A = n_gone B \<Longrightarrow> n_busy A = n_busy B \<Longrightarrow> A = (B :: netView)"
  by (cases A; cases B) simp

lemma busy_view: "fd \<in> n_busy (viewOf s) \<longleftrightarrow> (\<exists>i ch. chans s i = Some ch \<and> c_added ch \<and> c_fd ch = fd)"
  by (simp add: viewOf_def)

text \<open>Work that leaves the connection open leaves the set of connections as it was.\<close>

lemma works_open:
  fixes s t :: "('t, 'z) server_scheme"
  assumes inv: "serverInv V K X s" and c: "n_open (viewOf s) c = Some fd" and al: "alone (v_user V c) c s t"
    and up: "connUp c fd t"
  shows "serverInv V K X t" "viewOf t = viewOf s"
proof -
  note i = serverInvD[OF inv]
  obtain k0 where k0: "connHeap s c = Some k0" "served V K c k0" "k_status k0 \<noteq> Disconnected" "connUp c fd s" "k_sock k0 = fd"
    using serverInv_up[OF inv, of c] c by auto
  obtain k' ch0 ch where a: "sameConn k0 k'" "connHeap t = (connHeap s)(c \<mapsto> k')"
    "chans s (k_chan k0) = Some ch0" "chans t = (chans s)(k_chan k0 \<mapsto> ch)" "c_fd ch = c_fd ch0" "conns.more t = conns.more s"
    by (rule aloneE[OF al]) (use k0(1) in auto)
  have ch0: "c_added ch0" "c_fd ch0 = fd" using k0(1,4) a(3) by (auto simp: connUp_def)
  have k': "connHeap t c = Some k'" "k_status k' \<noteq> Disconnected" "k_sock k' = fd" "k_chan k' = k_chan k0" "c_added ch" "pollSynced t"
    using up a by (auto simp: connUp_def sameConn_def)
  have busy: "n_busy (viewOf t) = n_busy (viewOf s)"
  proof (intro set_eqI iffI)
    fix x assume "x \<in> n_busy (viewOf t)"
    then obtain i y where "chans t i = Some y" "c_added y" "c_fd y = x" by (auto simp: busy_view)
    then show "x \<in> n_busy (viewOf s)" using a(3-5) ch0 by (cases "i = k_chan k0") (auto simp: busy_view)
  next
    fix x assume "x \<in> n_busy (viewOf s)"
    then obtain i y where "chans s i = Some y" "c_added y" "c_fd y = x" by (auto simp: busy_view)
    then show "x \<in> n_busy (viewOf t)" using a(3-5) k'(5)
      by (cases "i = k_chan k0") (auto simp: busy_view intro: exI[of _ "k_chan k0"])
  qed
  show v: "viewOf t = viewOf s"
  proof (rule netView_eqI)
    show "n_open (viewOf t) = n_open (viewOf s)"
      using k' k0(1,3,5) a(2) by (intro ext) (simp add: viewOf_def)
    show "n_gone (viewOf t) = n_gone (viewOf s)" using k' k0(1,3) a(2) by (auto simp: viewOf_def)
  qed (rule busy)
  have "connOk V K c k' t" using k'(2,3) up k0(2) a(1) by (simp add: connOk_def served_def sameConn_def)
  then show "serverInv V K X t"
    by (rule alone_inv[OF inv al k'(6,1)]) (use v i(8,9) in simp_all)
qed

text \<open>Closing one: it is in the server's set until its callbacks have run.\<close>

lemma works_closed:
  fixes s t :: "('t, 'z) server_scheme"
  assumes inv: "serverInv V K X s" and c: "n_open (viewOf s) c = Some fd" and al: "alone (v_user V c) c s t"
    and sy: "pollSynced t" and kt: "connHeap t c = Some k" "k_status k = Disconnected" "chans t (k_chan k) = Some ch" "\<not> c_added ch"
  shows "serverInv V K (insert c X) t" "viewOf t = closeOne c (viewOf s)"
proof -
  note i = serverInvD[OF inv]
  obtain k0 where k0: "connHeap s c = Some k0" "served V K c k0" "k_status k0 \<noteq> Disconnected" "connUp c fd s" "k_sock k0 = fd"
    using serverInv_up[OF inv, of c] c by auto
  obtain ch0 where a: "sameConn k0 k" "connHeap t = (connHeap s)(c \<mapsto> k)" "k_chan k = k_chan k0"
    "chans s (k_chan k0) = Some ch0" "chans t = (chans s)(k_chan k0 \<mapsto> ch)" "conns.more t = conns.more s"
    by (rule aloneE[OF al]) (use k0(1) kt in \<open>auto simp: sameConn_def\<close>)
  have ch0: "c_added ch0" "c_fd ch0 = fd" using k0(1,4) a(4) by (auto simp: connUp_def)
  have sole: "j = k_chan k0" if "chans s j = Some y" "c_added y" "c_fd y = fd" for j y
  proof -
    have "interest (trace s) (c_fd x) = Some (c_events x, l)" if "chans s l = Some x" "c_added x" for l x
      using i(1) that by (simp add: pollSynced_def)
    from this[OF that(1,2)] this[OF a(4) ch0(1)] show ?thesis using that(3) ch0(2) by simp
  qed
  have busy: "n_busy (viewOf t) = n_busy (viewOf s) - {fd}"
  proof (intro set_eqI iffI)
    fix x assume "x \<in> n_busy (viewOf t)"
    then obtain j y where "chans t j = Some y" "c_added y" "c_fd y = x" by (auto simp: busy_view)
    then show "x \<in> n_busy (viewOf s) - {fd}" using a(5) kt(4) sole by (cases "j = k_chan k0") (auto simp: busy_view)
  next
    fix x assume "x \<in> n_busy (viewOf s) - {fd}"
    then obtain j y where "chans s j = Some y" "c_added y" "c_fd y = x" "x \<noteq> fd" by (auto simp: busy_view)
    then show "x \<in> n_busy (viewOf t)" using a(4,5) ch0 by (cases "j = k_chan k0") (auto simp: busy_view)
  qed
  show v: "viewOf t = closeOne c (viewOf s)"
  proof (rule netView_eqI)
    show "n_open (viewOf t) = n_open (closeOne c (viewOf s))"
      using kt(2) a(2) by (intro ext) (simp add: viewOf_def closeOne_def)
    show "n_gone (viewOf t) = n_gone (closeOne c (viewOf s))" using kt(2) a(2) by (auto simp: viewOf_def closeOne_def)
    show "n_busy (viewOf t) = n_busy (closeOne c (viewOf s))" using busy c by (simp add: closeOne_def)
  qed
  have "connOk V K c k t" using kt(2-4) k0(2) a(1) by (simp add: connOk_def served_def sameConn_def)
  moreover have "set (sv_conns s) = dom (n_open (viewOf t)) \<union> insert c X" using i(8) v c by (auto simp: closeOne_def)
  moreover have "insert c X \<subseteq> n_gone (viewOf t)" "n_gone (viewOf s) \<subseteq> n_gone (viewOf t)" using i(9) v by (auto simp: closeOne_def)
  ultimately show "serverInv V K (insert c X) t" by (rule alone_inv[OF inv al sy kt(1)])
qed

section \<open>The operations\<close>

lemma serverInv_ioStep:
  fixes s t :: "('t, 'z) server_scheme"
  assumes inv: "serverInv V K X s" and io: "ioStep s t" and ok: "\<And>x. x \<in> set (tasks t) \<Longrightarrow> taskOk V K (viewOf s) x"
  shows "serverInv V K X t" "viewOf t = viewOf s"
proof -
  note i = serverInvD[OF inv] and f = ioStep_frame[OF io] server_ioStep[OF io]
  show v: "viewOf t = viewOf s" using f by (simp add: viewOf_def)
  show "serverInv V K X t"
  proof (rule serverInvI)
    show "connHeap t c = Some k \<Longrightarrow> connOk V K c k t" for c k
      using i(13)[of c k] f connUp_ioStep(1)[OF io] by (auto simp: connOk_def)
    show "connHeap t c = Some k \<Longrightarrow> connHeap t d = Some l \<Longrightarrow> k_chan k = k_chan l \<Longrightarrow> c = d" for c d k l
      using i(12) f(1) by auto
  qed (use i(1-11,14) f v ok pollSynced_ioStep[OF io] in simp_all)
qed

lemma viewOf_logged [simp]: "viewOf (logged l s) = viewOf s"
  by (simp add: viewOf_def)

lemma serverInv_logged:
  assumes "serverInv V K X s"
  shows "serverInv V K X (logged l s)"
  using serverInv_ioStep(1)[OF assms ioStep_logged] serverInvD(15)[OF assms] by simp

lemma serverInv_queue:
  fixes s :: "('t, 'z) server_scheme"
  assumes inv: "serverInv V K X s" and t: "taskOk V K (viewOf s) x"
  obtains s' where "queueInLoop x s = Inr s'" "serverInv V K X s'" "viewOf s' = viewOf s"
proof -
  obtain s' where s': "queueInLoop x s = Inr s'" "ioStep s s'" "tasks s' = tasks s @ [x]"
    by (rule ioStep_queueInLoop) blast
  have "taskOk V K (viewOf s) y" if "y \<in> set (tasks s')" for y
    using that s'(3) t serverInvD(15)[OF inv] by auto
  then show thesis using that[OF s'(1)] serverInv_ioStep[OF inv s'(2)] by blast
qed

text \<open>A connection of the server may always be worked on.\<close>

lemma alone_start:
  assumes "serverInv V K X s" "n_open (viewOf s) c = Some fd"
  shows "alone (v_user V c) c s s"
proof -
  obtain k where k: "connHeap s c = Some k" "served V K c k" "connUp c (k_sock k) s"
    by (rule serverInv_up[OF assms(1)]) (use assms(2) in auto)
  obtain ch where ch: "chans s (k_chan k) = Some ch" using k(1,3) by (auto simp: connUp_def)
  show ?thesis by (rule aloneI[OF k(1) _ _ ch, where ts = "[]"]) (use k ch in \<open>auto simp: sameConn_def served_def\<close>)
qed

text \<open>The server forgets a connection that has closed.\<close>

lemma server_removes:
  fixes s :: "('t, 'z) server_scheme"
  assumes inv: "serverInv V K {c} s"
  obtains s' where "removeConnection K c s = Inr s'" "serverInv V K {} s'" "viewOf s' = viewOf s"
proof -
  note i = serverInvD[OF inv]
  have c: "c \<in> set (sv_conns s)" "c \<in> n_gone (viewOf s)" "c \<notin> dom (n_open (viewOf s))"
    using i(8,9) by (auto simp: viewOf_def)
  let ?s = "s\<lparr>sv_conns := remove1 c (sv_conns s)\<rparr>"
  have v: "viewOf ?s = viewOf s" by (simp add: viewOf_def)
  have inv': "serverInv V K {} ?s"
  proof (rule serverInvI)
    show "set (sv_conns ?s) = dom (n_open (viewOf ?s)) \<union> {}" using i(7,8) c(3) v by auto
    show "connHeap ?s d = Some k \<Longrightarrow> connOk V K d k ?s" for d k
      using i(13)[of d k] i(1,2) by (auto simp: connOk_def connUp_def pollSynced_def)
    show "connHeap ?s d = Some k \<Longrightarrow> connHeap ?s e = Some l \<Longrightarrow> k_chan k = k_chan l \<Longrightarrow> d = e" for d e k l
      using i(12) by auto
  qed (use i v in \<open>simp_all add: pollSynced_def\<close>)
  have "taskOk V K (viewOf ?s) (st_destroyed K c)" using c(2) v by (auto simp: taskOk_def known_def)
  then obtain s' where s': "queueInLoop (st_destroyed K c) ?s = Inr s'" "serverInv V K {} s'" "viewOf s' = viewOf ?s"
    by (rule serverInv_queue[OF inv'])
  have o: "sv_owner ?s c = baseLoop ?s" using c(2) i(14) by (auto simp: gone_view baseLoop_def)
  have "removeConnection K c s = Inr s'"
    using i(2) c(1) o s'(1) by (simp add: removeConnection_def runInLoop_def ifElse_def isInLoopThread_def
        removeConnectionInLoop_eq queueInOwner_def baseLoop_def)
  then show thesis using that[of s'] s' v by simp
qed

text \<open>
  What is asked of the callbacks: they keep the invariant and close nothing themselves. The user's tasks keep
  the invariant, too, and may close connections (as \<^verbatim>\<open>forceClose\<close> makes one do).
\<close>

definition callbacksOk ::
  "('t \<Rightarrow> ('t, 'z) server_scheme stmt) \<Rightarrow> 't service \<Rightarrow> 't serverTasks \<Rightarrow> bool" where
  "callbacksOk exec V K \<longleftrightarrow>
     (\<forall>c up A X. X \<subseteq> {c} \<longrightarrow> ensures (\<lambda>s. serverInv V K X s \<and> viewOf s = A \<and> c \<in> known A) (exec (v_onConn V c up))
        (\<lambda>s. serverInv V K X s \<and> viewOf s = A)) \<and>
     (\<forall>m c A. v_onMsg V = Some m \<longrightarrow> ensures (\<lambda>s. serverInv V K {} s \<and> viewOf s = A \<and> c \<in> dom (n_open A)) (exec (m c))
        (\<lambda>s. serverInv V K {} s \<and> viewOf s = A)) \<and>
     (\<forall>c w. v_onWrite V = Some w \<longrightarrow> w c \<in> v_user V c) \<and>
     (\<forall>c. exec (st_remove K c) = removeConnection K c) \<and>
     (\<forall>c s. serverInv V K {} s \<longrightarrow> c \<in> n_gone (viewOf s) \<longrightarrow> exec (st_destroyed K c) s = connectionDestroyed exec c s)"

lemma callbacksOkD:
  assumes "callbacksOk exec V K"
  shows "serverInv V K X s \<Longrightarrow> X \<subseteq> {c} \<Longrightarrow> c \<in> known (viewOf s) \<Longrightarrow>
      \<exists>s'. exec (v_onConn V c up) s = Inr s' \<and> serverInv V K X s' \<and> viewOf s' = viewOf s"
    "v_onMsg V = Some m \<Longrightarrow> serverInv V K {} s \<Longrightarrow> c \<in> dom (n_open (viewOf s)) \<Longrightarrow>
      \<exists>s'. exec (m c) s = Inr s' \<and> serverInv V K {} s' \<and> viewOf s' = viewOf s"
    "v_onWrite V = Some w \<Longrightarrow> w c \<in> v_user V c" "exec (st_remove K c) = removeConnection K c"
    "serverInv V K {} s \<Longrightarrow> c \<in> n_gone (viewOf s) \<Longrightarrow> exec (st_destroyed K c) s = connectionDestroyed exec c s"
  using assms unfolding callbacksOk_def ensures_def by blast+

definition closing ::
  "('t \<Rightarrow> ('t, 'z) server_scheme stmt) \<Rightarrow> 't service \<Rightarrow> 't serverTasks \<Rightarrow> nat \<Rightarrow> 't \<Rightarrow> bool" where
  "closing exec V K c t \<longleftrightarrow> (\<forall>A. ensures (\<lambda>s. serverInv V K {} s \<and> viewOf s = A \<and> c \<in> known A) (exec t)
     (\<lambda>s. serverInv V K {} s \<and> closes A (viewOf s)))"

lemma closingD:
  "closing exec V K c t \<Longrightarrow> serverInv V K {} s \<Longrightarrow> c \<in> known (viewOf s) \<Longrightarrow>
     \<exists>s'. exec t s = Inr s' \<and> serverInv V K {} s' \<and> closes (viewOf s) (viewOf s')"
  unfolding closing_def ensures_def by blast

definition wellBehaved ::
  "('t \<Rightarrow> ('t, 'z) server_scheme stmt) \<Rightarrow> 't service \<Rightarrow> 't serverTasks \<Rightarrow> bool" where
  "wellBehaved exec V K \<longleftrightarrow> callbacksOk exec V K \<and> (\<forall>c. \<forall>t \<in> v_user V c. closing exec V K c t)"

lemma server_closes:
  fixes s :: "('t, 'z) server_scheme"
  assumes wb: "callbacksOk exec V K" and inv: "serverInv V K {} s" and c: "c \<in> dom (n_open (viewOf s))"
  obtains s' where "handleClose exec c s = Inr s'" "serverInv V K {} s'" "viewOf s' = closeOne c (viewOf s)"
proof -
  note i = serverInvD[OF inv]
  obtain k where k: "connHeap s c = Some k" "served V K c k" "connUp c (k_sock k) s" "n_open (viewOf s) c = Some (k_sock k)"
    by (rule serverInv_up[OF inv c]) blast
  have cb: "k_onConn k = Some (v_onConn V)" using k(2) by (simp add: served_def)
  obtain s1 ch where s1: "handleClose exec c s = andThen (exec (v_onConn V c False) s1) (withConn ''handleClose'' c (\<lambda>k.
       case k_onClose k of None \<Rightarrow> (\<lambda>_. Inl (BadFunctionCall ''_onCloseCb'')) | Some g \<Rightarrow> exec (g c)))"
    "connHeap s1 = (connHeap s)(c \<mapsto> k\<lparr>k_status := Disconnected\<rparr>)" "pollSynced s1"
    "maskStep (s\<lparr>connHeap := (connHeap s)(c \<mapsto> k\<lparr>k_status := Disconnected\<rparr>)\<rparr>) s1"
    "chans s (k_chan k) = Some ch" "chans s1 = (chans s)(k_chan k \<mapsto> ch\<lparr>c_events := 0, c_added := False\<rparr>)"
    by (rule handleClose_ok[OF k(3,1) cb, of exec]) (elim exE conjE, rule that; assumption)
  have m: "nextConn s1 = nextConn s" "nextChan s1 = nextChan s" "curTid s1 = curTid s" "loopTid s1 = loopTid s"
    "conns.more s1 = conns.more s" "tasks s1 = tasks s" "tame s s1"
    using s1(4) by (auto simp: maskStep_def tame_def)
  have al: "alone (v_user V c) c s s1"
    by (rule aloneI[OF k(1) _ s1(2,5,6), where ts = "[]"]) (use k(2) m in \<open>auto simp: sameConn_def served_def\<close>)
  have t: "serverInv V K {c} s1" "viewOf s1 = closeOne c (viewOf s)"
    using works_closed[OF inv k(4) al s1(3)] s1(2,6) by simp_all
  have "c \<in> known (viewOf s1)" using s1(2) known_view[of c s1] by simp
  then obtain s2 where s2: "exec (v_onConn V c False) s1 = Inr s2" "serverInv V K {c} s2" "viewOf s2 = viewOf s1"
    using callbacksOkD(1)[OF wb t(1), of c] by blast
  have "c \<in> n_gone (viewOf s2)" using serverInvD(9)[OF s2(2)] by simp
  then obtain k2 where k2: "connHeap s2 c = Some k2" using gone_view by blast
  then have "k_onClose k2 = Some (st_remove K)" using serverInvD(13)[OF s2(2)] by (simp add: connOk_def served_def)
  then have "handleClose exec c s = removeConnection K c s2"
    using s1(1) s2(1) k2 callbacksOkD(4)[OF wb] by (simp add: withConn_def)
  then show thesis using server_removes[OF s2(2)] s2(3) t(2) that by metis
qed

lemma server_reads:
  fixes s :: "('t, 'z) server_scheme"
  assumes wb: "callbacksOk exec V K" and inv: "serverInv V K {} s" and c: "c \<in> dom (n_open (viewOf s))"
  obtains s' where "TcpConnection_handleRead exec c s = Inr s'" "serverInv V K {} s'"
    "viewOf s' = viewOf s \<or> viewOf s' = closeOne c (viewOf s)"
proof -
  obtain k where k: "connHeap s c = Some k" "served V K c k" "connUp c (k_sock k) s" "n_open (viewOf s) c = Some (k_sock k)"
    by (rule serverInv_up[OF inv c]) blast
  obtain s1 b t where s1: "connUp c (k_sock k) s1" "plainStep s t" "s1 = t\<lparr>connHeap := (connHeap t)(c \<mapsto> k\<lparr>k_in := b\<rparr>)\<rparr>"
    "TcpConnection_handleRead exec c s =
      (case readFdFirst (k_in k) s of
         None \<Rightarrow> Inr (logged ERROR s1)
       | Some xs \<Rightarrow> if xs = [] then handleClose exec c s1
           else case k_onMsg k of None \<Rightarrow> Inr (logged ERROR s1) | Some f \<Rightarrow> exec (f c) s1)"
    using handleRead_cases[OF k(3,1), of exec] by (elim exE conjE) (rule that; assumption)
  have "alone (v_user V c) c s t" by (rule alone.P_kernel[OF alone_start[OF inv k(4)] s1(2)])
  then have "alone (v_user V c) c s s1" unfolding s1(3)
    by (rule alone.P_in) (use plainStep_fields(1)[OF s1(2)] k(1) in simp)
  note o = works_open[OF inv k(4) this s1(1)]
  have c1: "c \<in> dom (n_open (viewOf s1))" using o(2) c by simp
  show thesis
  proof (cases "readFdFirst (k_in k) s")
    case None
    then show thesis using that[of "logged ERROR s1"] s1(4) serverInv_logged[OF o(1)] o(2) by simp
  next
    case (Some xs)
    show thesis
    proof (cases "xs = []")
      case True
      obtain s' where "handleClose exec c s1 = Inr s'" "serverInv V K {} s'" "viewOf s' = closeOne c (viewOf s1)"
        by (rule server_closes[OF wb o(1) c1]) blast
      then show thesis using that[of s'] s1(4) Some True o(2) by simp
    next
      case False
      show thesis
      proof (cases "k_onMsg k")
        case None
        then show thesis using that[of "logged ERROR s1"] s1(4) Some False serverInv_logged[OF o(1)] o(2) by simp
      next
        case (Some m)
        then have "v_onMsg V = Some m" using k(2) by (simp add: served_def)
        then obtain s' where "exec (m c) s1 = Inr s'" "serverInv V K {} s'" "viewOf s' = viewOf s1"
          using callbacksOkD(2)[OF wb _ o(1) c1] by blast
        then show thesis using that[of s'] s1(4) Some False \<open>readFdFirst (k_in k) s = Some xs\<close> o(2) by simp
      qed
    qed
  qed
qed

lemma server_writes:
  fixes s :: "('t, 'z) server_scheme"
  assumes inv: "serverInv V K {} s" and c: "c \<in> dom (n_open (viewOf s))"
  obtains s' where "TcpConnection_handleWrite c s = Inr s'" "serverInv V K {} s'" "viewOf s' = viewOf s"
proof -
  obtain k where k: "connUp c (k_sock k) s" "n_open (viewOf s) c = Some (k_sock k)" "connHeap s c = Some k"
    by (rule serverInv_up[OF inv c]) (rule that; assumption)
  obtain s' where s': "TcpConnection_handleWrite c s = Inr s'" "connUp c (k_sock k) s'"
    by (rule handleWrite_ok[OF k(1)])
  have "alone (v_user V c) c s s'" by (rule yieldsD[OF alone.yields_handleWrite alone_start[OF inv k(2)] s'(1)])
  then show thesis using that[OF s'(1)] works_open[OF inv k(2) _ s'(2)] by blast
qed

lemma server_errors:
  fixes s :: "('t, 'z) server_scheme"
  assumes inv: "serverInv V K {} s" and c: "c \<in> dom (n_open (viewOf s))"
  obtains s' where "TcpConnection_handleError c s = Inr s'" "serverInv V K {} s'" "viewOf s' = viewOf s"
proof -
  obtain k where k: "connHeap s c = Some k" "connUp c (k_sock k) s"
    by (rule serverInv_up[OF inv c]) (rule that; assumption)
  then obtain ch where ch: "curTid s = loopTid s" "chans s (k_chan k) = Some ch" "c_fd ch = k_sock k"
    by (auto simp: connUp_def)
  let ?t = "afterSys (SysSoError (k_sock k)) s"
  have "TcpConnection_handleError c s = Inr (logged ERROR ?t)"
    using k(1) ch by (simp add: TcpConnection_handleError_def assertInLoopThread_def assertThat_def connFd_def withConn_def
        withChan_def call_def ISocket_getSocketError_def sys_eq stmt_defs)
  moreover have io: "ioStep s ?t" by simp
  have "serverInv V K {} ?t" "viewOf ?t = viewOf s"
    using serverInv_ioStep[OF inv io] serverInvD(15)[OF inv] by simp_all
  ultimately show thesis using that serverInv_logged[of V K "{}" ?t ERROR] by simp
qed

lemma closes_one: "c \<in> dom (n_open A) \<Longrightarrow> closes A (closeOne c A)"
  by (rule closes.one[OF _ closes.none])

text \<open>A forced close, as a task, is one the contract allows.\<close>

lemma forceClose_closing:
  fixes exec :: "'t \<Rightarrow> ('t, 'z) server_scheme stmt"
  assumes cb: "callbacksOk exec V K" and t: "exec t = forceCloseInLoop exec c"
  shows "closing exec V K c t"
  unfolding closing_def ensures_def
proof (intro allI impI, elim conjE)
  fix A and s :: "('t, 'z) server_scheme"
  assume s: "serverInv V K {} s" "viewOf s = A" "c \<in> known A"
  obtain k where k: "connHeap s c = Some k" using s(2,3) known_view[of c s] by auto
  have e: "exec t s = (if k_status k = Connected \<or> k_status k = Disconnecting then handleClose exec c s else Inr s)"
    using t k serverInvD(2)[OF s(1)] by (simp add: forceCloseInLoop_def assertInLoopThread_def assertThat_def withConn_def)
  show "\<exists>s'. exec t s = Inr s' \<and> serverInv V K {} s' \<and> closes A (viewOf s')"
  proof (cases "c \<in> dom (n_open (viewOf s))")
    case True
    obtain s' where s': "handleClose exec c s = Inr s'" "serverInv V K {} s'" "viewOf s' = closeOne c (viewOf s)"
      by (rule server_closes[OF cb s(1) True]) blast
    have "connUp c (k_sock k) s" by (rule serverInv_up[OF s(1) True]) (use k in simp)
    then have "exec t s = Inr s'" using e s'(1) k by (auto simp: connUp_def)
    then show ?thesis using s'(2,3) closes_one[OF True] s(2) by auto
  next
    case False
    then have "k_status k = Disconnected" using k s(2,3) by (auto simp: known_def gone_view)
    then show ?thesis using e s closes.none by auto
  qed
qed

lemma task_serves:
  fixes s :: "('t, 'z) server_scheme"
  assumes wb: "wellBehaved exec V K" and inv: "serverInv V K {} s" and t: "taskOk V K (viewOf s) t"
  obtains s' where "exec t s = Inr s'" "serverInv V K {} s'" "closes (viewOf s) (viewOf s')"
proof -
  obtain c where c: "c \<in> known (viewOf s)" "t \<in> v_user V c \<or> t = st_destroyed K c \<and> c \<in> n_gone (viewOf s)"
    using t by (auto simp: taskOk_def)
  have cb: "callbacksOk exec V K" using wb by (simp add: wellBehaved_def)
  show thesis
  proof (cases "t \<in> v_user V c")
    case True
    then show thesis using closingD[OF _ inv c(1), of exec t] wb that by (auto simp: wellBehaved_def)
  next
    case False
    then have t: "t = st_destroyed K c" "c \<in> n_gone (viewOf s)" using c(2) by auto
    then obtain k where k: "connHeap s c = Some k" "k_status k = Disconnected" by (auto simp: gone_view)
    then have "exec t s = Inr s" using t serverInvD(2)[OF inv] callbacksOkD(5)[OF cb inv]
      by (simp add: connectionDestroyed_def assertInLoopThread_def assertThat_def withConn_def)
    then show thesis using that[of s] inv closes.none by blast
  qed
qed

text \<open>Accepting adds one connection, open, under a number not used before.\<close>

definition addOne :: "nat \<Rightarrow> int \<Rightarrow> netView \<Rightarrow> netView" where
  "addOne c fd A = A\<lparr>n_open := (n_open A)(c \<mapsto> fd), n_busy := insert fd (n_busy A)\<rparr>"

lemma server_accepts:
  fixes s :: "('t, 'z) server_scheme"
  assumes wb: "callbacksOk exec V K" and inv: "serverInv V K {} s" and fd: "fd \<notin> n_busy (viewOf s)"
  obtains s' where "newConnection exec K fd peer s = Inr s'" "serverInv V K {} s'"
    "viewOf s' = addOne (nextConn s) fd (viewOf s)" "nextConn s \<notin> known (viewOf s)"
proof -
  note i = serverInvD[OF inv]
  let ?c = "nextConn s"
  have base: "nextLoopOf (sv_pool s) = p_base (sv_pool s)" using i(3) by (simp add: nextLoopOf_def)
  have sole: "chans s j = Some y \<Longrightarrow> c_added y \<Longrightarrow> c_fd y \<noteq> fd" for j y using fd by (auto simp: busy_view)
  obtain s1 where e: "newConnection exec K fd peer s = exec (v_onConn V ?c True) s1" "connUp ?c fd s1"
    "sv_conns s1 = List.insert ?c (sv_conns s)" "sv_pool s1 = (sv_pool s)\<lparr>p_next := p_next (sv_pool s) + 1\<rparr>"
    "\<exists>l. connHeap s1 = (connHeap s)(?c \<mapsto> (acceptedConn K fd l peer s)\<lparr>k_status := Connected\<rparr>)"
    "\<exists>ch. chans s1 = (chans s)(nextChan s \<mapsto> ch) \<and> c_fd ch = fd \<and> c_added ch"
    "nextConn s1 = Suc ?c" "nextChan s1 = Suc (nextChan s)" "tasks s1 = tasks s"
    "sv_owner s1 = (sv_owner s)(?c := p_base (sv_pool s))"
    "sv_onConn s1 = sv_onConn s" "sv_onMsg s1 = sv_onMsg s" "sv_onWrite s1 = sv_onWrite s"
    by (rule enroll_base[OF i(2,1,4) _ _ base, where exec = exec and K = K and peer = peer and fd = fd])
      (erule i(10), erule (1) sole, (rule that; assumption))
  obtain l ch where n: "connHeap s1 = (connHeap s)(?c \<mapsto> (acceptedConn K fd l peer s)\<lparr>k_status := Connected\<rparr>)"
    "chans s1 = (chans s)(nextChan s \<mapsto> ch)" "c_fd ch = fd" "c_added ch" using e(5,6) by blast
  let ?k = "(acceptedConn K fd l peer s)\<lparr>k_status := Connected\<rparr>"
  have k: "k_chan ?k = nextChan s" "k_sock ?k = fd" "k_status ?k = Connected" "served V K ?c ?k"
    using i(4-6) callbacksOkD(3)[OF wb] by (simp_all add: acceptedConn_def newConn_def served_def)
  have fresh: "?c \<notin> known (viewOf s)" "connHeap s ?c = None" "chans s (nextChan s) = None"
    using i(11)[of ?c] known_view[of ?c s] i(10)[of "nextChan s"] by auto
  have old: "k_chan d \<noteq> nextChan s" if "connHeap s x = Some d" for x d
    using i(13)[OF that] fresh(3) that by (cases "k_status d = Disconnected") (auto simp: connOk_def connUp_def)
  have v: "viewOf s1 = addOne ?c fd (viewOf s)"
  proof (rule netView_eqI)
    show "n_open (viewOf s1) = n_open (addOne ?c fd (viewOf s))" using n(1) k by (intro ext) (simp add: viewOf_def addOne_def)
    show "n_gone (viewOf s1) = n_gone (addOne ?c fd (viewOf s))" using n(1) k(3) fresh(2) by (auto simp: viewOf_def addOne_def)
    show "n_busy (viewOf s1) = n_busy (addOne ?c fd (viewOf s))"
    proof (intro set_eqI iffI)
      fix x assume "x \<in> n_busy (viewOf s1)"
      then obtain j y where "chans s1 j = Some y" "c_added y" "c_fd y = x" by (auto simp: busy_view)
      then show "x \<in> n_busy (addOne ?c fd (viewOf s))"
        using n by (cases "j = nextChan s") (auto simp: busy_view addOne_def)
    next
      fix x assume "x \<in> n_busy (addOne ?c fd (viewOf s))"
      then consider "x = fd" | j y where "chans s j = Some y" "c_added y" "c_fd y = x"
        by (auto simp: busy_view addOne_def)
      then show "x \<in> n_busy (viewOf s1)"
      proof cases
        case 1
        then show ?thesis using n by (auto simp: busy_view)
      next
        case 2
        then have "chans s1 j = Some y" using n(2) fresh(3) by auto
        then show ?thesis using 2 by (auto simp: busy_view)
      qed
    qed
  qed
  have inv1: "serverInv V K {} s1"
  proof (rule serverInvI)
    show "pollSynced s1" "curTid s1 = loopTid s1" using e(2) by (simp_all add: connUp_def)
    show "connOk V K x d s1" if d: "connHeap s1 x = Some d" for x d
    proof (cases "x = ?c")
      case True
      then show ?thesis using d n(1) k e(2) by (simp add: connOk_def)
    next
      case False
      then have d': "connHeap s x = Some d" using d n(1) by simp
      show ?thesis by (rule connOk_other[OF i(13)[OF d'] d' d])
        (use old[OF d'] n(2) e(2) in \<open>simp_all add: connUp_def\<close>)
    qed
    show "x = y" if "connHeap s1 x = Some d" "connHeap s1 y = Some f" "k_chan d = k_chan f" for x y d f
      using that n(1) k(1) old i(12) by (cases "x = ?c"; cases "y = ?c") fastforce+
    show "distinct (sv_conns s1)" using e(3) i(7) by simp
    show "set (sv_conns s1) = dom (n_open (viewOf s1)) \<union> {}" using e(3) i(8) v by (simp add: addOne_def)
    show "x < nextConn s1" if "x \<in> known (viewOf s1)" for x
    proof -
      have "x \<in> known (viewOf s) \<or> x = ?c" using that v by (auto simp: known_def addOne_def split: if_splits)
      then show ?thesis using i(11)[of x] e(7) by auto
    qed
    show "j < nextChan s1" if "chans s1 j = Some y" for j y
      using that n(2) e(8) i(10)[of j y] by (auto split: if_splits)
    show "taskOk V K (viewOf s1) x" if "x \<in> set (tasks s1)" for x
      using that e(9) i(15)[of x] v by (auto simp: taskOk_def known_def addOne_def)
    show "connHeap s1 x = Some d \<Longrightarrow> sv_owner s1 x = p_base (sv_pool s1)" for x d
      using n(1) e(4,10) i(14)[of x d] by (auto split: if_splits)
  qed (use e(4,11-13) i(3-6) in simp_all)
  have "?c \<in> known (viewOf s1)" using v by (simp add: known_def addOne_def)
  then obtain s' where "exec (v_onConn V ?c True) s1 = Inr s'" "serverInv V K {} s'" "viewOf s' = viewOf s1"
    using callbacksOkD(1)[OF wb inv1, of ?c] by blast
  then show thesis using that[of s'] e(1) v fresh(1) by simp
qed

text \<open>One round of the task queue.\<close>

lemma serverInv_working:
  "serverInv V K X (s\<lparr>workingFlag := b\<rparr>) = serverInv V K X s" "viewOf (s\<lparr>workingFlag := b\<rparr>) = viewOf s"
  by (simp_all add: serverInv_def viewOf_def connOk_def connUp_def pollSynced_def)

lemma run_tasks:
  fixes s :: "('t, 'z) server_scheme"
  assumes wb: "wellBehaved exec V K" and "serverInv V K {} s" and "\<And>t. t \<in> set ts \<Longrightarrow> taskOk V K (viewOf s) t"
  shows "\<exists>s'. block (map exec ts) s = Inr s' \<and> serverInv V K {} s' \<and> closes (viewOf s) (viewOf s')"
  using assms(2,3)
proof (induction ts arbitrary: s)
  case Nil
  then show ?case by (auto intro: closes.none)
next
  case (Cons t ts)
  have "taskOk V K (viewOf s) t" using Cons.prems(2) by simp
  then obtain s1 where s1: "exec t s = Inr s1" "serverInv V K {} s1" "closes (viewOf s) (viewOf s1)"
    by (rule task_serves[OF wb Cons.prems(1)])
  have "taskOk V K (viewOf s1) x" if "x \<in> set ts" for x
    by (rule taskOk_closes[OF _ s1(3)]) (use Cons.prems(2) that in simp)
  from Cons.IH[OF s1(2) this] show ?case using s1(1,3) closes_trans by fastforce
qed

lemma doTask_serves:
  fixes s :: "('t, 'z) server_scheme"
  assumes wb: "wellBehaved exec V K" and inv: "serverInv V K {} s"
  obtains s' where "doTask exec s = Inr s'" "serverInv V K {} s'" "closes (viewOf s) (viewOf s')"
proof -
  let ?s = "s\<lparr>workingFlag := True, tasks := []\<rparr>"
  have v: "viewOf ?s = viewOf s" by (simp add: viewOf_def)
  have eq: "?s = s\<lparr>tasks := [], workingFlag := True\<rparr>" by simp
  have "serverInv V K {} ?s" unfolding eq serverInv_working(1) by (rule serverInv_ioStep(1)[OF inv ioStep_tasks]) simp
  then obtain s' where "block (map exec (tasks s)) ?s = Inr s'" "serverInv V K {} s'" "closes (viewOf s) (viewOf s')"
    using run_tasks[OF wb, of ?s "tasks s"] serverInvD(15)[OF inv] v by auto
  then show thesis using that[of "s'\<lparr>workingFlag := False\<rparr>"]
    by (simp add: doTask_def letIn_def upd_def serverInv_working)
qed

lemma closes_open: "closes A B \<Longrightarrow> n_open A c = None \<Longrightarrow> n_open B c = None"
  by (induction rule: closes.induct) (simp_all add: closeOne_def)

text \<open>The reply of an echo server, to any of its connections.\<close>

lemma server_sendBack:
  fixes s :: "('t, 'z) server_scheme"
  assumes inv: "serverInv V K {} s" and c: "c \<in> dom (n_open (viewOf s))"
  obtains s' where "sendBack T c s = Inr s'" "serverInv V K {} s'" "viewOf s' = viewOf s"
proof -
  obtain k where k: "connHeap s c = Some k" "connUp c (k_sock k) s" "n_open (viewOf s) c = Some (k_sock k)"
    by (rule serverInv_up[OF inv c]) (rule that; assumption)
  show thesis
  proof (cases "k_status k = Connected")
    case True
    obtain s' s1 k1 where s': "sendBack T c s = Inr s'" "connUp c (k_sock k) s'"
      "sendInLoop c (content (k_in k)) s = Inr s1" "connHeap s1 c = Some k1"
      "s' = s1\<lparr>connHeap := (connHeap s1)(c \<mapsto> k1\<lparr>k_in := retrieveAll (k_in k)\<rparr>)\<rparr>"
      by (rule sendBack_ok[OF k(2,1) True])
    have "alone (v_user V c) c s s1" by (rule yieldsD[OF alone.yields_sendInLoop alone_start[OF inv k(3)] s'(3)])
    then have "alone (v_user V c) c s s'" unfolding s'(5) by (rule alone.P_in[OF _ s'(4)])
    then show thesis using that[OF s'(1)] works_open[OF inv k(3) _ s'(2)] by blast
  next
    case False
    have "buf_wf (k_in k)" using k(1,2) by (auto simp: connUp_def)
    then have "sendBack T c s = Inr s" by (rule sendBack_refused[OF k(1) False])
    then show thesis using that inv by blast
  qed
qed

section \<open>The server refines the set of its connections\<close>

text \<open>
  What can happen to a server: its acceptor hands it a descriptor, a connection of its set becomes readable or writable,
  has an error or is hung up, or the loop runs the tasks that are queued.
\<close>

datatype serverEvent = Accepted int endpoint | ToRead nat | ToWrite nat | Failed nat | HungUp nat | Tasks

fun serverRun ::
  "('t \<Rightarrow> ('t, 'z) server_scheme stmt) \<Rightarrow> 't serverTasks \<Rightarrow> serverEvent \<Rightarrow> ('t, 'z) server_scheme stmt" where
  "serverRun exec K (Accepted fd peer) = newConnection exec K fd peer"
| "serverRun exec K (ToRead c) = TcpConnection_handleRead exec c"
| "serverRun exec K (ToWrite c) = TcpConnection_handleWrite c"
| "serverRun exec K (Failed c) = TcpConnection_handleError c"
| "serverRun exec K (HungUp c) = handleClose exec c"
| "serverRun exec K Tasks = doTask exec"

text \<open>A descriptor the kernel hands out is not one that is being watched; events come for open connections.\<close>

fun serverValid :: "serverEvent \<Rightarrow> netView \<Rightarrow> bool" where
  "serverValid (Accepted fd peer) A \<longleftrightarrow> fd \<notin> n_busy A"
| "serverValid (ToRead c) A \<longleftrightarrow> n_open A c \<noteq> None"
| "serverValid (ToWrite c) A \<longleftrightarrow> n_open A c \<noteq> None"
| "serverValid (Failed c) A \<longleftrightarrow> n_open A c \<noteq> None"
| "serverValid (HungUp c) A \<longleftrightarrow> n_open A c \<noteq> None"
| "serverValid Tasks A \<longleftrightarrow> True"

fun serverSpec :: "serverEvent \<Rightarrow> netView \<Rightarrow> netView \<Rightarrow> bool" where
  "serverSpec (Accepted fd peer) A B \<longleftrightarrow> (\<exists>c. c \<notin> known A \<and> B = addOne c fd A)"
| "serverSpec (ToRead c) A B \<longleftrightarrow> B = A \<or> B = closeOne c A"
| "serverSpec (ToWrite c) A B \<longleftrightarrow> B = A"
| "serverSpec (Failed c) A B \<longleftrightarrow> B = A"
| "serverSpec (HungUp c) A B \<longleftrightarrow> B = closeOne c A"
| "serverSpec Tasks A B \<longleftrightarrow> closes A B"

interpretation srv: total_refinement "\<lambda>n s. wellBehaved exec V K \<and> serverInv V K {} s" viewOf serverValid
  "serverRun exec K" serverSpec
  for exec :: "'t \<Rightarrow> ('t, 'z) server_scheme stmt" and V K
proof
  fix n :: nat and s :: "('t, 'z) server_scheme" and ev
  assume a: "wellBehaved exec V K \<and> serverInv V K {} s" "serverValid ev (viewOf s)"
  have wb: "wellBehaved exec V K" "callbacksOk exec V K" and inv: "serverInv V K {} s"
    using a(1) by (simp_all add: wellBehaved_def)
  show "\<exists>s'. serverRun exec K ev s = Inr s' \<and> (wellBehaved exec V K \<and> serverInv V K {} s') \<and> serverSpec ev (viewOf s) (viewOf s')"
  proof (cases ev)
    case (Accepted fd peer)
    then have "fd \<notin> n_busy (viewOf s)" using a(2) by simp
    then show ?thesis by (rule server_accepts[OF wb(2) inv, where peer = peer]) (use Accepted wb(1) in auto)
  next
    case (ToRead c)
    then have "c \<in> dom (n_open (viewOf s))" using a(2) by auto
    then show ?thesis by (rule server_reads[OF wb(2) inv]) (use ToRead wb(1) in auto)
  next
    case (ToWrite c)
    then have "c \<in> dom (n_open (viewOf s))" using a(2) by auto
    then show ?thesis by (rule server_writes[OF inv]) (use ToWrite wb(1) in auto)
  next
    case (Failed c)
    then have "c \<in> dom (n_open (viewOf s))" using a(2) by auto
    then show ?thesis by (rule server_errors[OF inv]) (use Failed wb(1) in auto)
  next
    case (HungUp c)
    then have "c \<in> dom (n_open (viewOf s))" using a(2) by auto
    then show ?thesis by (rule server_closes[OF wb(2) inv]) (use HungUp wb(1) in auto)
  next
    case Tasks
    show ?thesis by (rule doTask_serves[OF wb(1) inv]) (use Tasks wb(1) in auto)
  qed
qed


text \<open>An echo server without threads, before its first connection. Its tasks name the connection they are about.\<close>

datatype echoTask = Idle | OnConn nat bool | OnMsg nat | Remove nat | Destroyed nat

definition echoK :: "echoTask serverTasks" where
  "echoK = \<lparr>st_conn = \<lparr>ct_read = (\<lambda>c. Idle), ct_write = (\<lambda>c. Idle), ct_close = (\<lambda>c. Idle), ct_error = (\<lambda>c. Idle),
       ct_forceClose = (\<lambda>c. Idle), ct_shutdown = (\<lambda>c. Idle), ct_send = (\<lambda>c xs. Idle), ct_chanClose = (\<lambda>c. Idle)\<rparr>,
     st_newConn = (\<lambda>fd p. Idle), st_remove = Remove, st_removeInLoop = (\<lambda>c. Idle), st_established = (\<lambda>c. Idle),
     st_destroyed = Destroyed, st_acceptRead = Idle, st_defaultConn = OnConn, st_defaultMsg = OnMsg\<rparr>"

definition echoV :: "echoTask service" where
  "echoV = \<lparr>v_onConn = OnConn, v_onMsg = Some OnMsg, v_onWrite = None, v_user = (\<lambda>c. {})\<rparr>"

fun echoExec :: "echoTask \<Rightarrow> echoTask server stmt" where
  "echoExec Idle = Inr"
| "echoExec (OnConn c up) = defaultConnectionCallback up"
| "echoExec (OnMsg c) = EchoServer_onMessage (st_conn echoK) c"
| "echoExec (Remove c) = removeConnection echoK c"
| "echoExec (Destroyed c) = connectionDestroyed (\<lambda>_. Inr) c"

definition freshServer :: "echoTask server" where
  "freshServer = acceptor.extend (conns.extend (evloop.extend ((demoLoop [])\<lparr>
       chans := [3 \<mapsto> (mkChannel 8 True)\<lparr>c_added := True, c_events := kReadEvent\<rparr>], nextChan := 4,
       trace := [SysEpollCtl EPOLL_CTL_ADD 8 kReadEvent 3]\<rparr>)
       \<lparr>connHeap = Map.empty, nextConn = 0\<rparr>)
     \<lparr>ac_listening = True, ac_endpoint = [], ac_sock = 8, ac_chan = 3, ac_onNewConn = Some (\<lambda>fd p. Idle), ac_freeFd = 6\<rparr>)
     \<lparr>sv_started = True, sv_pool = EventLoopThreadPool_ctor 0, sv_onConn = Some OnConn, sv_onMsg = Some OnMsg,
      sv_onWrite = None, sv_conns = [], sv_threadInit = None, sv_owner = (\<lambda>_. 0), sv_remote = []\<rparr>"

lemma freshServer_inv: "serverInv echoV echoK {} freshServer" "viewOf freshServer = \<lparr>n_open = Map.empty, n_gone = {}, n_busy = {8}\<rparr>"
    "nextConn freshServer = 0"
proof -
  note defs = freshServer_def acceptor.defs conns.defs evloop.defs demoLoop_defs
  show v: "viewOf freshServer = \<lparr>n_open = Map.empty, n_gone = {}, n_busy = {8}\<rparr>"
    by (auto simp: viewOf_def defs mkChannel_def split: if_splits)
  show "serverInv echoV echoK {} freshServer" unfolding serverInv_def v
    by (simp add: defs mkChannel_def echoV_def known_def EventLoopThreadPool_ctor_def pollSynced_def interest_def
        interestStep_def mask_defs)
  show "nextConn freshServer = 0" by (simp add: defs)
qed

lemma echo_wellBehaved: "wellBehaved echoExec echoV echoK"
proof -
  have "\<exists>s'. EchoServer_onMessage (st_conn echoK) c s = Inr s' \<and> serverInv echoV echoK {} s' \<and> viewOf s' = viewOf s"
    if "serverInv echoV echoK {} s" "c \<in> dom (n_open (viewOf s))" for c and s :: "echoTask server"
    unfolding EchoServer_onMessage_def by (rule server_sendBack[OF that]) blast
  moreover have "connectionDestroyed f c s = Inr s" if "serverInv echoV echoK {} s" "c \<in> n_gone (viewOf s)"
    for c f and s :: "echoTask server"
    using that(2) serverInvD(2)[OF that(1)] by (auto simp: gone_view connectionDestroyed_def assertInLoopThread_def
        assertThat_def withConn_def)
  moreover have "v_onConn echoV = OnConn" "v_onMsg echoV = Some OnMsg" "v_onWrite echoV = None" "v_user echoV = (\<lambda>_. {})"
    "st_remove echoK = Remove" "st_destroyed echoK = Destroyed" by (simp_all add: echoV_def echoK_def)
  ultimately show ?thesis
    by (simp add: wellBehaved_def callbacksOk_def ensures_def defaultConnectionCallback_def serverInv_logged)
qed


end
