(* ===== verification/Attempt.thy ===== *)
theory Attempt
  imports ClientConnect
begin

text \<open>
  One attempt of Connector.cpp to connect, whatever the kernel answers: what \<^verbatim>\<open>retry\<close>, \<^verbatim>\<open>connecting\<close> and
  \<^verbatim>\<open>connect\<close> do to the connector, its channel, its timer and the sockets of the process, and that they
  leave the rest alone.
\<close>

section \<open>What an attempt may change\<close>

definition attempts :: "('t, 'z) connector_scheme \<Rightarrow> ('t, 'z) connector_scheme \<Rightarrow> bool" where
  "attempts s s' \<longleftrightarrow> s' = s\<lparr>trace := trace s', envIx := envIx s', errno := errno s', logOut := logOut s',
     addrStorage := addrStorage s', clockIx := clockIx s', chans := chans s', nextChan := nextChan s',
     tmHeap := tmHeap s', nextTimer := nextTimer s', numCreated := numCreated s', timers := timers s',
     cn_status := cn_status s', cn_chan := cn_chan s', cn_retryMs := cn_retryMs s'\<rparr>"

lemma attempts_refl [simp]: "attempts s s"
  by (cases s) (simp add: attempts_def)

lemma attempts_trans:
  assumes "attempts s t" "attempts t u"
  shows "attempts s u"
  using assms by (cases s; cases t; cases u) (simp add: attempts_def)

lemma attempts_frame:
  fixes s s' :: "('t, 'z) connector_scheme"
  assumes "attempts s s'"
  shows "curTid s' = curTid s" "loopTid s' = loopTid s" "env s' = env s" "clock s' = clock s" "tasks s' = tasks s"
    "workingFlag s' = workingFlag s" "canceling s' = canceling s" "timerWorking s' = timerWorking s"
    "timerFd s' = timerFd s" "connHeap s' = connHeap s" "nextConn s' = nextConn s" "cn_connFlag s' = cn_connFlag s"
    "cn_onNewConn s' = cn_onNewConn s" "cn_peer s' = cn_peer s" "connector.more s' = connector.more s"
    "wakeupFd s' = wakeupFd s" "g_logLevel s' = g_logLevel s"
  using assms by (cases s; cases s'; simp add: attempts_def)+

lemma attempts_steps [simp]:
  "attempts s (afterSys c s)" "attempts s (logged l s)" "attempts s (afterClose fd s)"
  "attempts s (s\<lparr>cn_status := st\<rparr>)" "attempts s (s\<lparr>addrStorage := a\<rparr>)"
  by (cases s; simp add: attempts_def afterSys_def logged_def afterClose_def)+

section \<open>Retrying\<close>

definition connTimer :: "'t connectorTasks \<Rightarrow> int \<Rightarrow> ('t, 'z) connector_scheme \<Rightarrow> 't timer" where
  "connTimer K e s = \<lparr>tm_cb = cnt_start K, tm_expire = e, tm_interval = Dbl 0 0, tm_id = numCreated s\<rparr>"

lemma connTimer_simps [simp]: "tm_cb (connTimer K e s) = cnt_start K" "\<not> repeat (connTimer K e s)" "tm_expire (connTimer K e s) = e"
proof -
  have "\<not> doublePos (Dbl 0 0)" by code_simp
  then show "tm_cb (connTimer K e s) = cnt_start K" "\<not> repeat (connTimer K e s)" "tm_expire (connTimer K e s) = e"
    by (simp_all add: connTimer_def repeat_def)
qed

text \<open>What the clock says at its reading number \<open>i\<close>.\<close>

definition timeAt :: "(nat \<Rightarrow> int \<times> int) \<Rightarrow> nat \<Rightarrow> timestamp" where
  "timeAt c i = (case c i of (sec, usec) \<Rightarrow> sec * kMicroSecondsPerSecond + usec)"

lemma timeAt_now: "fst (now s) = timeAt (clock s) (clockIx s)"
  by (simp add: now_def timeAt_def split: prod.split)

lemma retry_cases:
  fixes s :: "('t, 'z) connector_scheme"
  assumes "curTid s = loopTid s" "timerInv X s" "timers s = []" "cn_retryMs s \<in> retryDelays" "0 \<le> fd"
  obtains (fatal) "Connector_retry K fd s = Inl FatalLog"
  | (off) s' where "\<not> cn_connFlag s" "Connector_retry K fd s = Inr s'" "attempts s s'" "chans s' = chans s"
      "nextChan s' = nextChan s" "cn_chan s' = cn_chan s" "cn_status s' = NsDisconnected" "cn_retryMs s' = cn_retryMs s"
      "timers s' = []" "timerInv X s'" "tmHeap s' = tmHeap s" "trace s' = trace s @ [SysClose fd]" "clockIx s' = clockIx s"
  | (on) s' tr where "cn_connFlag s" "Connector_retry K fd s = Inr s'" "attempts s s'" "chans s' = chans s"
      "nextChan s' = nextChan s" "cn_chan s' = cn_chan s" "cn_status s' = NsDisconnected"
      "cn_retryMs s' = nextRetryMs (cn_retryMs s)" "timers s' = [nextTimer s]" "timerInv X s'"
      "tmHeap s' = (tmHeap s)(nextTimer s \<mapsto> connTimer K (fst (now s) + cn_retryMs s * 1000) s)"
      "trace s' = trace s @ SysClose fd # tr" "\<forall>c \<in> set tr. plain c" "clockIx s < clockIx s'"
proof (cases "cn_connFlag s")
  case False
  let ?t = "logged DEBUG ((afterClose fd s)\<lparr>cn_status := NsDisconnected\<rparr>)"
  have "Connector_retry K fd s = Inr ?t" using False
    by (simp add: Connector_retry_def callE_def ISocket_close_eq Connector_setNetStatus_def upd_def ifElse_def)
  moreover have "attempts s ?t"
    by (rule attempts_trans[OF attempts_trans[OF attempts_steps(3) attempts_steps(4)] attempts_steps(2)])
  moreover have "chans ?t = chans s" "nextChan ?t = nextChan s" "cn_chan ?t = cn_chan s" "cn_retryMs ?t = cn_retryMs s"
    "timers ?t = []" "timerInv X ?t" "tmHeap ?t = tmHeap s" "trace ?t = trace s @ [SysClose fd]" "clockIx ?t = clockIx s"
    using assms by (simp_all add: timerInv_def, simp_all add: afterClose_def)
  ultimately show thesis using off[OF False] by simp
next
  case True
  let ?a = "(logged DEBUG ((afterClose fd s)\<lparr>cn_status := NsDisconnected\<rparr>))"
  let ?b = "?a\<lparr>clockIx := Suc (clockIx s)\<rparr>" and ?ms = "cn_retryMs s"
  have t0: "fst (now ?a) = fst (now s)" by (simp add: now_def split: prod.split)
  have nw: "now ?a = (fst (now s), ?b)" using now_eq[of ?a] t0 by simp
  have add: "addTime (retryDelay ?ms) (fst (now s)) = fst (now s) + ?ms * 1000"
    by (rule retryDelay_exact[OF assms(4)])
  have inv: "timerInv X ?b" using assms(2) by (simp add: timerInv_def)
  have loop: "isInLoopThread ?b" using assms(1) by (simp add: isInLoopThread_def)
  have ab: "attempts s ?b"
    by (rule attempts_trans[OF attempts_trans[OF attempts_trans[OF attempts_steps(3) attempts_steps(4)] attempts_steps(2)]])
      (cases s, simp add: attempts_def logged_def afterClose_def)
  let ?add = "addTimer (cnt_addTimer K) (cnt_start K) (fst (now s) + ?ms * 1000) (Dbl 0 0)"
  have eq: "Connector_retry K fd s = callE ?add (\<lambda>_ s. Inr (s\<lparr>cn_retryMs := nextRetryMs (cn_retryMs s)\<rparr>)) ?b"
    using True by (simp add: Connector_retry_def callE_def ISocket_close_eq Connector_setNetStatus_def
        upd_def ifElse_def letIn_def runAfter_def call_def nw add andThen_assoc split_def)
  show thesis
  proof (cases rule: addTimer_ok[OF inv loop, of "cnt_addTimer K" "cnt_start K" "fst (now s) + ?ms * 1000" "Dbl 0 0"])
    case 1
    then show thesis using eq fatal by (simp add: callE_def)
  next
    case (2 ts tr ix e ck)
    let ?t = "connTimer K (fst (now s) + ?ms * 1000) s"
    let ?c = "?b\<lparr>tmHeap := (tmHeap s)(nextTimer s \<mapsto> ?t), nextTimer := Suc (nextTimer s), numCreated := numCreated s + 1,
      timers := [nextTimer s], trace := trace ?b @ tr, envIx := ix, errno := e, clockIx := ck, cn_retryMs := nextRetryMs ?ms\<rparr>"
    have ts: "ts = [nextTimer s]" using 2(5) assms(3) by simp
    have "Connector_retry K fd s = Inr ?c" using eq 2(1) ts by (simp add: callE_def connTimer_def)
    moreover have "attempts s ?c" using ab by (cases s) (simp add: attempts_def logged_def afterClose_def)
    moreover have "timerInv X ?c" using 2(2) ts by (simp add: timerInv_def connTimer_def)
    moreover have "\<forall>c \<in> set tr. plain c" using 2(4) by auto
    moreover have "cn_chan ?c = cn_chan s" "chans ?c = chans s" "nextChan ?c = nextChan s" by (simp_all add: afterClose_def)
    ultimately show thesis using on[OF True, of ?c tr] 2(6) assms(5) by simp
  qed
qed

section \<open>Connecting\<close>

text \<open>The channel the connector watches its socket with.\<close>

definition watchChan :: "'t connectorTasks \<Rightarrow> int \<Rightarrow> 't channel" where
  "watchChan K fd = (mkChannel fd False)\<lparr>c_onWrite := Some (cnt_write K), c_onError := Some (cnt_error K),
     c_events := kWriteEvent, c_added := True\<rparr>"

lemma connecting_any:
  fixes s :: "('t, 'z) connector_scheme"
  assumes "curTid s = loopTid s" "cn_chan s = None"
  obtains s' where "connecting K fd s = Inr s'" "attempts s s'" "chans s' = (chans s)(nextChan s \<mapsto> watchChan K fd)"
    "nextChan s' = Suc (nextChan s)" "cn_chan s' = Some (nextChan s)" "cn_status s' = NsConnecting"
    "cn_retryMs s' = cn_retryMs s" "timers s' = timers s" "tmHeap s' = tmHeap s" "nextTimer s' = nextTimer s"
    "trace s' = trace s @ [SysEpollCtl EPOLL_CTL_ADD fd kWriteEvent (nextChan s)]" "clockIx s' = clockIx s"
proof -
  let ?cid = "nextChan s" and ?ch = "(mkChannel fd False)\<lparr>c_onWrite := Some (cnt_write K), c_onError := Some (cnt_error K)\<rparr>"
  let ?s1 = "(logged DEBUG s)\<lparr>cn_status := NsConnecting, nextChan := Suc ?cid, cn_chan := Some ?cid,
     chans := (chans s)(?cid \<mapsto> ?ch\<lparr>c_events := kWriteEvent\<rparr>)\<rparr>"
  have k: "kWriteEvent \<noteq> 0" by (simp add: mask_defs)
  let ?c = "SysEpollCtl EPOLL_CTL_ADD fd kWriteEvent ?cid"
  have ch1: "chans ?s1 ?cid = Some (?ch\<lparr>c_events := kWriteEvent\<rparr>)" by simp
  let ?u = "if a_ret (nextAns ?s1) < 0 then logged ERROR (afterSys ?c ?s1) else afterSys ?c ?s1"
  have u: "EPollPoller_update EPOLL_CTL_ADD ?cid ?s1 = Inr ?u"
    by (simp add: EPollPoller_update_def withChan_def stmt_defs sysRet_eq mkChannel_def)
  let ?t = "?u\<lparr>chans := (chans s)(?cid \<mapsto> watchChan K fd)\<rparr>"
  have "updateChannel ?cid ?s1 = Inr ?t"
    using assms(1) k u by (simp add: updateChannel_def assertInLoopThread_def assertThat_def withChan_def isNoEvent_def
        kNoneEvent_def setAddToPoll_def modChan_def mkChannel_def watchChan_def)
  then have "connecting K fd s = Inr ?t"
    using assms by (simp add: connecting_def Connector_setNetStatus_def upd_def call_def newChannel_def letIn_def
        setWritableCallback_def setErrorCallback_def modChan_def withChan_def enableWriting_def EventLoop_updateChannel_eq mkChannel_def)
  moreover have "attempts s ?t" by (cases s) (simp add: attempts_def logged_def afterSys_def)
  ultimately show thesis
    by (rule that) simp_all
qed

lemma watchChan_simps [simp]: "c_fd (watchChan K fd) = fd" "c_added (watchChan K fd)" "\<not> c_mgmt (watchChan K fd)"
  "c_events (watchChan K fd) = kWriteEvent"
  by (simp_all add: watchChan_def mkChannel_def)

lemma watch_synced:
  fixes s s' :: "('t, 'z) connector_scheme"
  assumes "pollSynced s" "interest (trace s) fd = None" "chans s (nextChan s) = None"
    and "chans s' = (chans s)(nextChan s \<mapsto> watchChan K fd)" "interest (trace s') = (interest (trace s))(fd \<mapsto> (kWriteEvent, nextChan s))"
  shows "pollSynced s'"
proof -
  have "kWriteEvent \<noteq> 0" by (simp add: mask_defs)
  moreover have "c_fd ch \<noteq> fd" if "chans s cid = Some ch" "c_added ch" for cid ch
    using assms(1,2) that by (auto simp: pollSynced_def)
  ultimately show ?thesis using assms unfolding pollSynced_def by auto
qed

text \<open>
  The call of \<^verbatim>\<open>connect\<close>: a socket is opened, and then watched, or closed again with a timer set, or closed.
\<close>

lemma connect_cases:
  fixes s :: "('t, 'z) connector_scheme"
  assumes "curTid s = loopTid s" "timerInv X s" "timers s = []" "cn_retryMs s \<in> retryDelays" "cn_chan s = None" "cn_connFlag s"
    and lev: "g_logLevel s \<le> FATAL"
  obtains (fatal) "connect K s = Inl FatalLog"
  | (trying) fd d tr s' where "0 \<le> fd" "connect K s = Inr s'" "attempts s s'" "chans s' = (chans s)(nextChan s \<mapsto> watchChan K fd)"
      "nextChan s' = Suc (nextChan s)" "cn_chan s' = Some (nextChan s)" "cn_status s' = NsConnecting"
      "cn_retryMs s' = cn_retryMs s" "timers s' = []" "timerInv X s'"
      "trace s' = trace s @ [SysSocket d fd] @ tr @ [SysEpollCtl EPOLL_CTL_ADD fd kWriteEvent (nextChan s)]"
      "\<forall>c \<in> set tr. plain c" "clockIx s \<le> clockIx s'" "tmHeap s' = tmHeap s"
  | (waiting) fd d tr tr' i p t s' where "0 \<le> fd" "connect K s = Inr s'" "attempts s s'" "chans s' = chans s" "nextChan s' = nextChan s"
      "cn_chan s' = None" "cn_status s' = NsDisconnected" "cn_retryMs s' = nextRetryMs (cn_retryMs s)"
      "timers s' = [p]" "timerInv X s'" "tmHeap s' = (tmHeap s)(p \<mapsto> t)" "tm_cb t = cnt_start K" "\<not> repeat t" "clockIx s \<le> i" "i < clockIx s'"
      "tm_expire t = timeAt (clock s) i + cn_retryMs s * 1000"
      "trace s' = trace s @ [SysSocket d fd] @ tr @ [SysClose fd] @ tr'" "\<forall>c \<in> set tr \<union> set tr'. plain c"
  | (given_up) fd d tr s' where "0 \<le> fd" "connect K s = Inr s'" "attempts s s'" "chans s' = chans s" "nextChan s' = nextChan s"
      "cn_chan s' = None" "cn_status s' = cn_status s" "cn_retryMs s' = cn_retryMs s" "timers s' = []" "timerInv X s'"
      "trace s' = trace s @ [SysSocket d fd] @ tr @ [SysClose fd]" "\<forall>c \<in> set tr. plain c" "clockIx s \<le> clockIx s'" "tmHeap s' = tmHeap s"
proof -
  let ?d = "uint (EndPoint_family (cn_peer s))" and ?fd = "a_ret (nextAns s)"
  let ?s1 = "afterSys (SysSocket ?d ?fd) s"
  obtain a st where g: "getSockAddr (cn_peer s) ?s1 = (a, ?s1\<lparr>addrStorage := st\<rparr>)"
    by (rule getSockAddr_ok)
  let ?c = "SysConnect ?fd (passedAddr a)"
  let ?t = "afterSys ?c (?s1\<lparr>addrStorage := st\<rparr>)"
  let ?e = "if a_ret (nextAns (?s1\<lparr>addrStorage := st\<rparr>)) = 0 then 0 else errno ?t"
  have at: "attempts s ?t"
    by (rule attempts_trans[OF attempts_trans[OF attempts_steps(1) attempts_steps(5)] attempts_steps(1)])
  have fatal': "connect K s = Inl FatalLog" if "?fd < 0"
    using that lev by (simp add: connect_def letIn_def callE_def call_def ISocket_createTcpSocket_def sys_eq thenDo_def doIf_def LOG_FATAL)
  have eq: "connect K s = (if ?e \<in> {0, EINPROGRESS, EINTR, EISCONN} then connecting K ?fd ?t
      else if ?e \<in> {EAGAIN, EADDRINUSE, EADDRNOTAVAIL, ECONNREFUSED, ENETUNREACH} then Connector_retry K ?fd ?t
      else block [LOG ERROR, (\<lambda>s. callE (ISocket_close ?fd) (\<lambda>_. Inr) s)] ?t)" if "\<not> ?fd < 0"
    using that g by (simp add: connect_def letIn_def callE_def call_def ISocket_createTcpSocket_def sys_eq sysRet_eq thenDo_def
        doIf_def retF_def ISocket_connect_def)
  show thesis
  proof (cases "?fd < 0")
    case True
    then show thesis using fatal fatal' by blast
  next
    case False
    then have fd: "0 \<le> ?fd" by simp
    note eq = eq[OF False]
    have t: "curTid ?t = loopTid ?t" "timerInv X ?t" "timers ?t = []" "cn_retryMs ?t \<in> retryDelays" "cn_chan ?t = None"
      "cn_connFlag ?t" "chans ?t = chans s" "nextChan ?t = nextChan s" "cn_status ?t = cn_status s" "cn_retryMs ?t = cn_retryMs s"
      "trace ?t = trace s @ [SysSocket ?d ?fd] @ [?c]" "clockIx ?t = clockIx s" "nextTimer ?t = nextTimer s"
      using assms by (simp_all add: timerInv_def)
    consider "?e \<in> {0, EINPROGRESS, EINTR, EISCONN}"
      | "?e \<notin> {0, EINPROGRESS, EINTR, EISCONN}" "?e \<in> {EAGAIN, EADDRINUSE, EADDRNOTAVAIL, ECONNREFUSED, ENETUNREACH}"
      | "?e \<notin> {0, EINPROGRESS, EINTR, EISCONN}" "?e \<notin> {EAGAIN, EADDRINUSE, EADDRNOTAVAIL, ECONNREFUSED, ENETUNREACH}"
      by blast
    then show thesis
    proof cases
      case 1
      obtain s' where s': "connecting K ?fd ?t = Inr s'" "attempts ?t s'" "chans s' = (chans ?t)(nextChan ?t \<mapsto> watchChan K ?fd)"
        "nextChan s' = Suc (nextChan ?t)" "cn_chan s' = Some (nextChan ?t)" "cn_status s' = NsConnecting"
        "cn_retryMs s' = cn_retryMs ?t" "timers s' = timers ?t" "tmHeap s' = tmHeap ?t" "nextTimer s' = nextTimer ?t"
        "trace s' = trace ?t @ [SysEpollCtl EPOLL_CTL_ADD ?fd kWriteEvent (nextChan ?t)]" "clockIx s' = clockIx ?t"
        by (rule connecting_any[OF t(1,5)])
      have "timerInv X s'" using t(2) s'(8-10) by (simp add: timerInv_def)
      then show thesis using trying[OF fd _ attempts_trans[OF at s'(2)], of ?d "[?c]"] eq 1 s' t by simp
    next
      case 2
      then have c: "connect K s = Connector_retry K ?fd ?t" using eq by simp
      show thesis
      proof (cases rule: retry_cases[OF t(1-4) fd, of K])
        case 1
        then show thesis using c fatal by simp
      next
        case (2 s')
        then show thesis using t(6) by simp
      next
        case (3 s' tr)
        let ?p = "nextTimer s" and ?tm = "connTimer K (fst (now ?t) + cn_retryMs ?t * 1000) ?t"
        have r: "cn_chan s' = None" "timers s' = [?p]" "tmHeap s' = (tmHeap s)(?p \<mapsto> ?tm)" "chans s' = chans s" "nextChan s' = nextChan s"
          "cn_retryMs s' = nextRetryMs (cn_retryMs s)" "clockIx s < clockIx s'"
          "trace s' = trace s @ [SysSocket ?d ?fd] @ [?c] @ [SysClose ?fd] @ tr" "\<forall>c \<in> set [?c] \<union> set tr. plain c"
          using 3 t by simp_all
        have tm: "tm_cb ?tm = cnt_start K" "\<not> repeat ?tm" "tm_expire ?tm = timeAt (clock s) (clockIx s) + cn_retryMs s * 1000"
          by (simp_all add: timeAt_now)
        show thesis
          by (rule waiting[OF fd _ attempts_trans[OF at 3(3)] r(4,5,1) 3(7) r(6,2) 3(10) r(3) tm(1,2) order_refl r(7) tm(3) r(8,9)])
            (use c 3(2) in simp)
      qed
    next
      case 3
      let ?u = "afterClose ?fd (logged ERROR ?t)"
      have "connect K s = Inr ?u" using eq 3 by (simp add: callE_def ISocket_close_eq)
      moreover have "attempts s ?u"
        by (rule attempts_trans[OF at attempts_trans[OF attempts_steps(2) attempts_steps(3)]])
      moreover have "chans ?u = chans s" "nextChan ?u = nextChan s" "cn_chan ?u = None" "cn_status ?u = cn_status s"
        "cn_retryMs ?u = cn_retryMs s" "timers ?u = []" "timerInv X ?u" "clockIx ?u = clockIx s" "tmHeap ?u = tmHeap s"
        using assms by (simp_all add: timerInv_def, simp_all add: afterClose_def)
      ultimately show thesis using given_up[OF fd, of ?u ?d "[?c]"] fd by simp
    qed
  qed
qed

section \<open>The timer of an attempt\<close>

text \<open>Only the timers, the clock and the kernel's part of the process differ; no socket was opened, closed or registered.\<close>

definition timerStep :: "('t, 'z) timerq_scheme \<Rightarrow> ('t, 'z) timerq_scheme \<Rightarrow> bool" where
  "timerStep s s' \<longleftrightarrow> (\<exists>tr. trace s' = trace s @ tr \<and> (\<forall>c \<in> set tr. plain c)) \<and>
     s' = s\<lparr>trace := trace s', envIx := envIx s', errno := errno s', logOut := logOut s', clockIx := clockIx s',
       numCreated := numCreated s', tmHeap := tmHeap s', timers := timers s', canceling := canceling s',
       timerWorking := timerWorking s'\<rparr>"

lemma timerStep_trans:
  assumes "timerStep s t" "timerStep t u"
  shows "timerStep s u"
proof -
  obtain tr where "trace t = trace s @ tr" "\<forall>c \<in> set tr. plain c" using assms(1) by (auto simp: timerStep_def)
  moreover obtain tr' where "trace u = trace t @ tr'" "\<forall>c \<in> set tr'. plain c" using assms(2) by (auto simp: timerStep_def)
  ultimately have "\<exists>tr. trace u = trace s @ tr \<and> (\<forall>c \<in> set tr. plain c)" by (intro exI[of _ "tr @ tr'"]) auto
  with assms show ?thesis unfolding timerStep_def by (cases s; cases t; cases u) simp
qed

lemma timerStep_intros [simp]:
  "timerStep s s" "plain c \<Longrightarrow> timerStep s (afterSys c s)" "timerStep s (logged l s)"
  by (cases s; simp add: timerStep_def afterSys_def logged_def)+

lemma timerStep_fields:
  fixes s s' :: "('t, 'z) connector_scheme"
  assumes "timerStep s s'"
  shows "curTid s' = curTid s" "loopTid s' = loopTid s" "env s' = env s" "clock s' = clock s" "tasks s' = tasks s"
    "chans s' = chans s" "nextChan s' = nextChan s" "connHeap s' = connHeap s" "nextConn s' = nextConn s"
    "connector.more s' = connector.more s" "cn_connFlag s' = cn_connFlag s" "cn_status s' = cn_status s"
    "cn_chan s' = cn_chan s" "cn_onNewConn s' = cn_onNewConn s" "cn_retryMs s' = cn_retryMs s" "g_logLevel s' = g_logLevel s"
    "nextTimer s' = nextTimer s"
  using assms unfolding timerStep_def by (cases s; cases s'; simp)+

lemma readTimerfd_step:
  obtains a where "readTimerfd fd s = Inr a" "timerStep s a" "timers a = timers s" "tmHeap a = tmHeap s" "canceling a = canceling s"
    "timerWorking a = timerWorking s" "numCreated a = numCreated s" "clockIx a = clockIx s"
proof (cases "a_ret (nextAns s) = 8")
  case True
  then have "readTimerfd fd s = Inr (afterSys (SysRead fd 8) s)" by (simp add: readTimerfd_def stmt_defs sysRet_eq)
  then show thesis by (rule that) simp_all
next
  case False
  then have "readTimerfd fd s = Inr (logged ERROR (afterSys (SysRead fd 8) s))"
    by (simp add: readTimerfd_def stmt_defs sysRet_eq)
  then show thesis by (rule that) (use timerStep_trans[OF timerStep_intros(2) timerStep_intros(3), of "SysRead fd 8" s ERROR] in simp_all)
qed

lemma rearm_step:
  obtains (fatal) "rearm s = Inl FatalLog"
  | (armed) s' where "rearm s = Inr s'" "timerStep s s'" "timers s' = timers s" "tmHeap s' = tmHeap s" "canceling s' = canceling s"
      "timerWorking s' = timerWorking s" "clockIx s \<le> clockIx s'"
proof (cases "timers s = []")
  case True
  then show thesis using armed[of s] by (simp add: rearm_def)
next
  case False
  obtain sec nsec where ts: "timespecOf (expirationOf (hd (timers s)) s) (fst (now s)) = (sec, nsec)" by force
  let ?t = "afterSys (SysTimerfdSettime (timerFd s) sec nsec) (s\<lparr>clockIx := Suc (clockIx s)\<rparr>)"
  have "timerStep s (s\<lparr>clockIx := Suc (clockIx s)\<rparr>)" by (cases s) (simp add: timerStep_def)
  then have step: "timerStep s ?t" by (rule timerStep_trans) simp
  show thesis
  proof (cases "a_ret (nextAns s) \<noteq> 0 \<and> g_logLevel s \<le> FATAL")
    case True
    then show thesis using fatal False by (simp add: rearm_def resetTimerfd_eq)
  next
    case f: False
    have "rearm s = Inr ?t" using f False ts unfolding rearm_def resetTimerfd_eq by auto
    then show thesis by (rule armed) (use step in simp_all)
  qed
qed

text \<open>What the queue does after the callback of its one timer.\<close>

definition afterCall :: "nat \<Rightarrow> timestamp \<Rightarrow> ('t, 'z) timerq_scheme stmt" where
  "afterCall p t0 = block [upd (\<lambda>s. s\<lparr>timerWorking := False\<rparr>), TimerQueue_reset [p] t0]"

lemma afterCall_ok:
  assumes "timerInv [p] s" "tmHeap s p = Some t" "\<not> repeat t"
  shows "afterCall p t0 s = rearm (s\<lparr>timerWorking := False, tmHeap := (tmHeap s)(p := None)\<rparr>)"
    and "timerInv [] (s\<lparr>timerWorking := False, tmHeap := (tmHeap s)(p := None)\<rparr>)"
proof -
  let ?s = "s\<lparr>timerWorking := False, tmHeap := (tmHeap s)(p := None)\<rparr>"
  show inv: "timerInv [] ?s" by (rule timerInv_heap_other[OF assms(1)]) simp_all
  have "block (map (resetOne t0) [p]) (s\<lparr>timerWorking := False\<rparr>) = Inr ?s"
    using assms(2,3) by (simp add: resetOne_def withTimer_def ifElse_def freeTimer_def)
  then show "afterCall p t0 s = rearm ?s"
    using rearm_eq[OF inv] by (simp add: afterCall_def TimerQueue_reset_def upd_def)
qed

lemma fire_one:
  assumes s: "curTid s = loopTid s" "timerInv [] s" "timers s = [p]" "canceling s = []" and t: "tmHeap s p = Some t"
  obtains (later) s1 where "fst (now s) \<le> tm_expire t" "TimerQueue_handleRead exec s = rearm s1" "timerStep s s1"
      "timers s1 = [p]" "tmHeap s1 = tmHeap s" "canceling s1 = []" "\<not> timerWorking s1" "clockIx s1 = Suc (clockIx s)"
  | (due) s1 where "tm_expire t \<le> fst (now s)"
      "TimerQueue_handleRead exec s = andThen (exec (tm_cb t) s1) (afterCall p (fst (now s)))" "timerStep s s1"
      "timers s1 = []" "tmHeap s1 = tmHeap s" "canceling s1 = []" "timerWorking s1" "clockIx s1 = Suc (clockIx s)"
proof -
  obtain a where a: "readTimerfd (timerFd s) s = Inr a" "timerStep s a" "timers a = timers s" "tmHeap a = tmHeap s"
    "canceling a = canceling s" "timerWorking a = timerWorking s" "numCreated a = numCreated s" "clockIx a = clockIx s"
    by (rule readTimerfd_step)
  let ?t0 = "fst (now s)" and ?d = "a\<lparr>canceling := [], clockIx := Suc (clockIx s)\<rparr>"
  have ca: "clock a = clock s" using a(2) unfolding timerStep_def by (cases s; cases a) simp
  have d: "timerStep s ?d" by (rule timerStep_trans[OF a(2)]) (cases a, simp add: timerStep_def)
  have inv: "timerInv [] ?d" using s(2) a d by (simp add: timerInv_def timerStep_def) (cases s; cases a; simp)
  have nw: "now (a\<lparr>canceling := []\<rparr>) = (?t0, ?d)" using a(8) ca by (simp add: now_def split: prod.split)
  let ?E = "before_bound timerLess (keyIn (tmHeap ?d)) (?t0, numCreated ?d) (timers ?d)"
    and ?F = "from_bound timerLess (keyIn (tmHeap ?d)) (?t0, numCreated ?d) (timers ?d)"
  let ?e = "?d\<lparr>numCreated := numCreated ?d + 1, timers := ?F\<rparr>"
  have key: "keyIn (tmHeap ?d) p = (tm_expire t, tm_id t)" using t a(4) by simp
  let ?w = "?e\<lparr>timerWorking := True\<rparr>"
  have ew: "timerStep s ?w" "timerStep s (?e\<lparr>timerWorking := False\<rparr>)"
    by (rule timerStep_trans[OF d], cases a, simp add: timerStep_def)+
  have eq: "TimerQueue_handleRead exec s = andThen (block (map (runTimer exec) ?E) ?w)
     (block [upd (\<lambda>s. s\<lparr>timerWorking := False\<rparr>), TimerQueue_reset ?E ?t0])"
    using s(1,4) a(1,5) nw getExpired_ok(1)[OF inv, of ?t0]
    by (simp add: TimerQueue_handleRead_def assertInLoopThread_def assertThat_def letIn_def upd_def call_def callE_def)
  show thesis
  proof (cases "timerLess (tm_expire t, tm_id t) (?t0, numCreated ?d)")
    case True
    then have E: "?E = [p]" "?F = []" using s(3) a(3) key by (simp_all add: before_bound_def from_bound_def)
    have le: "tm_expire t \<le> ?t0" using True by (auto simp: timerLess_def split: if_splits)
    have w: "tmHeap ?w p = Some t" using t a(4) by simp
    show thesis
      by (rule due[of ?w, OF le _ ew(1)], unfold eq E(1)) (use E w a(4,5) s(4) in \<open>simp_all add: runTimer_def withTimer_def afterCall_def\<close>)
  next
    case False
    then have E: "?E = []" "?F = [p]" using s(3) a(3) key by (simp_all add: before_bound_def from_bound_def)
    have le: "?t0 \<le> tm_expire t" using False by (auto simp: timerLess_def split: if_splits)
    let ?v = "?e\<lparr>timerWorking := False\<rparr>"
    have v: "timerInv [] ?v" using inv E(2) a(3) s(3) by (simp add: timerInv_def)
    have "TimerQueue_reset [] ?t0 ?v = rearm ?v" using rearm_eq[OF v] by (simp add: TimerQueue_reset_def)
    then show thesis
      by - (rule later[of ?v, OF le _ ew(2)], unfold eq E(1), use E a(4,5) s(4) in \<open>simp_all add: upd_def\<close>)
  qed
qed

text \<open>\<^verbatim>\<open>startInLoop\<close> is \<^verbatim>\<open>connect\<close> if the connection is wanted.\<close>

lemma startInLoop_eq:
  assumes "curTid s = loopTid s"
  shows "startInLoop K s = (if cn_connFlag s then connect K (logged INFO (logged DEBUG s))
     else Inr (logged DEBUG (logged INFO (logged DEBUG s))))"
  using assms by (simp add: startInLoop_def assertInLoopThread_def assertThat_def ifElse_def)

end
