(* ===== verification/ClientState.thy ===== *)
theory ClientState
  imports Attempt ConnFrame
begin

text \<open>
  A client over its life: TcpClient.cpp with its Connector.cpp, the timers of its retries and the
  TcpConnection.cpp of all the connections it has had. The theory holds what its user sees of it, the
  invariant that ties the parts together, and what keeps that invariant; ClientRun runs it.
\<close>

section \<open>The history of the sockets\<close>

definition everywhere :: "(syscall list \<Rightarrow> syscall \<Rightarrow> bool) \<Rightarrow> syscall list \<Rightarrow> bool" where
  "everywhere P tr \<longleftrightarrow> (\<forall>i < length tr. P (take i tr) (tr ! i))"

lemma everywhere_simps [simp]: "everywhere P []" "everywhere P (tr @ [c]) \<longleftrightarrow> everywhere P tr \<and> P tr c"
  by (auto simp: everywhere_def nth_append less_Suc_eq)

text \<open>
  \<open>honest\<close>: a descriptor the kernel hands out is neither open nor registered. \<open>tidy\<close>: what is closed was open.
\<close>

fun newFd :: "syscall list \<Rightarrow> syscall \<Rightarrow> bool" where
  "newFd tr (SysSocket d fd) \<longleftrightarrow> fd < 0 \<or> fd \<notin> sockets tr \<and> interest tr fd = None"
| "newFd tr (SysAccept d fd) \<longleftrightarrow> fd < 0 \<or> fd \<notin> sockets tr \<and> interest tr fd = None"
| "newFd tr c \<longleftrightarrow> True"

fun openFd :: "syscall list \<Rightarrow> syscall \<Rightarrow> bool" where
  "openFd tr (SysClose fd) \<longleftrightarrow> fd \<in> sockets tr"
| "openFd tr c \<longleftrightarrow> True"

definition honest :: "syscall list \<Rightarrow> bool" where
  "honest = everywhere newFd"

definition tidy :: "syscall list \<Rightarrow> bool" where
  "tidy = everywhere openFd"

lemma history_simps [simp]:
  "honest []" "tidy []" "honest (tr @ [c]) \<longleftrightarrow> honest tr \<and> newFd tr c" "tidy (tr @ [c]) \<longleftrightarrow> tidy tr \<and> openFd tr c"
  by (simp_all add: honest_def tidy_def)

lemma history_same:
  "\<forall>c \<in> set tr. plain c \<or> isCtl c \<Longrightarrow> honest (tr0 @ tr) = honest tr0 \<and> tidy (tr0 @ tr) = tidy tr0"
proof (induction tr rule: rev_induct)
  case (snoc c tr)
  then have "honest (tr0 @ tr) = honest tr0" "tidy (tr0 @ tr) = tidy tr0" "plain c \<or> isCtl c" by simp_all
  moreover have "newFd tr' c" "openFd tr' c" for tr' using \<open>plain c \<or> isCtl c\<close> by (cases c; simp)+
  ultimately have "honest ((tr0 @ tr) @ [c]) = honest tr0" "tidy ((tr0 @ tr) @ [c]) = tidy tr0"
    unfolding history_simps by simp_all
  then show ?case by simp
qed simp

text \<open>A call that opens or closes, with plain calls after it.\<close>

lemma history_one:
  assumes "\<forall>x \<in> set tr. plain x"
  shows "honest (tr0 @ c # tr) \<longleftrightarrow> honest tr0 \<and> newFd tr0 c" "tidy (tr0 @ c # tr) \<longleftrightarrow> tidy tr0 \<and> openFd tr0 c"
    "sockets (tr0 @ c # tr) = socketStep (sockets tr0) c" "interest (tr0 @ c # tr) = interestStep (interest tr0) c"
proof -
  have *: "tr0 @ c # tr = (tr0 @ [c]) @ tr" by simp
  show "honest (tr0 @ c # tr) \<longleftrightarrow> honest tr0 \<and> newFd tr0 c" "tidy (tr0 @ c # tr) \<longleftrightarrow> tidy tr0 \<and> openFd tr0 c"
    using history_same[of tr "tr0 @ [c]"] assms unfolding * by simp_all
  show "sockets (tr0 @ c # tr) = socketStep (sockets tr0) c"
    using sockets_same[of tr "tr0 @ [c]"] assms unfolding * by simp
  show "interest (tr0 @ c # tr) = interestStep (interest tr0) c"
    using interest_plain[of tr "tr0 @ [c]"] assms unfolding * by simp
qed

text \<open>The three things that happen to a socket of the connector: it is opened and watched, opened and closed, or closed.\<close>

lemma history_watched:
  assumes "t = tr0 @ [SysSocket d fd] @ tr @ [SysEpollCtl EPOLL_CTL_ADD fd ev i]" "\<forall>x \<in> set tr. plain x" "0 \<le> fd"
  shows "honest t \<longleftrightarrow> honest tr0 \<and> fd \<notin> sockets tr0 \<and> interest tr0 fd = None" "tidy t = tidy tr0"
    "sockets t = insert fd (sockets tr0)" "interest t = (interest tr0)(fd \<mapsto> (ev, i))"
proof -
  have *: "t = (tr0 @ SysSocket d fd # tr) @ [SysEpollCtl EPOLL_CTL_ADD fd ev i]" using assms(1) by simp
  note h = history_one[OF assms(2), of tr0 "SysSocket d fd"]
  show "honest t \<longleftrightarrow> honest tr0 \<and> fd \<notin> sockets tr0 \<and> interest tr0 fd = None" "tidy t = tidy tr0"
    "sockets t = insert fd (sockets tr0)" "interest t = (interest tr0)(fd \<mapsto> (ev, i))"
    using h assms(3) unfolding * by (simp_all only: history_simps sockets_simps interest_snoc) (simp_all add: interestStep_def)
qed

lemma history_dropped:
  assumes "t = tr0 @ [SysSocket d fd] @ tr @ [SysClose fd] @ tr'" "\<forall>x \<in> set tr \<union> set tr'. plain x" "0 \<le> fd"
  shows "honest t \<longleftrightarrow> honest tr0 \<and> fd \<notin> sockets tr0 \<and> interest tr0 fd = None" "tidy t = tidy tr0"
    "sockets t = sockets tr0 - {fd}" "interest t = interest tr0"
proof -
  have *: "t = (tr0 @ SysSocket d fd # tr) @ SysClose fd # tr'" using assms(1) by simp
  have "\<forall>x \<in> set tr. plain x" "\<forall>x \<in> set tr'. plain x" using assms(2) by auto
  note h = history_one[OF this(1), of tr0 "SysSocket d fd"] and h' = history_one[OF this(2), of "tr0 @ SysSocket d fd # tr" "SysClose fd"]
  show "honest t \<longleftrightarrow> honest tr0 \<and> fd \<notin> sockets tr0 \<and> interest tr0 fd = None" "tidy t = tidy tr0"
    "sockets t = sockets tr0 - {fd}" "interest t = interest tr0"
    using h assms(3) unfolding * h' by (auto simp: interestStep_def)
qed

lemma history_closed:
  assumes "t = tr0 @ SysClose fd # tr" "\<forall>x \<in> set tr. plain x"
  shows "honest t = honest tr0" "tidy t \<longleftrightarrow> tidy tr0 \<and> fd \<in> sockets tr0" "sockets t = sockets tr0 - {fd}"
    "interest t = interest tr0"
  using history_one[OF assms(2), of tr0 "SysClose fd"] assms(1) by (simp_all add: interestStep_def)

lemma tame_history:
  assumes "tame s t"
  shows "honest (trace t) = honest (trace s)" "tidy (trace t) = tidy (trace s)"
  using assms history_same by (auto simp: tame_def)

section \<open>What the user of a client sees\<close>

text \<open>At rest, trying on a descriptor, waiting until a time before it tries again, or connected.\<close>

datatype phase = Idle | Trying int | Waiting timestamp | Up nat int

text \<open>
  The phase, what \<^verbatim>\<open>TcpClient\<close> and \<^verbatim>\<open>Connector\<close> want (\<^verbatim>\<open>_connect\<close> of both, \<^verbatim>\<open>_retry\<close>), the delay of the next
  retry, the connections that have closed, whether a stop is queued, the clock with the number of its readings,
  and whether the kernel has kept to its part.
\<close>

record clientView =
  v_phase :: phase
  v_want :: bool
  v_go :: bool
  v_retry :: bool
  v_delay :: int
  v_gone :: "nat set"
  v_stopping :: bool
  v_clock :: "nat \<Rightarrow> int \<times> int"
  v_reads :: nat
  v_honest :: bool

definition phaseOf :: "('t, 'z) client_scheme \<Rightarrow> phase" where
  "phaseOf s = (case cl_conn s of
       Some c \<Rightarrow> Up c (k_sock (the (connHeap s c)))
     | None \<Rightarrow> (case cn_chan s of
         Some i \<Rightarrow> Trying (c_fd (the (chans s i)))
       | None \<Rightarrow> (case timers s of [] \<Rightarrow> Idle | p # ps \<Rightarrow> Waiting (tm_expire (the (tmHeap s p))))))"

definition clientViewOf :: "'t clientTasks \<Rightarrow> ('t, 'z) client_scheme \<Rightarrow> clientView" where
  "clientViewOf K s = \<lparr>v_phase = phaseOf s, v_want = cl_connFlag s, v_go = cn_connFlag s, v_retry = cl_retry s,
     v_delay = cn_retryMs s, v_gone = {c. connHeap s c \<noteq> None \<and> cl_conn s \<noteq> Some c},
     v_stopping = (cnt_stop (tk_connector K) \<in> set (tasks s)), v_clock = clock s, v_reads = clockIx s,
     v_honest = honest (trace s)\<rparr>"

lemma clientViewOf_simps [simp]:
  "v_phase (clientViewOf K s) = phaseOf s" "v_want (clientViewOf K s) = cl_connFlag s" "v_go (clientViewOf K s) = cn_connFlag s"
  "v_retry (clientViewOf K s) = cl_retry s" "v_delay (clientViewOf K s) = cn_retryMs s"
  "v_gone (clientViewOf K s) = {c. connHeap s c \<noteq> None \<and> cl_conn s \<noteq> Some c}"
  "v_stopping (clientViewOf K s) = (cnt_stop (tk_connector K) \<in> set (tasks s))"
  "v_clock (clientViewOf K s) = clock s" "v_reads (clientViewOf K s) = clockIx s" "v_honest (clientViewOf K s) = honest (trace s)"
  by (simp_all add: clientViewOf_def)

lemma phaseOf_simps:
  "cl_conn s = Some c \<Longrightarrow> connHeap s c = Some k \<Longrightarrow> phaseOf s = Up c (k_sock k)"
  "cl_conn s = None \<Longrightarrow> cn_chan s = Some i \<Longrightarrow> chans s i = Some ch \<Longrightarrow> phaseOf s = Trying (c_fd ch)"
  "cl_conn s = None \<Longrightarrow> cn_chan s = None \<Longrightarrow> timers s = [] \<Longrightarrow> phaseOf s = Idle"
  "cl_conn s = None \<Longrightarrow> cn_chan s = None \<Longrightarrow> timers s = [p] \<Longrightarrow> tmHeap s p = Some t \<Longrightarrow> phaseOf s = Waiting (tm_expire t)"
  by (simp_all add: phaseOf_def)

lemma phaseOf_same:
  "cl_conn t = cl_conn s \<Longrightarrow> connHeap t = connHeap s \<Longrightarrow> cn_chan t = cn_chan s \<Longrightarrow> chans t = chans s \<Longrightarrow>
     timers t = timers s \<Longrightarrow> tmHeap t = tmHeap s \<Longrightarrow> phaseOf t = phaseOf s"
  by (simp add: phaseOf_def split: option.split list.split)

section \<open>The invariant\<close>

text \<open>What the client is set up with: its callbacks, and the tasks its user may queue for a connection.\<close>

record 't clientUse =
  u_onConn :: "nat \<Rightarrow> bool \<Rightarrow> 't"
  u_onMsg :: "(nat \<Rightarrow> 't) option"
  u_onWrite :: "(nat \<Rightarrow> 't) option"
  u_user :: "nat \<Rightarrow> 't set"

definition setUp :: "'t clientUse \<Rightarrow> 't clientTasks \<Rightarrow> ('t, 'z) client_scheme \<Rightarrow> bool" where
  "setUp U K s \<longleftrightarrow> curTid s = loopTid s \<and> g_logLevel s \<le> FATAL \<and> cl_alive s \<and> cl_onConn s = Some (u_onConn U) \<and>
     cl_onMsg s = u_onMsg U \<and> cl_onWrite s = u_onWrite U \<and> cn_onNewConn s = Some (tk_newConn K) \<and>
     cn_retryMs s \<in> retryDelays"

text \<open>The only timer is that of a retry; \<open>X\<close> are the timers being handled.\<close>

definition timerOk :: "'t clientTasks \<Rightarrow> nat list \<Rightarrow> ('t, 'z) client_scheme \<Rightarrow> bool" where
  "timerOk K X s \<longleftrightarrow> timerInv X s \<and> canceling s = [] \<and>
     (timers s = [] \<or> (\<exists>p t. timers s = [p] \<and> tmHeap s p = Some t \<and> tm_cb t = cnt_start (tk_connector K) \<and> \<not> repeat t))"

text \<open>While it tries, the connector has its channel, and there is neither a timer nor a connection.\<close>

definition chanOk :: "'t clientTasks \<Rightarrow> ('t, 'z) client_scheme \<Rightarrow> bool" where
  "chanOk K s \<longleftrightarrow> (cn_status s = NsConnecting \<longleftrightarrow> cn_chan s \<noteq> None) \<and> (\<forall>i ch. chans s i = Some ch \<longrightarrow> i < nextChan s) \<and>
     (\<forall>i. cn_chan s = Some i \<longrightarrow> cn_connFlag s \<and> timers s = [] \<and> cl_conn s = None \<and>
        (\<exists>fd \<ge> 0. chans s i = Some (watchChan (tk_connector K) fd)))"

definition dialled :: "'t clientUse \<Rightarrow> 't clientTasks \<Rightarrow> nat \<Rightarrow> 't conn \<Rightarrow> bool" where
  "dialled U K c k \<longleftrightarrow> k_onConn k = Some (u_onConn U) \<and> k_onMsg k = u_onMsg U \<and> k_onWrite k = u_onWrite U \<and>
     k_onClose k = Some (tk_removeByPeer K) \<and> (\<forall>w. u_onWrite U = Some w \<longrightarrow> w c \<in> u_user U c)"

text \<open>
  The connections: at most one is the client's; \<open>d\<close>: it is closing, closed already but for its callbacks. All
  others are closed.
\<close>

definition connsOk :: "'t clientUse \<Rightarrow> 't clientTasks \<Rightarrow> bool \<Rightarrow> ('t, 'z) client_scheme \<Rightarrow> bool" where
  "connsOk U K d s \<longleftrightarrow> (\<forall>c. cl_conn s = Some c \<longrightarrow> connHeap s c \<noteq> None \<and> timers s = []) \<and>
     (\<forall>c k. connHeap s c = Some k \<longrightarrow> c < nextConn s \<and> dialled U K c k \<and> (\<exists>ch. chans s (k_chan k) = Some ch \<and>
        (cl_conn s \<noteq> Some c \<or> d \<longrightarrow> \<not> c_added ch \<and> k_status k = Disconnected))) \<and>
     (\<forall>c e k l. connHeap s c = Some k \<longrightarrow> connHeap s e = Some l \<longrightarrow> k_chan k = k_chan l \<longrightarrow> c = e)"

definition clientTask :: "'t clientUse \<Rightarrow> 't clientTasks \<Rightarrow> ('t, 'z) client_scheme \<Rightarrow> 't \<Rightarrow> bool" where
  "clientTask U K s t \<longleftrightarrow> (\<exists>c. connHeap s c \<noteq> None \<and> (t \<in> u_user U c \<or> t = ct_forceClose (tk_conn K) c \<or>
       t = tk_destroyed K c \<and> cl_conn s \<noteq> Some c)) \<or>
     t = cnt_stop (tk_connector K) \<and> \<not> cl_connFlag s \<and> \<not> cn_connFlag s"

lemma clientTask_mono:
  assumes "clientTask U K s x" "\<And>c. connHeap s c \<noteq> None \<Longrightarrow> connHeap t c \<noteq> None"
    and "\<And>c. connHeap s c \<noteq> None \<Longrightarrow> cl_conn s \<noteq> Some c \<Longrightarrow> cl_conn t \<noteq> Some c"
    and "cl_connFlag t = cl_connFlag s" "cn_connFlag t = cn_connFlag s"
  shows "clientTask U K t x"
  using assms unfolding clientTask_def by metis

text \<open>
  The part that rests on the kernel: the registrations agree with the channels, the client's connection is
  \<open>connUp\<close>, and the open sockets are those of the connections and of the connector, all different.
\<close>

definition watchedFds :: "('t, 'z) connector_scheme \<Rightarrow> int set" where
  "watchedFds s = {fd. \<exists>i ch. cn_chan s = Some i \<and> chans s i = Some ch \<and> c_fd ch = fd}"

definition heldFds :: "('t, 'z) conns_scheme \<Rightarrow> int set" where
  "heldFds s = {fd. \<exists>c k. connHeap s c = Some k \<and> k_sock k = fd}"

definition linked :: "bool \<Rightarrow> ('t, 'z) client_scheme \<Rightarrow> bool" where
  "linked d s \<longleftrightarrow> pollSynced s \<and> (\<forall>c k. \<not> d \<longrightarrow> cl_conn s = Some c \<longrightarrow> connHeap s c = Some k \<longrightarrow> connUp c (k_sock k) s) \<and>
     sockets (trace s) = heldFds s \<union> watchedFds s \<and> heldFds s \<inter> watchedFds s = {} \<and> tidy (trace s) \<and>
     (\<forall>c e k l. connHeap s c = Some k \<longrightarrow> connHeap s e = Some l \<longrightarrow> k_sock k = k_sock l \<longrightarrow> c = e)"

definition clientInv :: "'t clientUse \<Rightarrow> 't clientTasks \<Rightarrow> bool \<Rightarrow> nat list \<Rightarrow> ('t, 'z) client_scheme \<Rightarrow> bool" where
  "clientInv U K d X s \<longleftrightarrow> setUp U K s \<and> timerOk K X s \<and> chanOk K s \<and> connsOk U K d s \<and>
     (\<forall>t \<in> set (tasks s). clientTask U K s t) \<and> (honest (trace s) \<longrightarrow> linked d s)"

lemma heldFds_upd:
  assumes "connHeap t = (connHeap s)(c \<mapsto> k)" "connHeap s c = Some k0" "k_sock k = k_sock k0"
  shows "heldFds t = heldFds s"
proof -
  have "(\<exists>k. connHeap t e = Some k \<and> k_sock k = fd) \<longleftrightarrow> (\<exists>k. connHeap s e = Some k \<and> k_sock k = fd)" for e fd
    using assms by auto
  then show ?thesis by (simp add: heldFds_def)
qed

lemma heldFds_new:
  assumes "connHeap t = (connHeap s)(c \<mapsto> k)" "connHeap s c = None"
  shows "heldFds t = insert (k_sock k) (heldFds s)"
proof -
  have "(\<exists>l. connHeap t e = Some l \<and> k_sock l = fd) \<longleftrightarrow> e = c \<and> fd = k_sock k \<or> (\<exists>l. connHeap s e = Some l \<and> k_sock l = fd)"
    for e fd using assms by auto
  then show ?thesis by (auto simp: heldFds_def)
qed

lemma clientInvD:
  assumes "clientInv U K d X s"
  shows "setUp U K s" "timerOk K X s" "chanOk K s" "connsOk U K d s" "\<And>t. t \<in> set (tasks s) \<Longrightarrow> clientTask U K s t"
    "honest (trace s) \<Longrightarrow> linked d s"
  using assms by (simp_all add: clientInv_def)

lemma connsOkD:
  assumes "connsOk U K d s"
  shows "cl_conn s = Some c \<Longrightarrow> connHeap s c \<noteq> None" "cl_conn s = Some c \<Longrightarrow> timers s = []"
    "connHeap s c = Some k \<Longrightarrow> c < nextConn s" "connHeap s c = Some k \<Longrightarrow> dialled U K c k"
    "connHeap s c = Some k \<Longrightarrow> \<exists>ch. chans s (k_chan k) = Some ch \<and>
       (cl_conn s \<noteq> Some c \<or> d \<longrightarrow> \<not> c_added ch \<and> k_status k = Disconnected)"
    "connHeap s c = Some k \<Longrightarrow> connHeap s e = Some l \<Longrightarrow> k_chan k = k_chan l \<Longrightarrow> c = e"
  using assms unfolding connsOk_def by blast+

lemma client_more:
  fixes s t :: "('t, 'z) client_scheme"
  assumes "conns.more t = conns.more s"
  shows "cn_peer t = cn_peer s" "cn_connFlag t = cn_connFlag s" "cn_status t = cn_status s" "cn_chan t = cn_chan s"
    "cn_onNewConn t = cn_onNewConn s" "cn_retryMs t = cn_retryMs s" "connector.more t = connector.more s"
    "cl_alive t = cl_alive s" "cl_retry t = cl_retry s"
    "cl_connFlag t = cl_connFlag s" "cl_onConn t = cl_onConn s" "cl_onMsg t = cl_onMsg s" "cl_onWrite t = cl_onWrite s"
    "cl_conn t = cl_conn s"
  using assms by (cases s; cases t; simp)+

lemma client_up:
  assumes "clientInv U K False [] s" "honest (trace s)" "cl_conn s = Some c"
  obtains k where "connHeap s c = Some k" "dialled U K c k" "connUp c (k_sock k) s" "phaseOf s = Up c (k_sock k)"
proof -
  obtain k where k: "connHeap s c = Some k" using clientInvD(4)[OF assms(1)] assms(3) by (auto simp: connsOk_def)
  show thesis
    by (rule that[OF k]) (use clientInvD(4,6)[OF assms(1)] assms(2,3) k in \<open>auto simp: connsOk_def linked_def phaseOf_simps\<close>)
qed

section \<open>Work on the client's connection\<close>

text \<open>
  Work on the connection keeps the invariant, and what the user sees: the connection is as open as before, or has
  become one that is closing (\<open>d\<close>).
\<close>

lemma work_inv:
  fixes s t :: "('t, 'z) client_scheme"
  assumes inv: "clientInv U K False [] s" "honest (trace s)" and c: "cl_conn s = Some c"
    and al: "alone Q c s t" and Q: "\<And>x. x \<in> Q \<Longrightarrow> x \<in> u_user U c \<or> x = ct_forceClose (tk_conn K) c" "cnt_stop (tk_connector K) \<notin> Q"
    and kt: "connHeap t c = Some k" and sy: "pollSynced t"
    and ok: "if d then k_status k = Disconnected \<and> (\<exists>ch. chans t (k_chan k) = Some ch \<and> \<not> c_added ch) else connUp c (k_sock k) t"
  shows "clientInv U K d [] t \<and> clientViewOf K t = clientViewOf K s"
proof -
  note i = clientInvD[OF inv(1)]
  have l: "linked False s" by (rule i(6)[OF inv(2)])
  obtain k0 k1 ch0 ch where a: "connHeap s c = Some k0" "sameConn k0 k1" "connHeap t = (connHeap s)(c \<mapsto> k1)"
    "chans s (k_chan k0) = Some ch0" "chans t = (chans s)(k_chan k0 \<mapsto> ch)" "c_fd ch = c_fd ch0"
    "nextConn t = nextConn s" "nextChan t = nextChan s" "curTid t = curTid s"
    "loopTid t = loopTid s" "conns.more t = conns.more s" "tame s t" "set (tasks t) \<subseteq> set (tasks s) \<union> Q"
    by (rule aloneE[OF al]) blast
  note m = client_more[OF a(11)] and f = tame_fields[OF a(12)] and h = tame_history[OF a(12)]
  obtain ts where ts: "tasks t = tasks s @ ts" "set ts \<subseteq> Q" using alone_queued[OF al] by blast
  have kk: "k1 = k" "k_chan k = k_chan k0" "k_sock k = k_sock k0" using a(2,3) kt by (auto simp: sameConn_def)
  have dia: "dialled U K c k" using connsOkD(4)[OF i(4) a(1)] a(2) kk(1) by (simp add: dialled_def sameConn_def)
  have none: "cn_chan s = None" using i(3) c by (auto simp: chanOk_def)
  have old: "k_chan x \<noteq> k_chan k0" "connHeap s e = Some x" if "connHeap t e = Some x" "e \<noteq> c" for e x
    using that a(1,3) connsOkD(6)[OF i(4) _ a(1), of e x] by auto
  have st: "setUp U K t" using i(1) m f a(9,10) by (simp add: setUp_def)
  have tm: "timerOk K [] t" using i(2) m f by (simp add: timerOk_def timerInv_def)
  have ch: "chanOk K t" using i(3) m(3,4) none a(4,5,8) by (auto simp: chanOk_def)
  note ic = connsOkD[OF i(4)]
  have cs: "connsOk U K d t"
    unfolding connsOk_def
  proof (intro conjI allI impI)
    show "cl_conn t = Some e \<Longrightarrow> connHeap t e \<noteq> None" "cl_conn t = Some e \<Longrightarrow> timers t = []" for e
      using ic(1,2)[of e] m(14) f(1) a(3) by auto
    fix e x assume e: "connHeap t e = Some x"
    show "e < nextConn t" using ic(3)[of e] ic(3)[OF a(1)] e a(3,7) by (auto split: if_splits)
    show "dialled U K e x" using ic(4)[of e] e a(3) kk(1) dia by (auto split: if_splits)
    show "\<exists>y. chans t (k_chan x) = Some y \<and> (cl_conn t \<noteq> Some e \<or> d \<longrightarrow> \<not> c_added y \<and> k_status x = Disconnected)"
    proof (cases "e = c")
      case True
      then show ?thesis using e kt ok a(5) kk(2) m(14) c by (auto split: if_splits)
    next
      case False
      note o = old[OF e False]
      then show ?thesis using ic(5)[OF o(2)] m(14) c False a(5) by simp
    qed
  next
    fix e e' x y assume x: "connHeap t e = Some x" "connHeap t e' = Some y" "k_chan x = k_chan y"
    show "e = e'"
    proof (cases "e = c \<or> e' = c")
      case True
      then have "k_chan x = k_chan k0" "k_chan y = k_chan k0" using x kk(2) kt by auto
      then show ?thesis using old(1)[OF x(1)] old(1)[OF x(2)] by blast
    next
      case False
      then show ?thesis using old(2)[OF x(1)] old(2)[OF x(2)] ic(6)[OF _ _ x(3)] by blast
    qed
  qed
  have task: "clientTask U K t x" if x: "x \<in> set (tasks t)" for x
  proof (cases "x \<in> set (tasks s)")
    case True
    then show ?thesis using i(5)[OF True] m(2,10,14) a(3) by (auto simp: clientTask_def)
  next
    case False
    then have "x \<in> Q" using x ts by auto
    then show ?thesis using Q(1)[of x] kt by (auto simp: clientTask_def)
  qed
  have held: "heldFds t = heldFds s" "watchedFds t = {}" "watchedFds s = {}"
    using heldFds_upd[OF a(3,1)] kk(1,3) m(4) none by (simp_all add: watchedFds_def)
  have up: "connUp e (k_sock x) t" if "\<not> d" "cl_conn t = Some e" "connHeap t e = Some x" for e x
    using that ok m c kt by auto
  have inj: "e = e'" if "connHeap t e = Some x" "connHeap t e' = Some y" "k_sock x = k_sock y" for e e' x y
  proof -
    have "\<exists>x'. connHeap s e = Some x' \<and> k_sock x' = k_sock x" "\<exists>y'. connHeap s e' = Some y' \<and> k_sock y' = k_sock y"
      using that(1,2) a(1,3) kk by (auto split: if_splits)
    then show ?thesis using l that(3) by (auto simp: linked_def)
  qed
  have "linked d t" unfolding linked_def using l sy held f(9) h(2) up inj by (auto simp: linked_def)
  then have "clientInv U K d [] t" using st tm ch cs task by (simp add: clientInv_def)
  moreover have "phaseOf t = phaseOf s" using m c a(1) kt kk by (simp add: phaseOf_def)
  then have "clientViewOf K t = clientViewOf K s"
    using m(2,6,9,10,14) f(6,7) h(1) ts Q(2) a(1,3) by (auto simp: clientViewOf_def)
  ultimately show ?thesis by blast
qed

section \<open>Work on nothing in particular\<close>

lemma linked_frame:
  fixes s t :: "('t, 'z) client_scheme"
  assumes "linked d s" "interest (trace t) = interest (trace s)" "sockets (trace t) = sockets (trace s)" "tidy (trace t) = tidy (trace s)"
    and "chans t = chans s" "connHeap t = connHeap s" "curTid t = curTid s" "loopTid t = loopTid s" "cn_chan t = cn_chan s"
    and "cl_conn t = cl_conn s"
  shows "linked d t"
  using assms by (simp add: linked_def pollSynced_def connUp_def heldFds_def watchedFds_def)

lemma inv_ioStep:
  fixes s t :: "('t, 'z) client_scheme"
  assumes inv: "clientInv U K d X s" and io: "ioStep s t" and ok: "\<And>x. x \<in> set (tasks t) \<Longrightarrow> clientTask U K s x"
  shows "clientInv U K d X t" "clientViewOf K t = (clientViewOf K s)\<lparr>v_stopping := cnt_stop (tk_connector K) \<in> set (tasks t)\<rparr>"
proof -
  note i = clientInvD[OF inv]
  obtain tr ix e lo ts where t: "t = s\<lparr>trace := trace s @ tr, envIx := ix, errno := e, logOut := lo, tasks := ts\<rparr>"
    and tr: "\<forall>c \<in> set tr. plain c" using io by (auto simp: ioStep_def)
  have h: "honest (trace s @ tr) = honest (trace s)" "tidy (trace s @ tr) = tidy (trace s)"
    "sockets (trace s @ tr) = sockets (trace s)" "interest (trace s @ tr) = interest (trace s)"
    using tr history_same[of tr] sockets_same[of tr] interest_plain[of tr] by auto
  have "setUp U K t" "timerOk K X t" "chanOk K t" "connsOk U K d t"
    using i(1-4) by (simp_all add: t setUp_def timerOk_def timerInv_def chanOk_def connsOk_def)
  moreover have "clientTask U K t x" if "x \<in> set (tasks t)" for x
    using ok[OF that] by (simp add: t clientTask_def)
  moreover have "linked d t" if "honest (trace t)"
    by (rule linked_frame[OF i(6)]) (use that h in \<open>simp_all add: t\<close>)
  ultimately show "clientInv U K d X t" by (simp add: clientInv_def)
  show "clientViewOf K t = (clientViewOf K s)\<lparr>v_stopping := cnt_stop (tk_connector K) \<in> set (tasks t)\<rparr>"
    using h(1) phaseOf_same[of t s] by (simp add: t clientViewOf_def)
qed

lemma inv_ioSame:
  fixes s t :: "('t, 'z) client_scheme"
  assumes "clientInv U K d X s" "ioStep s t" "tasks t = tasks s"
  shows "clientInv U K d X t" "clientViewOf K t = clientViewOf K s"
  using inv_ioStep[OF assms(1,2)] clientInvD(5)[OF assms(1)] assms(3) by (simp_all add: clientViewOf_def)

lemma inv_logged [simp]: "clientInv U K d X s \<Longrightarrow> clientInv U K d X (logged l s)"
  using inv_ioSame(1)[OF _ ioStep_logged] by simp

lemma view_logged [simp]: "clientViewOf K (logged l s) = clientViewOf K s"
  using phaseOf_same[of "logged l s" s] by (simp add: clientViewOf_def)

lemma inv_queue:
  fixes s :: "('t, 'z) client_scheme"
  assumes inv: "clientInv U K d X s" and t: "clientTask U K s x"
  obtains s' where "queueInLoop x s = Inr s'" "clientInv U K d X s'"
    "clientViewOf K s' = (clientViewOf K s)\<lparr>v_stopping := cnt_stop (tk_connector K) \<in> insert x (set (tasks s))\<rparr>"
proof -
  obtain s' where s': "queueInLoop x s = Inr s'" "ioStep s s'" "tasks s' = tasks s @ [x]"
    by (rule ioStep_queueInLoop) blast
  have "clientTask U K s y" if "y \<in> set (tasks s')" for y
    using that s'(3) t clientInvD(5)[OF inv] by auto
  then show thesis using that[OF s'(1)] inv_ioStep[OF inv s'(2)] s'(3) by simp
qed

section \<open>An attempt to connect\<close>

text \<open>
  What an attempt makes of the view: it ends with the connector trying on some descriptor; or waiting, with the
  timer set to what the clock said at some reading of the attempt and the delay of before, and the next delay
  the longer one; or at rest.
\<close>

definition elsewhere :: "clientView \<Rightarrow> clientView \<Rightarrow> bool" where
  "elsewhere A B \<longleftrightarrow> v_want B = v_want A \<and> v_go B = v_go A \<and> v_retry B = v_retry A \<and> v_gone B = v_gone A \<and>
     v_stopping B = v_stopping A \<and> v_clock B = v_clock A \<and> v_reads A \<le> v_reads B"

definition waits :: "clientView \<Rightarrow> clientView \<Rightarrow> bool" where
  "waits A B \<longleftrightarrow> elsewhere A B \<and> v_delay B = min (2 * v_delay A) 30000 \<and>
     (\<exists>i \<ge> v_reads A. i < v_reads B \<and> v_phase B = Waiting (timeAt (v_clock A) i + v_delay A * 1000))"

definition attempt :: "clientView \<Rightarrow> clientView \<Rightarrow> bool" where
  "attempt A B \<longleftrightarrow> waits A B \<or> elsewhere A B \<and> v_delay B = v_delay A \<and> (v_phase B = Idle \<or> (\<exists>fd. v_phase B = Trying fd))"

lemma nextRetryMs_min: "nextRetryMs ms = min (2 * ms) 30000"
  by (simp add: nextRetryMs_def kMaxRetryMsDelay_def mult.commute)

lemma attempts_more:
  fixes s t :: "('t, 'z) client_scheme"
  assumes "attempts s t"
  shows "cl_alive t = cl_alive s" "cl_retry t = cl_retry s" "cl_connFlag t = cl_connFlag s" "cl_onConn t = cl_onConn s"
    "cl_onMsg t = cl_onMsg s" "cl_onWrite t = cl_onWrite s" "cl_conn t = cl_conn s"
  using attempts_frame(15)[OF assms] by (cases s; cases t; simp)+

text \<open>
  A state with the connector at rest becomes the state after an attempt: the parts an attempt does not touch are as
  before, the others are given.
\<close>

lemma attempt_inv:
  fixes s t :: "('t, 'z) client_scheme"
  assumes inv: "clientInv U K False X s" and rest: "cl_conn s = None" "cn_chan s = None" "timers s = []"
    and at: "attempts s t" and tm: "timerOk K X t" and ch: "chanOk K t" and del: "cn_retryMs t \<in> retryDelays"
    and old: "\<And>i. i < nextChan s \<Longrightarrow> chans t i = chans s i" and lk: "honest (trace t) \<Longrightarrow> linked False t"
    and reads: "clockIx s \<le> clockIx t"
  shows "clientInv U K False X t" "elsewhere (clientViewOf K s) (clientViewOf K t)"
proof -
  note i = clientInvD[OF inv] and f = attempts_frame[OF at] and m = attempts_more[OF at]
  have "setUp U K t" using i(1) f m del by (simp add: setUp_def)
  moreover have "connsOk U K False t" unfolding connsOk_def
  proof (intro conjI allI impI)
    fix c k assume c: "connHeap t c = Some k"
    then have c: "connHeap s c = Some k" using f(10) by simp
    obtain x where x: "chans s (k_chan k) = Some x" "\<not> c_added x" "k_status k = Disconnected"
      using connsOkD(5)[OF i(4) c] rest(1) by auto
    then have "chans t (k_chan k) = Some x" using old[of "k_chan k"] i(3) by (auto simp: chanOk_def)
    then show "\<exists>y. chans t (k_chan k) = Some y \<and> (cl_conn t \<noteq> Some c \<or> False \<longrightarrow> \<not> c_added y \<and> k_status k = Disconnected)"
      using x by auto
    show "c < nextConn t" "dialled U K c k" using connsOkD(3,4)[OF i(4) c] f(11) by simp_all
  next
    show "connHeap t c = Some k \<Longrightarrow> connHeap t e = Some l \<Longrightarrow> k_chan k = k_chan l \<Longrightarrow> c = e" for c e k l
      using connsOkD(6)[OF i(4), of c k e l] f(10) by simp
  qed (use m(7) rest(1) in simp_all)
  moreover have "clientTask U K t x" if "x \<in> set (tasks t)" for x
    using i(5)[of x] that f(5,10,12) m(3,7) by (simp add: clientTask_def)
  ultimately show "clientInv U K False X t" using tm ch lk by (simp add: clientInv_def)
  show "elsewhere (clientViewOf K s) (clientViewOf K t)"
    using f(4,5,10,12) m(2,3,7) reads by (simp add: elsewhere_def)
qed

lemma connect_inv:
  fixes s :: "('t, 'z) client_scheme"
  assumes inv: "clientInv U K False X s" and rest: "cl_conn s = None" "cn_chan s = None" "timers s = []" and go: "cn_connFlag s"
  obtains (fatal) "connect (tk_connector K) s = Inl FatalLog"
  | (tried) t where "connect (tk_connector K) s = Inr t" "clientInv U K False X t" "attempt (clientViewOf K s) (clientViewOf K t)"
      "attempts s t" "\<forall>q \<in> set X. tmHeap t q = tmHeap s q"
proof -
  note i = clientInvD[OF inv]
  let ?KC = "tk_connector K"
  have s: "curTid s = loopTid s" "timerInv X s" "cn_retryMs s \<in> retryDelays" "g_logLevel s \<le> FATAL" "canceling s = []"
    using i(1,2) by (simp_all add: setUp_def timerOk_def)
  have ns: "cn_status s \<noteq> NsConnecting" "\<And>i ch. chans s i = Some ch \<Longrightarrow> i < nextChan s" using i(3) rest(2) by (auto simp: chanOk_def)
  have w: "watchedFds s = {}" using rest(2) by (simp add: watchedFds_def)
  have del: "nextRetryMs (cn_retryMs s) \<in> retryDelays" by (rule nextRetryMs_delays[OF s(3)])
  have same: "linked False t" if t: "attempts s t" "chans t = chans s" "cn_chan t = None" "interest (trace t) = interest (trace s)"
      "tidy (trace t) = tidy (trace s)" "sockets (trace t) = sockets (trace s) - {fd}" "fd \<notin> sockets (trace s)" "honest (trace s)" for t fd
    by (rule linked_frame[OF i(6)[OF t(8)] t(4)])
      (use t attempts_frame[OF t(1)] attempts_more[OF t(1)] rest(2) in simp_all)
  show thesis
  proof (cases rule: connect_cases[OF s(1,2) rest(3) s(3) rest(2) go s(4), of ?KC])
    case 1
    then show thesis by (rule fatal)
  next
    case (2 fd d tr t)
    note f = attempts_frame[OF 2(3)] attempts_more[OF 2(3)] and h = history_watched[OF 2(11,12,1)]
    have "linked False t" if "honest (trace t)"
    proof -
      have l: "linked False s" "fd \<notin> sockets (trace s)" "interest (trace s) fd = None" using h(1) that i(6) by auto
      have "pollSynced t" by (rule watch_synced[OF _ l(3) _ 2(4) h(4)]) (use l(1) ns(2)[of "nextChan s"] in \<open>auto simp: linked_def\<close>)
      moreover have "watchedFds t = {fd}" using 2(4,6) by (simp add: watchedFds_def)
      moreover have "heldFds t = heldFds s" using f(10) by (simp add: heldFds_def)
      ultimately show ?thesis using l w h(2,3) f(10) f(24) rest(1) by (auto simp: linked_def)
    qed
    moreover have "timerOk K X t" "chanOk K t"
      using 2 f s(5) rest ns go by (auto simp: timerOk_def chanOk_def less_Suc_eq)
    moreover have "cn_retryMs t \<in> retryDelays" "\<And>i. i < nextChan s \<Longrightarrow> chans t i = chans s i" using 2(4,8) s(3) by simp_all
    ultimately have t: "clientInv U K False X t" "elsewhere (clientViewOf K s) (clientViewOf K t)"
      using attempt_inv[OF inv rest 2(3) _ _ _ _ _ 2(13)] by blast+
    have "phaseOf t = Trying fd" using phaseOf_simps(2)[of t "nextChan s" "watchChan ?KC fd"] 2(4,6) f(24) rest(1) by simp
    then have "attempt (clientViewOf K s) (clientViewOf K t)" using t(2) 2(8) by (simp add: attempt_def)
    then show thesis using tried[OF 2(2) t(1) _ 2(3)] 2(14) by simp
  next
    case (3 fd d tr tr' j p tm t)
    note f = attempts_frame[OF 3(3)] attempts_more[OF 3(3)] and h = history_dropped[OF 3(17,18,1)]
    have p: "p \<notin> set X" using 3(9,10) by (simp add: timerInv_def)
    have "linked False t" if "honest (trace t)" using same[OF 3(3,4,6) h(4,2,3)] that h(1) by blast
    moreover have "timerOk K X t" "chanOk K t"
      using 3 f s(5) rest ns by (auto simp: timerOk_def chanOk_def)
    moreover have "cn_retryMs t \<in> retryDelays" "\<And>i. i < nextChan s \<Longrightarrow> chans t i = chans s i" using 3(4,8) del by simp_all
    ultimately have t: "clientInv U K False X t" "elsewhere (clientViewOf K s) (clientViewOf K t)"
      using attempt_inv[OF inv rest 3(3)] 3(14,15) by (meson le_trans less_imp_le)+
    have "phaseOf t = Waiting (tm_expire tm)" using phaseOf_simps(4)[of t p tm] 3(6,9,11) f(24) rest(1) by simp
    then have "waits (clientViewOf K s) (clientViewOf K t)" using t(2) 3(8,14-16) by (auto simp: waits_def nextRetryMs_min)
    then have "attempt (clientViewOf K s) (clientViewOf K t)" by (simp add: attempt_def)
    moreover have "\<forall>q \<in> set X. tmHeap t q = tmHeap s q" using 3(11) p by auto
    ultimately show thesis using tried[OF 3(2) t(1) _ 3(3)] by blast
  next
    case (4 fd d tr t)
    note f = attempts_frame[OF 4(3)] attempts_more[OF 4(3)]
    have "trace t = trace s @ [SysSocket d fd] @ tr @ [SysClose fd] @ []" "\<forall>x \<in> set tr \<union> set []. plain x" using 4(11,12) by simp_all
    note h = history_dropped[OF this 4(1)]
    have "linked False t" if "honest (trace t)" using same[OF 4(3,4,6) h(4,2,3)] that h(1) by blast
    moreover have "timerOk K X t" "chanOk K t"
      using 4 f s(5) rest ns by (auto simp: timerOk_def chanOk_def)
    moreover have "cn_retryMs t \<in> retryDelays" "\<And>i. i < nextChan s \<Longrightarrow> chans t i = chans s i" using 4(4,8) s(3) by simp_all
    ultimately have t: "clientInv U K False X t" "elsewhere (clientViewOf K s) (clientViewOf K t)"
      using attempt_inv[OF inv rest 4(3) _ _ _ _ _ 4(13)] by blast+
    have "phaseOf t = Idle" using phaseOf_simps(3)[of t] 4(6,9) f(24) rest(1) by simp
    then have "attempt (clientViewOf K s) (clientViewOf K t)" using t(2) 4(8) by (simp add: attempt_def)
    then show thesis using tried[OF 4(2) t(1) _ 4(3)] 4(14) by simp
  qed
qed

text \<open>Starting: an attempt if the connection is wanted, nothing otherwise.\<close>

definition starts :: "clientView \<Rightarrow> clientView \<Rightarrow> bool" where
  "starts A B \<longleftrightarrow> (if v_go A then attempt A B else B = A)"

lemma start_inv:
  fixes s :: "('t, 'z) client_scheme"
  assumes inv: "clientInv U K False X s" and rest: "cl_conn s = None" "cn_chan s = None" "timers s = []"
  obtains (fatal) "startInLoop (tk_connector K) s = Inl FatalLog"
  | (started) t where "startInLoop (tk_connector K) s = Inr t" "clientInv U K False X t" "starts (clientViewOf K s) (clientViewOf K t)"
      "attempts s t" "\<forall>q \<in> set X. tmHeap t q = tmHeap s q"
proof -
  let ?a = "logged INFO (logged DEBUG s)"
  have eq: "startInLoop (tk_connector K) s = (if cn_connFlag s then connect (tk_connector K) ?a else Inr (logged DEBUG ?a))"
    by (rule startInLoop_eq) (use clientInvD(1)[OF inv] in \<open>simp add: setUp_def\<close>)
  have a: "clientInv U K False X ?a" "clientViewOf K ?a = clientViewOf K s" using inv by simp_all
  have at: "attempts s ?a" by (rule attempts_trans[OF attempts_steps(2) attempts_steps(2)])
  show thesis
  proof (cases "cn_connFlag s")
    case True
    have r: "cl_conn ?a = None" "cn_chan ?a = None" "timers ?a = []" "cn_connFlag ?a" using rest True by simp_all
    show thesis
    proof (cases rule: connect_inv[OF a(1) r])
      case 1
      then show thesis using fatal eq True by simp
    next
      case (2 t)
      then show thesis using started[of t] eq True attempts_trans[OF at] a(2) by (simp add: starts_def)
    qed
  next
    case False
    then show thesis using started[of "logged DEBUG ?a"] eq a attempts_trans[OF at attempts_steps(2)]
      by (simp add: starts_def)
  qed
qed

end
