(* ===== verification/ClientEvents.thy ===== *)
theory ClientEvents
  imports ClientState
begin

text \<open>
  What can happen to a client: the events of its connection, of the connector's channel and of its timer (TcpClient.cpp,
  Connector.cpp, TcpConnection.cpp and Timer.cpp together), under a contract on the callbacks of the user. Each keeps the
  invariant of ClientState and does to what the user sees what it is for, whatever the kernel answers.
\<close>

section \<open>The contract with the user\<close>

text \<open>A statement that leaves the invariant and the view as they are, from views with \<open>P\<close>.\<close>

definition keepsClient ::
  "'t clientUse \<Rightarrow> 't clientTasks \<Rightarrow> bool \<Rightarrow> (clientView \<Rightarrow> bool) \<Rightarrow> ('t, 'z) client_scheme stmt \<Rightarrow> bool" where
  "keepsClient U K d P f \<longleftrightarrow> (\<forall>A. P A \<longrightarrow> ensures (\<lambda>s. clientInv U K d [] s \<and> clientViewOf K s = A) f
     (\<lambda>s. clientInv U K d [] s \<and> clientViewOf K s = A))"

lemma keepsClientD:
  assumes "keepsClient U K d P f" "clientInv U K d [] s" "P (clientViewOf K s)"
  obtains s' where "f s = Inr s'" "clientInv U K d [] s'" "clientViewOf K s' = clientViewOf K s"
  using assms unfolding keepsClient_def ensures_def by blast

definition isUp :: "nat \<Rightarrow> clientView \<Rightarrow> bool" where
  "isUp c A \<longleftrightarrow> (case v_phase A of Up e fd \<Rightarrow> e = c | _ \<Rightarrow> False)"

lemma isUp_iff: "isUp c A \<longleftrightarrow> (\<exists>fd. v_phase A = Up c fd)"
  by (auto simp: isUp_def split: phase.split)

lemma isUp_view: "isUp c (clientViewOf K s) \<longleftrightarrow> cl_conn s = Some c"
  by (auto simp: isUp_iff phaseOf_def split: option.splits list.splits)

text \<open>
  The callbacks and the user's tasks leave the client as it is; they may send, shut down, or force a close,
  which closes later. A user's task may still be run when its connection is closed. The remaining tokens stand for the member functions
  the code binds. A new connection and a forced close run callbacks of their own (\<open>exec'\<close>).
\<close>

definition userOk ::
  "('t \<Rightarrow> ('t, 'z) client_scheme stmt) \<Rightarrow> 't clientUse \<Rightarrow> 't clientTasks \<Rightarrow> bool" where
  "userOk exec U K \<longleftrightarrow>
     (\<forall>c up d. keepsClient U K d (\<lambda>A. v_honest A \<and> isUp c A) (exec (u_onConn U c up))) \<and>
     (\<forall>m c. u_onMsg U = Some m \<longrightarrow> keepsClient U K False (\<lambda>A. v_honest A \<and> isUp c A) (exec (m c))) \<and>
     (\<forall>c. \<forall>t \<in> u_user U c. keepsClient U K False (\<lambda>A. v_honest A \<and> isUp c A \<or> c \<in> v_gone A) (exec t)) \<and>
     (\<forall>c w. u_onWrite U = Some w \<longrightarrow> w c \<in> u_user U c)"

definition closesClient ::
  "('t \<Rightarrow> ('t, 'z) client_scheme stmt) \<Rightarrow> 't clientUse \<Rightarrow> 't clientTasks \<Rightarrow> nat \<Rightarrow> bool" where
  "closesClient exec U K c \<longleftrightarrow> keepsClient U K True (\<lambda>A. v_honest A \<and> isUp c A) (exec (u_onConn U c False)) \<and>
     exec (tk_removeByPeer K c) = removeConnectionByPeer K c"

definition boundOk ::
  "('t \<Rightarrow> ('t, 'z) client_scheme stmt) \<Rightarrow> 't clientUse \<Rightarrow> 't clientTasks \<Rightarrow> bool" where
  "boundOk exec U K \<longleftrightarrow> (\<forall>c. exec (tk_removeByPeer K c) = removeConnectionByPeer K c) \<and>
     (\<forall>fd. \<exists>exec' owned. exec (tk_newConn K fd) = TcpClient_newConnection exec' K owned fd \<and>
        (\<forall>c. exec' (u_onConn U c True) = exec (u_onConn U c True))) \<and>
     (\<forall>c. \<exists>exec'. exec (ct_forceClose (tk_conn K) c) = forceCloseInLoop exec' c \<and> closesClient exec' U K c) \<and>
     (\<forall>c. \<exists>exec'. exec (tk_destroyed K c) = connectionDestroyed exec' c) \<and>
     exec (cnt_start (tk_connector K)) = startInLoop (tk_connector K) \<and>
     exec (cnt_stop (tk_connector K)) = stopInLoop (tk_connector K)"

text \<open>The task that stops the connector is no other task.\<close>

definition stopAlone :: "'t clientUse \<Rightarrow> 't clientTasks \<Rightarrow> bool" where
  "stopAlone U K \<longleftrightarrow> (\<forall>c. cnt_stop (tk_connector K) \<notin> u_user U c \<and> cnt_stop (tk_connector K) \<noteq> tk_destroyed K c \<and>
     cnt_stop (tk_connector K) \<noteq> ct_forceClose (tk_conn K) c)"

definition wellUsed ::
  "('t \<Rightarrow> ('t, 'z) client_scheme stmt) \<Rightarrow> 't clientUse \<Rightarrow> 't clientTasks \<Rightarrow> bool" where
  "wellUsed exec U K \<longleftrightarrow> userOk exec U K \<and> boundOk exec U K \<and> stopAlone U K"

lemma wellUsedD:
  assumes "wellUsed exec U K"
  shows "keepsClient U K d (\<lambda>A. v_honest A \<and> isUp c A) (exec (u_onConn U c up))"
    "u_onMsg U = Some m \<Longrightarrow> keepsClient U K False (\<lambda>A. v_honest A \<and> isUp c A) (exec (m c))"
    "t \<in> u_user U c \<Longrightarrow> keepsClient U K False (\<lambda>A. v_honest A \<and> isUp c A \<or> c \<in> v_gone A) (exec t)"
    "u_onWrite U = Some w \<Longrightarrow> w c \<in> u_user U c" "closesClient exec U K c"
    "\<exists>exec' owned. exec (tk_newConn K fd) = TcpClient_newConnection exec' K owned fd \<and>
       (\<forall>c. exec' (u_onConn U c True) = exec (u_onConn U c True))"
    "\<exists>exec'. exec (ct_forceClose (tk_conn K) c) = forceCloseInLoop exec' c \<and> closesClient exec' U K c"
    "\<exists>exec'. exec (tk_destroyed K c) = connectionDestroyed exec' c"
    "exec (cnt_start (tk_connector K)) = startInLoop (tk_connector K)"
    "exec (cnt_stop (tk_connector K)) = stopInLoop (tk_connector K)" "stopAlone U K"
  using assms by (simp_all add: wellUsed_def userOk_def boundOk_def closesClient_def)

section \<open>Losing the connection\<close>

definition lost :: "nat \<Rightarrow> clientView \<Rightarrow> clientView \<Rightarrow> bool" where
  "lost c A B \<longleftrightarrow> (let A' = A\<lparr>v_phase := Idle, v_gone := insert c (v_gone A)\<rparr> in
     if v_retry A \<and> v_want A then attempt (A'\<lparr>v_go := True, v_delay := 500\<rparr>) B else B = A')"

lemma client_removes:
  fixes s :: "('t, 'z) client_scheme"
  assumes inv: "clientInv U K True [] s" and c: "cl_conn s = Some c" and al: "stopAlone U K"
  obtains (fatal) "removeConnectionByPeer K c s = Inl FatalLog"
  | (removed) t where "removeConnectionByPeer K c s = Inr t" "clientInv U K False [] t" "lost c (clientViewOf K s) (clientViewOf K t)"
proof -
  note i = clientInvD[OF inv]
  note ic = connsOkD[OF i(4)]
  let ?a = "s\<lparr>cl_conn := None\<rparr>"
  have none: "cn_chan s = None" "timers s = []" "connHeap s c \<noteq> None" using i(3) ic(1,2) c by (auto simp: chanOk_def)
  have ph: "phaseOf ?a = Idle" using none by (simp add: phaseOf_simps)
  have st: "setUp U K ?a" "timerOk K [] ?a" "chanOk K ?a"
    using i(1-3) none by (simp_all add: setUp_def timerOk_def timerInv_def chanOk_def)
  have cs: "connsOk U K False ?a" unfolding connsOk_def
  proof (intro conjI allI impI)
    fix e k assume e: "connHeap ?a e = Some k"
    then have e: "connHeap s e = Some k" by simp
    show "\<exists>ch. chans ?a (k_chan k) = Some ch \<and> (cl_conn ?a \<noteq> Some e \<or> False \<longrightarrow> \<not> c_added ch \<and> k_status k = Disconnected)"
      using ic(5)[OF e] by simp
    show "e < nextConn ?a" "dialled U K e k" using ic(3,4)[OF e] by simp_all
  next
    show "connHeap ?a e = Some k \<Longrightarrow> connHeap ?a f = Some l \<Longrightarrow> k_chan k = k_chan l \<Longrightarrow> e = f" for e f k l
      using ic(6)[of e k f l] by simp
  qed simp_all
  have tk: "clientTask U K ?a x" if "x \<in> set (tasks ?a)" for x using i(5)[of x] that by (auto simp: clientTask_def)
  have "linked False ?a" if "honest (trace ?a)"
    using i(6) that by (simp add: linked_def pollSynced_def heldFds_def watchedFds_def)
  then have a: "clientInv U K False [] ?a" using st cs tk unfolding clientInv_def by blast
  have va: "clientViewOf K ?a = (clientViewOf K s)\<lparr>v_phase := Idle, v_gone := insert c (v_gone (clientViewOf K s))\<rparr>"
    using ph none(3) c by (auto simp: clientViewOf_def)
  have "clientTask U K ?a (tk_destroyed K c)" using none(3) by (auto simp: clientTask_def)
  then obtain b where b: "queueInLoop (tk_destroyed K c) ?a = Inr b" "clientInv U K False [] b"
    "clientViewOf K b = (clientViewOf K ?a)\<lparr>v_stopping := cnt_stop (tk_connector K) \<in> insert (tk_destroyed K c) (set (tasks ?a))\<rparr>"
    by (rule inv_queue[OF a])
  have vb: "clientViewOf K b = clientViewOf K ?a"
    using b(3) al by (simp add: stopAlone_def clientViewOf_def)
  have fb: "cl_conn b = None" "cn_chan b = None" "timers b = []" "cl_retry b = cl_retry s" "cl_connFlag b = cl_connFlag s"
  proof -
    obtain b' where b': "queueInLoop (tk_destroyed K c) ?a = Inr b'" "ioStep ?a b'" by (rule ioStep_queueInLoop)
    then have "ioStep ?a b" using b(1) by simp
    then show "cl_conn b = None" "cn_chan b = None" "timers b = []" "cl_retry b = cl_retry s" "cl_connFlag b = cl_connFlag s"
      using none by (auto simp: ioStep_def)
  qed
  let ?go = "cl_retry s \<and> cl_connFlag s" and ?KC = "tk_connector K"
  let ?d = "(logged DEBUG b)\<lparr>cn_status := NsDisconnected, cn_retryMs := kRetryMsDelay, cn_connFlag := True\<rparr>"
  have eq: "removeConnectionByPeer K c s = (if ?go then startInLoop ?KC ?d else Inr b)"
    using i(1) c b(1) fb(4,5) clientInvD(1)[OF b(2)]
    by (simp add: removeConnectionByPeer_def withClient_def ifElse_def assertThat_def upd_def doIf_def setUp_def
        Connector_restart_def assertInLoopThread_def Connector_setNetStatus_def)
  show thesis
  proof (cases ?go)
    case False
    then show thesis using removed[of b] eq b(2) va vb by (auto simp: lost_def)
  next
    case go: True
    note j = clientInvD[OF b(2)]
    have "setUp U K ?d" "timerOk K [] ?d" "chanOk K ?d" "connsOk U K False ?d"
      using j(1-4) fb by (simp_all add: setUp_def timerOk_def timerInv_def chanOk_def connsOk_def kRetryMsDelay_def retryDelays_def)
    moreover have "clientTask U K ?d x" if "x \<in> set (tasks ?d)" for x
      using j(5)[of x] that go fb(5) by (auto simp: clientTask_def)
    moreover have "linked False ?d" if "honest (trace ?d)"
      by (rule linked_frame[OF j(6)]) (use that in simp_all)
    ultimately have d: "clientInv U K False [] ?d" unfolding clientInv_def by blast
    have vd: "clientViewOf K ?d = (clientViewOf K b)\<lparr>v_go := True, v_delay := kRetryMsDelay\<rparr>"
      using phaseOf_same[of ?d b] by (simp add: clientViewOf_def)
    have r: "cl_conn ?d = None" "cn_chan ?d = None" "timers ?d = []" using fb by simp_all
    show thesis
    proof (cases rule: start_inv[OF d r])
      case 1
      then show thesis using fatal eq go by simp
    next
      case (2 t)
      have "lost c (clientViewOf K s) (clientViewOf K t)"
        using 2(3) go va vb unfolding vd by (simp add: starts_def lost_def kRetryMsDelay_def)
      then show thesis using removed[of t] eq go 2(1,2) by simp
    qed
  qed
qed

lemma client_closes:
  fixes s :: "('t, 'z) client_scheme"
  assumes cl: "closesClient exec U K c" "stopAlone U K" and inv: "clientInv U K False [] s" "honest (trace s)" and c: "cl_conn s = Some c"
  obtains (fatal) "handleClose exec c s = Inl FatalLog"
  | (closed) t where "handleClose exec c s = Inr t" "clientInv U K False [] t" "lost c (clientViewOf K s) (clientViewOf K t)"
proof -
  obtain k where k: "connHeap s c = Some k" "dialled U K c k" "connUp c (k_sock k) s"
    by (rule client_up[OF inv c]) blast
  have cb: "k_onConn k = Some (u_onConn U)" using k(2) by (simp add: dialled_def)
  obtain s1 ch where s1: "handleClose exec c s = andThen (exec (u_onConn U c False) s1) (withConn ''handleClose'' c (\<lambda>k.
       case k_onClose k of None \<Rightarrow> (\<lambda>_. Inl (BadFunctionCall ''_onCloseCb'')) | Some g \<Rightarrow> exec (g c)))"
    "connHeap s1 = (connHeap s)(c \<mapsto> k\<lparr>k_status := Disconnected\<rparr>)" "pollSynced s1"
    "maskStep (s\<lparr>connHeap := (connHeap s)(c \<mapsto> k\<lparr>k_status := Disconnected\<rparr>)\<rparr>) s1"
    "chans s (k_chan k) = Some ch" "chans s1 = (chans s)(k_chan k \<mapsto> ch\<lparr>c_events := 0, c_added := False\<rparr>)"
    by (rule handleClose_ok[OF k(3,1) cb, of exec]) (elim exE conjE, rule that; assumption)
  have m: "nextConn s1 = nextConn s" "nextChan s1 = nextChan s" "curTid s1 = curTid s" "loopTid s1 = loopTid s"
    "conns.more s1 = conns.more s" "tasks s1 = tasks s" "tame s s1"
    using s1(4) by (auto simp: maskStep_def tame_def)
  have al: "alone (u_user U c) c s s1"
    by (rule aloneI[OF k(1) _ s1(2,5,6), where ts = "[]"]) (use k(2) m in \<open>auto simp: sameConn_def dialled_def\<close>)
  have t: "clientInv U K True [] s1" "clientViewOf K s1 = clientViewOf K s"
    using work_inv[OF inv c al, where d = True] s1(2,3,6) cl(2) by (simp_all add: stopAlone_def)
  have up: "v_honest (clientViewOf K s1) \<and> isUp c (clientViewOf K s1)" unfolding t(2) isUp_view using inv(2) c by simp
  obtain s2 where s2: "exec (u_onConn U c False) s1 = Inr s2" "clientInv U K True [] s2" "clientViewOf K s2 = clientViewOf K s1"
    using keepsClientD[OF conjunct1[OF cl(1)[unfolded closesClient_def]] t(1) up] by blast
  have c2: "cl_conn s2 = Some c" using isUp_view[of c K s2] s2(3) up by simp
  obtain k2 where k2: "connHeap s2 c = Some k2" using connsOkD(1)[OF clientInvD(4)[OF s2(2)] c2] by blast
  then have "k_onClose k2 = Some (tk_removeByPeer K)" using connsOkD(4)[OF clientInvD(4)[OF s2(2)]] by (simp add: dialled_def)
  then have eq: "handleClose exec c s = removeConnectionByPeer K c s2"
    using s1(1) s2(1) k2 cl(1) by (simp add: withConn_def closesClient_def)
  show thesis
    by (cases rule: client_removes[OF s2(2) c2 cl(2)]) (use eq s2(3) t(2) fatal closed in auto)
qed

section \<open>The events of the connection\<close>

lemma alone_here:
  fixes s :: "('t, 'z) client_scheme"
  assumes inv: "clientInv U K False [] s" "honest (trace s)" and c: "cl_conn s = Some c" and Q: "u_user U c \<subseteq> Q"
  shows "alone Q c s s"
proof -
  obtain k where k: "connHeap s c = Some k" "dialled U K c k" "connUp c (k_sock k) s" by (rule client_up[OF inv c]) blast
  obtain ch where ch: "chans s (k_chan k) = Some ch" using k(1,3) by (auto simp: connUp_def)
  show ?thesis by (rule aloneI[OF k(1) _ _ ch, where ts = "[]"]) (use k ch Q in \<open>auto simp: sameConn_def dialled_def\<close>)
qed

text \<open>Work that leaves the connection open.\<close>

lemma work_open:
  fixes s t :: "('t, 'z) client_scheme"
  assumes inv: "clientInv U K False [] s" "honest (trace s)" and c: "cl_conn s = Some c" and st: "stopAlone U K"
    and al: "alone (insert (ct_forceClose (tk_conn K) c) (u_user U c)) c s t" and k: "connHeap s c = Some k" and up: "connUp c (k_sock k) t"
  shows "clientInv U K False [] t \<and> clientViewOf K t = clientViewOf K s"
proof -
  obtain k' where k': "connHeap t c = Some k'" "k_sock k' = k_sock k" "pollSynced t" using up by (auto simp: connUp_def)
  show ?thesis
    by (rule work_inv[OF inv c al _ _ k'(1,3)]) (use st up k'(2) in \<open>auto simp: stopAlone_def\<close>)
qed

lemma client_reads:
  fixes s :: "('t, 'z) client_scheme"
  assumes wu: "wellUsed exec U K" and inv: "clientInv U K False [] s" "honest (trace s)" and c: "cl_conn s = Some c"
  obtains (fatal) "TcpConnection_handleRead exec c s = Inl FatalLog"
  | (read) t where "TcpConnection_handleRead exec c s = Inr t" "clientInv U K False [] t"
      "clientViewOf K t = clientViewOf K s \<or> lost c (clientViewOf K s) (clientViewOf K t)"
proof -
  note w = wellUsedD[OF wu]
  obtain k where k: "connHeap s c = Some k" "dialled U K c k" "connUp c (k_sock k) s" by (rule client_up[OF inv c]) blast
  obtain s1 b t where s1: "connUp c (k_sock k) s1" "plainStep s t" "s1 = t\<lparr>connHeap := (connHeap t)(c \<mapsto> k\<lparr>k_in := b\<rparr>)\<rparr>"
    "TcpConnection_handleRead exec c s =
      (case readFdFirst (k_in k) s of
         None \<Rightarrow> Inr (logged ERROR s1)
       | Some xs \<Rightarrow> if xs = [] then handleClose exec c s1
           else case k_onMsg k of None \<Rightarrow> Inr (logged ERROR s1) | Some f \<Rightarrow> exec (f c) s1)"
    using handleRead_cases[OF k(3,1), of exec] by (elim exE conjE) (rule that; assumption)
  have "alone (insert (ct_forceClose (tk_conn K) c) (u_user U c)) c s t"
    by (rule alone.P_kernel[OF alone_here[OF inv c] s1(2)]) blast
  then have al: "alone (insert (ct_forceClose (tk_conn K) c) (u_user U c)) c s s1" unfolding s1(3)
    by (rule alone.P_in) (use plainStep_fields(1)[OF s1(2)] k(1) in simp)
  have i1: "clientInv U K False [] s1" "clientViewOf K s1 = clientViewOf K s"
    using work_open[OF inv c w(11) al k(1) s1(1)] by simp_all
  have h1: "honest (trace s1)" using arg_cong[OF i1(2), of v_honest] inv(2) by simp
  have c1: "cl_conn s1 = Some c" using isUp_view[of c K s1] isUp_view[of c K s] i1(2) c by simp
  show thesis
  proof (cases "readFdFirst (k_in k) s")
    case None
    then show thesis using read[of "logged ERROR s1"] s1(4) i1 by simp
  next
    case (Some xs)
    consider (close) "xs = []" | (silent) "xs \<noteq> []" "k_onMsg k = None" | (msg) m where "xs \<noteq> []" "k_onMsg k = Some m"
      by (cases "k_onMsg k") auto
    then show thesis
    proof cases
      case close
      then have eq: "TcpConnection_handleRead exec c s = handleClose exec c s1" using s1(4) Some by simp
      show thesis
        by (cases rule: client_closes[OF w(5,11) i1(1) h1 c1]) (use eq i1(2) fatal read in auto)
    next
      case silent
      then show thesis using read[of "logged ERROR s1"] s1(4) Some i1 by simp
    next
      case (msg m)
      have "u_onMsg U = Some m" using k(2) msg(2) by (simp add: dialled_def)
      then have kc: "keepsClient U K False (\<lambda>A. v_honest A \<and> isUp c A) (exec (m c))" by (rule w(2))
      have "v_honest (clientViewOf K s1) \<and> isUp c (clientViewOf K s1)" using h1 c1 by (simp add: isUp_view)
      then obtain s' where "exec (m c) s1 = Inr s'" "clientInv U K False [] s'" "clientViewOf K s' = clientViewOf K s1"
        by (rule keepsClientD[OF kc i1(1)])
      then show thesis using read[of s'] s1(4) Some msg i1(2) by simp
    qed
  qed
qed

lemma client_writes:
  fixes s :: "('t, 'z) client_scheme"
  assumes inv: "clientInv U K False [] s" "honest (trace s)" and c: "cl_conn s = Some c" and st: "stopAlone U K"
  obtains t where "TcpConnection_handleWrite c s = Inr t" "clientInv U K False [] t" "clientViewOf K t = clientViewOf K s"
proof -
  obtain k where k: "connHeap s c = Some k" "connUp c (k_sock k) s" by (rule client_up[OF inv c]) blast
  obtain t where t: "TcpConnection_handleWrite c s = Inr t" "connUp c (k_sock k) t" by (rule handleWrite_ok[OF k(2)])
  have "alone (insert (ct_forceClose (tk_conn K) c) (u_user U c)) c s t"
    by (rule yieldsD[OF alone.yields_handleWrite alone_here[OF inv c] t(1)]) blast
  then show thesis using that[OF t(1)] work_open[OF inv c st _ k(1) t(2)] by blast
qed

lemma client_errors:
  fixes s :: "('t, 'z) client_scheme"
  assumes inv: "clientInv U K False [] s" "honest (trace s)" and c: "cl_conn s = Some c"
  obtains t where "TcpConnection_handleError c s = Inr t" "clientInv U K False [] t" "clientViewOf K t = clientViewOf K s"
proof -
  obtain k where k: "connHeap s c = Some k" "connUp c (k_sock k) s" by (rule client_up[OF inv c]) blast
  then obtain ch where ch: "curTid s = loopTid s" "chans s (k_chan k) = Some ch" "c_fd ch = k_sock k"
    by (auto simp: connUp_def)
  let ?t = "afterSys (SysSoError (k_sock k)) s"
  have "TcpConnection_handleError c s = Inr (logged ERROR ?t)"
    using k(1) ch by (simp add: TcpConnection_handleError_def assertInLoopThread_def assertThat_def connFd_def withConn_def
        withChan_def call_def ISocket_getSocketError_def sys_eq stmt_defs)
  moreover have io: "ioStep s ?t" by simp
  ultimately show thesis using that inv_ioSame[OF inv(1) io] inv_logged by simp
qed

text \<open>The user forces a close: the connection stays open until the task is run.\<close>

lemma connUp_disconnecting:
  fixes s :: "('t, 'z) conns_scheme"
  assumes "connUp c fd s" "connHeap s c = Some k"
  shows "connUp c fd (s\<lparr>connHeap := (connHeap s)(c \<mapsto> k\<lparr>k_status := Disconnecting\<rparr>)\<rparr>)"
  by (rule connUp_fields[OF assms]) simp_all

lemma client_forces:
  fixes s :: "('t, 'z) client_scheme"
  assumes inv: "clientInv U K False [] s" "honest (trace s)" and c: "cl_conn s = Some c" and st: "stopAlone U K"
  obtains t where "forceClose (tk_conn K) c s = Inr t" "clientInv U K False [] t" "clientViewOf K t = clientViewOf K s"
proof -
  obtain k where k: "connHeap s c = Some k" "connUp c (k_sock k) s" by (rule client_up[OF inv c]) blast
  let ?s = "s\<lparr>connHeap := (connHeap s)(c \<mapsto> k\<lparr>k_status := Disconnecting\<rparr>)\<rparr>" and ?f = "ct_forceClose (tk_conn K) c"
  obtain t where t: "queueInLoop ?f ?s = Inr t" "ioStep ?s t" by (rule ioStep_queueInLoop)
  have eq: "forceClose (tk_conn K) c s = Inr t"
    using k t(1) by (auto simp: forceClose_def withConn_def setNetStatus_def modConn_def connUp_def)
  have up: "connUp c (k_sock k) t" by (rule connUp_ioStep(1)[OF t(2) connUp_disconnecting[OF k(2,1)]])
  have y: "yields (alone (insert ?f (u_user U c)) c s) (forceClose (tk_conn K) c) (alone (insert ?f (u_user U c)) c s)"
    by (rule alone.yields_forceClose) simp
  have "alone (insert ?f (u_user U c)) c s t"
    by (rule yieldsD[OF y alone_here[OF inv c] eq]) blast
  then show thesis using that[OF eq] work_open[OF inv c st _ k(1) up] by blast
qed

lemma client_shuts:
  fixes s :: "('t, 'z) client_scheme"
  assumes inv: "clientInv U K False [] s" "honest (trace s)" and c: "cl_conn s = Some c" and st: "stopAlone U K"
  obtains t where "shutdown (tk_conn K) c s = Inr t" "clientInv U K False [] t" "clientViewOf K t = clientViewOf K s"
proof -
  obtain k where k: "connHeap s c = Some k" "connUp c (k_sock k) s" by (rule client_up[OF inv c]) blast
  obtain ch where ch: "curTid s = loopTid s" "chans s (k_chan k) = Some ch" using k by (auto simp: connUp_def)
  show thesis
  proof (cases "k_status k = Connected")
    case False
    then show thesis using that[of s] k(1) inv(1) by (simp add: shutdown_def withConn_def)
  next
    case True
    let ?k = "k\<lparr>k_status := Disconnecting\<rparr>"
    let ?s = "s\<lparr>connHeap := (connHeap s)(c \<mapsto> ?k)\<rparr>"
    let ?t = "if isWriting ch then ?s else if a_ret (nextAns ?s) < 0 then logged ERROR (afterSys (SysShutdownWr (k_sock k)) ?s)
      else afterSys (SysShutdownWr (k_sock k)) ?s"
    have eq: "shutdown (tk_conn K) c s = Inr ?t"
      using k(1) ch True by (simp add: shutdown_def withConn_def setNetStatus_def modConn_def runInLoop_def ifElse_def isInLoopThread_def
          shutdownInLoop_def assertInLoopThread_def assertThat_def connWriting_def withChan_def TcpSocket_shutdownWrite_def
          ISocket_shutdownWrite_eq)
    have a: "alone (insert (ct_forceClose (tk_conn K) c) (u_user U c)) c s ?s"
      by (rule alone.P_status[OF alone_here[OF inv c] k(1)]) (use True in auto)
    have "alone (insert (ct_forceClose (tk_conn K) c) (u_user U c)) c s ?t"
      using a alone.P_sys[OF a, of "SysShutdownWr (k_sock k)"] alone.P_logged[OF alone.P_sys[OF a, of "SysShutdownWr (k_sock k)"]] by simp
    moreover have "ioStep ?s ?t"
      using ioStep_trans[OF ioStep_afterSys ioStep_logged, of "SysShutdownWr (k_sock k)" ?s ERROR] by simp
    then have "connUp c (k_sock k) ?t" by (rule connUp_ioStep(1)[OF _ connUp_disconnecting[OF k(2,1)]])
    ultimately show thesis using that[OF eq] work_open[OF inv c st _ k(1)] by blast
  qed
qed

section \<open>The outcome of an attempt\<close>

text \<open>What is left of the invariant then.\<close>

lemma released_parts:
  fixes s :: "('t, 'z) client_scheme"
  assumes inv: "clientInv U K False [] s" "honest (trace s)" and w: "cn_chan s = Some cid" "chans s cid = Some (watchChan (tk_connector K) fd)"
  shows "cl_conn s = None" "timers s = []" "heldFds s = sockets (trace s) - {fd}" "fd \<in> sockets (trace s)"
    "\<And>i ch. chans s i = Some ch \<Longrightarrow> c_added ch \<Longrightarrow> c_fd ch = fd \<Longrightarrow> i = cid"
    "\<And>c k. connHeap s c = Some k \<Longrightarrow> k_chan k \<noteq> cid \<and> k_chan k < nextChan s \<and> k_sock k \<noteq> fd \<and> k_status k = Disconnected \<and>
       (\<exists>ch. chans s (k_chan k) = Some ch \<and> \<not> c_added ch)"
proof -
  note i = clientInvD[OF inv(1)]
  have l: "linked False s" by (rule i(6)[OF inv(2)])
  show n: "cl_conn s = None" "timers s = []" using i(3) w(1) by (auto simp: chanOk_def)
  have wf: "watchedFds s = {fd}" using w by (simp add: watchedFds_def)
  show h: "heldFds s = sockets (trace s) - {fd}" "fd \<in> sockets (trace s)" using l wf by (auto simp: linked_def)
  show "i = cid" if "chans s i = Some ch" "c_added ch" "c_fd ch = fd" for i ch
  proof -
    have sy: "pollSynced s" using l by (simp add: linked_def)
    have "interest (trace s) fd = Some (c_events ch, i)" using sy that by (auto simp: pollSynced_def)
    moreover have "c_added (watchChan (tk_connector K) fd)" "c_fd (watchChan (tk_connector K) fd) = fd" by simp_all
    then have "interest (trace s) fd = Some (c_events (watchChan (tk_connector K) fd), cid)"
      using sy w(2) unfolding pollSynced_def by metis
    ultimately show ?thesis by simp
  qed
  fix c k assume k: "connHeap s c = Some k"
  obtain ch where ch: "chans s (k_chan k) = Some ch" "\<not> c_added ch" "k_status k = Disconnected"
    using connsOkD(5)[OF i(4) k] n(1) by auto
  have "k_sock k \<in> heldFds s" using k by (auto simp: heldFds_def)
  moreover have "k_chan k \<noteq> cid" using ch(1,2) w(2) by auto
  moreover have "k_chan k < nextChan s" using i(3) ch(1) by (auto simp: chanOk_def)
  ultimately show "k_chan k \<noteq> cid \<and> k_chan k < nextChan s \<and> k_sock k \<noteq> fd \<and> k_status k = Disconnected \<and>
       (\<exists>ch. chans s (k_chan k) = Some ch \<and> \<not> c_added ch)" using h(1) ch by auto
qed

lemma released_retries:
  fixes s u :: "('t, 'z) client_scheme"
  assumes inv: "clientInv U K False [] s" "honest (trace s)"
    and w: "cn_chan s = Some cid" "chans s cid = Some (watchChan (tk_connector K) fd)" "0 \<le> fd" and rel: "released cid s u"
  obtains (fatal) "Connector_retry (tk_connector K) fd u = Inl FatalLog"
  | (waiting) t where "Connector_retry (tk_connector K) fd u = Inr t" "clientInv U K False [] t" "waits (clientViewOf K s) (clientViewOf K t)"
proof -
  note i = clientInvD[OF inv(1)] and r = releasedD[OF rel] and p = released_parts[OF inv w(1,2)]
  note f = tame_fields[OF r(1)] and hi = tame_history[OF r(1)]
  let ?KC = "tk_connector K"
  have go: "cn_connFlag s" using i(3) w(1) by (auto simp: chanOk_def)
  have u: "curTid u = loopTid u" "timerInv [] u" "timers u = []" "cn_retryMs u \<in> retryDelays"
    using i(1,2) r f p(2) by (simp_all add: setUp_def timerOk_def timerInv_def)
  show thesis
  proof (cases rule: retry_cases[OF u w(3), of ?KC])
    case 1
    then show thesis by (rule fatal)
  next
    case (2 t)
    then show thesis using r(6) go by simp
  next
    case (3 t tr)
    note a = attempts_frame[OF 3(3)] attempts_more[OF 3(3)] and h = history_closed[OF 3(12,13)]
    let ?tm = "connTimer ?KC (fst (now u) + cn_retryMs u * 1000) u"
    have more: "cl_conn u = None" "cl_alive u = cl_alive s" "cl_retry u = cl_retry s" "cl_connFlag u = cl_connFlag s"
      "cl_onConn u = cl_onConn s" "cl_onMsg u = cl_onMsg s" "cl_onWrite u = cl_onWrite s"
      using connector_more_client[OF r(5)] p(1) by simp_all
    have st: "setUp U K t" using i(1) a r f(8) more 3(8) nextRetryMs_delays[OF u(4)] by (simp add: setUp_def)
    have tm: "timerOk K [] t" using i(2) 3(9-11) a(7) f(4) by (simp add: timerOk_def)
    have ch: "chanOk K t" using 3(4-7) r(2,3,9) i(3) by (auto simp: chanOk_def split: if_splits)
    have cs: "connsOk U K False t" unfolding connsOk_def
    proof (intro conjI allI impI)
      fix c k assume c: "connHeap t c = Some k"
      then have c: "connHeap s c = Some k" using a(10) r(11) by simp
      show "\<exists>x. chans t (k_chan k) = Some x \<and> (cl_conn t \<noteq> Some c \<or> False \<longrightarrow> \<not> c_added x \<and> k_status k = Disconnected)"
        using p(6)[OF c] 3(4) r(2) by auto
      show "c < nextConn t" "dialled U K c k" using connsOkD(3,4)[OF i(4) c] a(11) r(10) by simp_all
    next
      show "connHeap t c = Some k \<Longrightarrow> connHeap t e = Some l \<Longrightarrow> k_chan k = k_chan l \<Longrightarrow> c = e" for c e k l
        using connsOkD(6)[OF i(4), of c k e l] a(10) r(11) by simp
    qed (use a(24) more(1) in simp_all)
    have tk: "clientTask U K t x" if "x \<in> set (tasks t)" for x
      using i(5)[of x] that a(5,10,12) r(6,11,12) a(20,24) more(1,4) p(1) by (simp add: clientTask_def)
    have lk: "linked False t"
    proof -
      have l: "linked False s" by (rule i(6)[OF inv(2)])
      have "pollSynced t" by (rule pollSynced_frame[OF r(4) h(4) 3(4)])
      moreover have "heldFds t = heldFds s" "watchedFds t = {}" using a(10) r(11) 3(6) r(3) by (simp_all add: heldFds_def watchedFds_def)
      moreover have "sockets (trace t) = heldFds s" "tidy (trace t)" using h(2,3) f(9) hi(2) p(3,4) l by (simp_all add: linked_def)
      ultimately show ?thesis using l a(10,24) r(11) more(1) by (simp add: linked_def)
    qed
    have "clientInv U K False [] t" using st tm ch cs tk lk by (simp add: clientInv_def)
    moreover have "phaseOf t = Waiting (timeAt (clock s) (clockIx s) + cn_retryMs s * 1000)"
      using phaseOf_simps(4)[of t "nextTimer u" ?tm] a(24) more(1) 3(6,9,11) r(3,8) f(6,7) by (simp add: timeAt_now)
    then have "waits (clientViewOf K s) (clientViewOf K t)"
      using a(4,5,10,12) a(19,20,24) more r(6,8,11,12) f(6,7) p(1) 3(8,14)
      by (auto simp: waits_def elsewhere_def nextRetryMs_min)
    ultimately show thesis by (rule waiting[OF 3(2)])
  qed
qed

lemma released_connects:
  fixes s u :: "('t, 'z) client_scheme"
  assumes wu: "wellUsed exec U K" and inv: "clientInv U K False [] s" "honest (trace s)"
    and w: "cn_chan s = Some cid" "chans s cid = Some (watchChan (tk_connector K) fd)" and rel: "released cid s u" and st: "cn_status u = NsConnected"
  obtains t where "exec (tk_newConn K fd) u = Inr t" "clientInv U K False [] t" "nextConn s \<notin> v_gone (clientViewOf K s)"
    "clientViewOf K t = (clientViewOf K s)\<lparr>v_phase := Up (nextConn s) fd\<rparr>"
proof -
  note i = clientInvD[OF inv(1)] and r = releasedD[OF rel] and p = released_parts[OF inv w] and wd = wellUsedD[OF wu]
  note f = tame_fields[OF r(1)] and hi = tame_history[OF r(1)]
  let ?c = "nextConn s"
  have more: "cl_conn u = None" "cl_alive u" "cl_retry u = cl_retry s" "cl_connFlag u = cl_connFlag s"
    "cl_onConn u = Some (u_onConn U)" "cl_onMsg u = u_onMsg U" "cl_onWrite u = u_onWrite U"
    using connector_more_client[OF r(5)] p(1) i(1) by (simp_all add: setUp_def)
  obtain exec' owned where e: "exec (tk_newConn K fd) = TcpClient_newConnection exec' K owned fd"
    "exec' (u_onConn U ?c True) = exec (u_onConn U ?c True)" using wd(6)[of fd] by blast
  have loop: "curTid u = loopTid u" using i(1) r(13,14) by (simp add: setUp_def)
  obtain t k where t: "TcpClient_newConnection exec' K owned fd u = exec' (u_onConn U (nextConn u) True) t"
    "connUp (nextConn u) fd t" "cn_status t = cn_status u" "cn_chan t = cn_chan u" "cl_conn t = Some (nextConn u)"
    "k_onMsg k = cl_onMsg u" "k_onWrite k = cl_onWrite u" "k_onClose k = Some (tk_removeByPeer K)"
    "k_onConn k = cl_onConn u" "k_chan k = nextChan u" "k_sock k = fd" "connHeap t = (connHeap u)(nextConn u \<mapsto> k)"
    "\<exists>ch. chans t = (chans u)(nextChan u \<mapsto> ch)" "nextConn t = Suc (nextConn u)" "nextChan t = Suc (nextChan u)"
    "tame u t" "tasks t = tasks u" "conns.more t = conns.more (u\<lparr>cl_conn := Some (nextConn u)\<rparr>)"
    by (rule client_newConnection_ok[OF more(2) loop r(4) more(5,1), where fd = fd and exec = exec' and K = K and owned = owned])
      (use r(2,9) i(3) p(5) in \<open>auto simp: chanOk_def split: if_splits\<close>)
  obtain ch where ch: "chans t = (chans u)(nextChan u \<mapsto> ch)" using t(13) by blast
  have tt: "tame s t" by (rule tame_trans[OF r(1) t(16)])
  note g = tame_fields[OF tt] and hg = tame_history[OF tt] and m = client_more[OF t(18)]
  have fresh: "connHeap s ?c = None" using connsOkD(3)[OF i(4), of ?c] by (cases "connHeap s ?c") auto
  have heap: "connHeap t = (connHeap s)(?c \<mapsto> k)" using t(12) r(10,11) by simp
  have new: "k_chan k = nextChan s" "k_sock k = fd" "dialled U K ?c k"
    using t(6-11) more r(9) wd(4)[of _ ?c] by (simp_all add: dialled_def)
  have su: "setUp U K t" using i(1) m more r(7,8) g(8) t(2) by (simp add: setUp_def connUp_def)
  have tm: "timerOk K [] t" using i(2) g by (simp add: timerOk_def timerInv_def)
  have co: "chanOk K t" using t(4) r(3) st t(3) ch r(2,9) t(15) i(3) by (auto simp: chanOk_def less_Suc_eq split: if_splits)
  have cs: "connsOk U K False t" unfolding connsOk_def
  proof (intro conjI allI impI)
    fix e x assume x: "connHeap t e = Some x"
    show "e < nextConn t" using x heap connsOkD(3)[OF i(4), of e x] t(14) r(10) by (cases "e = ?c") auto
    show "dialled U K e x" using x heap connsOkD(4)[OF i(4), of e x] new(3) by (cases "e = ?c") auto
    show "\<exists>y. chans t (k_chan x) = Some y \<and> (cl_conn t \<noteq> Some e \<or> False \<longrightarrow> \<not> c_added y \<and> k_status x = Disconnected)"
    proof (cases "e = ?c")
      case True
      then show ?thesis using x heap ch t(5,10) r(10) by auto
    next
      case False
      then have "connHeap s e = Some x" using x heap by simp
      from p(6)[OF this] obtain y where y: "k_chan x \<noteq> cid" "k_chan x < nextChan s" "k_status x = Disconnected"
        "chans s (k_chan x) = Some y" "\<not> c_added y" by blast
      then have "chans t (k_chan x) = Some y" using ch r(2,9) by simp
      then show ?thesis using y by blast
    qed
  next
    fix e e' x y assume xy: "connHeap t e = Some x" "connHeap t e' = Some y" "k_chan x = k_chan y"
    have "k_chan l < nextChan s" if "connHeap s a = Some l" for a l using p(6)[OF that] by simp
    then show "e = e'" using xy heap new(1) connsOkD(6)[OF i(4), of e x e' y]
      by (cases "e = ?c"; cases "e' = ?c") fastforce+
  qed (use heap t(5) r(10) g(1) p(2) in simp_all)
  have tk: "clientTask U K t x" if x: "x \<in> set (tasks t)" for x
    by (rule clientTask_mono[OF i(5)]) (use x t(17) r(12) heap m(2,10) r(6) more(4) fresh t(5) r(10) in auto)
  have lk: "linked False t"
  proof -
    have l: "linked False s" by (rule i(6)[OF inv(2)])
    have held: "heldFds t = insert fd (heldFds s)" "watchedFds t = {}"
      using heldFds_new[OF heap fresh] new(2) t(4) r(3) by (simp_all add: watchedFds_def)
    have "e = e'" if "connHeap t e = Some x" "connHeap t e' = Some y" "k_sock x = k_sock y" for e e' x y
    proof (cases "e = ?c \<or> e' = ?c")
      case True
      then show ?thesis using that heap new(2) p(6)[of e x] p(6)[of e' y] by (auto split: if_splits)
    next
      case False
      then show ?thesis using that heap l by (simp add: linked_def)
    qed
    moreover have "sockets (trace t) = heldFds t \<union> watchedFds t" "tidy (trace t)"
      using held g(9) hg(2) p(3,4) l by (auto simp: linked_def)
    moreover have "connUp e (k_sock x) t" if "cl_conn t = Some e" "connHeap t e = Some x" for e x
      using that t(2,5) r(10) heap new(2) by simp
    ultimately show ?thesis using t(2) held(2) unfolding linked_def by (simp add: connUp_def)
  qed
  have it: "clientInv U K False [] t" using su tm co cs tk lk by (simp add: clientInv_def)
  have "phaseOf t = Up ?c fd" using phaseOf_simps(1)[of t ?c k] t(5) r(10) heap new(2) by simp
  moreover have "{e. connHeap t e \<noteq> None \<and> cl_conn t \<noteq> Some e} = {e. connHeap s e \<noteq> None \<and> cl_conn s \<noteq> Some e}"
    using heap t(5) r(10) p(1) fresh by auto
  ultimately have vt: "clientViewOf K t = (clientViewOf K s)\<lparr>v_phase := Up ?c fd\<rparr>"
    using m more(3,4) r(6,8,12) g(6,7) hg(1) t(17) by (simp add: clientViewOf_def)
  have up: "v_honest (clientViewOf K t) \<and> isUp ?c (clientViewOf K t)" using vt inv(2) by (simp add: isUp_def)
  obtain t' where t': "exec (u_onConn U ?c True) t = Inr t'" "clientInv U K False [] t'" "clientViewOf K t' = clientViewOf K t"
    by (rule keepsClientD[OF wd(1) it up])
  have "exec (tk_newConn K fd) u = Inr t'" using e t(1) t'(1) r(10) by simp
  then show thesis by (rule that[OF _ t'(2)]) (use fresh t'(3) vt in simp_all)
qed

text \<open>The socket became writable: it is given up for another try later, or becomes the client's connection.\<close>

definition answered :: "int \<Rightarrow> clientView \<Rightarrow> clientView \<Rightarrow> bool" where
  "answered fd A B \<longleftrightarrow> waits A B \<or> (\<exists>c. c \<notin> v_gone A \<and> B = A\<lparr>v_phase := Up c fd\<rparr>)"

lemma trying_watch:
  assumes "clientInv U K d X s" "phaseOf s = Trying fd"
  obtains cid where "cn_chan s = Some cid" "chans s cid = Some (watchChan (tk_connector K) fd)" "0 \<le> fd" "cn_status s = NsConnecting"
    "cn_connFlag s"
proof -
  obtain cid where cid: "cl_conn s = None" "cn_chan s = Some cid" "c_fd (the (chans s cid)) = fd"
    using assms(2) by (auto simp: phaseOf_def split: option.splits list.splits)
  then obtain fd' where "0 \<le> fd'" "chans s cid = Some (watchChan (tk_connector K) fd')" "cn_status s = NsConnecting" "cn_connFlag s"
    using clientInvD(3)[OF assms(1)] by (auto simp: chanOk_def)
  then show thesis using that cid by simp
qed

lemma client_writable:
  fixes s :: "('t, 'z) client_scheme"
  assumes wu: "wellUsed exec U K" and inv: "clientInv U K False [] s" "honest (trace s)" and ph: "phaseOf s = Trying fd"
  obtains (fatal) "Connector_handleWrite exec (tk_connector K) s = Inl FatalLog"
  | (answered) t where "Connector_handleWrite exec (tk_connector K) s = Inr t" "clientInv U K False [] t"
      "answered fd (clientViewOf K s) (clientViewOf K t)"
proof -
  note i = clientInvD[OF inv(1)]
  let ?KC = "tk_connector K" and ?w = "watchChan (tk_connector K) fd"
  obtain cid where cid: "cn_chan s = Some cid" "chans s cid = Some ?w" "0 \<le> fd" "cn_status s = NsConnecting" "cn_connFlag s"
    by (rule trying_watch[OF inv(1) ph])
  have s: "curTid s = loopTid s" "pollSynced s" "cn_onNewConn s = Some (tk_newConn K)"
    using i(1) i(6)[OF inv(2)] by (simp_all add: setUp_def linked_def)
  have wch: "\<not> c_mgmt ?w" "c_added ?w" by simp_all
  let ?err = "a_err (env s (envIx s + 1)) \<noteq> 0"
    and ?self = "sameEnds (addrOf (env s (envIx s + 2))) (addrOf (env s (envIx s + 3)))"
  obtain s1 s2 where a: "Connector_handleWrite exec ?KC s = (if ?err then Connector_retry ?KC (c_fd ?w) (logged ERROR s1)
      else if ?self then Connector_retry ?KC (c_fd ?w) (logged WARN s2) else handOver exec (c_fd ?w) s2)"
    "released cid s s1" "released cid s s2"
    by (rule connector_asks[OF s(1,2) cid(4,1,2) wch, where exec = exec and K = ?KC])
  let ?u = "s2\<lparr>cn_status := NsConnected\<rparr>"
  note r1 = a(2) and r2 = a(3)
  have eq: "Connector_handleWrite exec ?KC s = (if ?err then Connector_retry ?KC fd (logged ERROR s1)
      else if ?self then Connector_retry ?KC fd (logged WARN s2) else exec (tk_newConn K fd) ?u)"
    using a(1) cid(5) s(3) releasedD(6,7)[OF r2]
    by (simp add: handOver_def Connector_setNetStatus_def upd_def ifElse_def letIn_def)
  consider (err) ?err | (self) "\<not> ?err" ?self | (new) "\<not> ?err" "\<not> ?self" by blast
  then show thesis
  proof cases
    case err
    then show thesis
      by (cases rule: released_retries[OF inv cid(1-3) released_logged[OF r1]]) (use eq fatal answered in \<open>auto simp: answered_def\<close>)
  next
    case self
    then show thesis
      by (cases rule: released_retries[OF inv cid(1-3) released_logged[OF r2]]) (use eq fatal answered in \<open>auto simp: answered_def\<close>)
  next
    case new
    have st: "cn_status ?u = NsConnected" by simp
    obtain t where t: "exec (tk_newConn K fd) ?u = Inr t" "clientInv U K False [] t" "nextConn s \<notin> v_gone (clientViewOf K s)"
      "clientViewOf K t = (clientViewOf K s)\<lparr>v_phase := Up (nextConn s) fd\<rparr>"
      by (rule released_connects[OF wu inv cid(1,2) released_status[OF r2] st])
    then show thesis using answered[of t] eq new by (auto simp: answered_def simp del: clientViewOf_simps)
  qed
qed

section \<open>The timer\<close>

lemma inv_timerStep:
  fixes s t :: "('t, 'z) client_scheme"
  assumes inv: "clientInv U K d X s" and st: "timerStep s t" and tm: "timerOk K Y t"
    and same: "timers t = timers s \<or> cn_chan s = None \<and> cl_conn s = None"
  shows "clientInv U K d Y t" "clientViewOf K t = (clientViewOf K s)\<lparr>v_phase := phaseOf t, v_reads := clockIx t\<rparr>"
proof -
  note i = clientInvD[OF inv] and f = timerStep_fields[OF st]
  note m = connector_more_client[OF f(10)]
  obtain tr where tr: "trace t = trace s @ tr" "\<forall>c \<in> set tr. plain c" using st by (auto simp: timerStep_def)
  have h: "honest (trace t) = honest (trace s)" "tidy (trace t) = tidy (trace s)"
    "sockets (trace t) = sockets (trace s)" "interest (trace t) = interest (trace s)"
    using tr history_same[of tr] sockets_same[of tr] interest_plain[of tr] by auto
  have "setUp U K t" using i(1) f m by (simp add: setUp_def)
  moreover have "chanOk K t" using i(3) f m(7) same by (auto simp: chanOk_def)
  moreover have "connsOk U K d t" using i(4) f m(7) same by (auto simp: connsOk_def)
  moreover have "clientTask U K t x" if "x \<in> set (tasks t)" for x
    by (rule clientTask_mono[OF i(5)]) (use that f m in simp_all)
  moreover have "linked d t" if "honest (trace t)"
    by (rule linked_frame[OF i(6)]) (use that h f m(7) in simp_all)
  ultimately show "clientInv U K d Y t" using tm by (simp add: clientInv_def)
  show "clientViewOf K t = (clientViewOf K s)\<lparr>v_phase := phaseOf t, v_reads := clockIx t\<rparr>"
    using f m h(1) by (simp add: clientViewOf_def)
qed

text \<open>
  The timer descriptor fires, for a timer set to \<open>e\<close>: if the clock has reached that time the connector starts again;
  otherwise it goes on waiting.
\<close>

definition fires :: "timestamp \<Rightarrow> clientView \<Rightarrow> clientView \<Rightarrow> bool" where
  "fires e A B \<longleftrightarrow> (let now0 = timeAt (v_clock A) (v_reads A) in
     now0 \<le> e \<and> elsewhere A B \<and> v_phase B = v_phase A \<and> v_delay B = v_delay A \<or>
     e \<le> now0 \<and> starts (A\<lparr>v_phase := Idle, v_reads := Suc (v_reads A)\<rparr>) B)"

lemma attempt_later: "attempt A B \<Longrightarrow> v_reads B \<le> n \<Longrightarrow> attempt A (B\<lparr>v_reads := n\<rparr>)"
  by (auto simp: attempt_def waits_def elsewhere_def)

lemma client_fires:
  fixes s :: "('t, 'z) client_scheme"
  assumes wu: "wellUsed exec U K" and inv: "clientInv U K False [] s" and ph: "phaseOf s = Waiting e"
  obtains (fatal) "TimerQueue_handleRead exec s = Inl FatalLog"
  | (fired) t where "TimerQueue_handleRead exec s = Inr t" "clientInv U K False [] t" "fires e (clientViewOf K s) (clientViewOf K t)"
proof -
  note i = clientInvD[OF inv]
  have none: "cl_conn s = None" "cn_chan s = None" "timers s \<noteq> []" using ph by (auto simp: phaseOf_def split: option.splits list.splits)
  then obtain p tm where p: "timers s = [p]" "tmHeap s p = Some tm" "tm_cb tm = cnt_start (tk_connector K)" "\<not> repeat tm"
    using i(2) by (auto simp: timerOk_def)
  have e: "tm_expire tm = e" using ph phaseOf_simps(4)[OF none(1,2) p(1,2)] by simp
  have s: "curTid s = loopTid s" "timerInv [] s" "canceling s = []" using i(1,2) by (simp_all add: setUp_def timerOk_def)
  have now0: "fst (now s) = timeAt (clock s) (clockIx s)" by (rule timeAt_now)
  show thesis
  proof (cases rule: fire_one[OF s(1,2) p(1) s(3) p(2), of exec])
    case l: (1 s1)
    show thesis
    proof (cases s1 rule: rearm_step)
      case f: fatal
      then show thesis using fatal l(2) by simp
    next
      case 2: (armed t)
      have step: "timerStep s t" by (rule timerStep_trans[OF l(3) 2(2)])
      have tm: "timerOk K [] t" using l(4-6) 2(3-5) i(2) p timerStep_fields(17)[OF step] by (simp add: timerOk_def timerInv_def)
      note it = inv_timerStep[OF inv step tm]
      have f: "cl_conn t = None" "cn_chan t = None"
        using timerStep_fields(10,13)[OF step] none connector_more_client(7)[of t s] by simp_all
      have "phaseOf t = phaseOf s" using phaseOf_simps(4)[OF f, of p tm] ph e l(4,5) 2(3,4) p(2) by simp
      then have "fires e (clientViewOf K s) (clientViewOf K t)"
        using it(2) l(1,8) 2(7) none e now0 by (simp add: fires_def elsewhere_def Let_def)
      then show thesis using fired[of t] l(2) 2(1) it(1) none by simp
    qed
  next
    case d: (2 s1)
    have tm1: "timerOk K [p] s1"
      using d(4-6) s(2) p(1,2) timerStep_fields(17)[OF d(3)] by (simp add: timerOk_def timerInv_def ordered_def)
    note i1 = inv_timerStep[OF inv d(3) tm1]
    have f1: "cl_conn s1 = None" "cn_chan s1 = None" "timers s1 = []"
      using timerStep_fields(10,13)[OF d(3)] none d(4) connector_more_client(7)[of s1 s] by simp_all
    have v1: "clientViewOf K s1 = (clientViewOf K s)\<lparr>v_phase := Idle, v_reads := Suc (clockIx s)\<rparr>"
      using i1(2) none phaseOf_simps(3)[OF f1] d(8) by simp
    have inv1: "clientInv U K False [p] s1" using i1(1) none by simp
    show thesis
    proof (cases rule: start_inv[OF inv1 f1])
      case 1
      then show thesis using fatal d(2) p(3) wellUsedD(9)[OF wu] by simp
    next
      case st: (2 t1)
      note j = clientInvD[OF st(2)]
      have p1: "tmHeap t1 p = Some tm" using st(5) d(5) p(2) by simp
      have ti: "timerInv [p] t1" using j(2) by (simp add: timerOk_def)
      let ?t2 = "t1\<lparr>timerWorking := False, tmHeap := (tmHeap t1)(p := None)\<rparr>"
      note ac = afterCall_ok[OF ti p1 p(4)]
      have eq: "TimerQueue_handleRead exec s = rearm ?t2"
        using d(2) p(3) wellUsedD(9)[OF wu] st(1) ac(1) by simp
      have step2: "timerStep t1 ?t2" by (cases t1) (simp add: timerStep_def)
      have pn: "p \<notin> set (timers t1)" using ti by (simp add: timerInv_def)
      show thesis
      proof (cases ?t2 rule: rearm_step)
        case f: fatal
        then show thesis using fatal eq by simp
      next
        case r: (armed t)
        have step: "timerStep t1 t" by (rule timerStep_trans[OF step2 r(2)])
        have heap: "tmHeap t q = tmHeap t1 q" if "q \<noteq> p" for q using r(4) that by simp
        have tms: "timers t = timers t1" using r(3) by simp
        have "timerInv [] t" using ac(2) r(3,4) timerStep_fields(17)[OF step] by (simp add: timerInv_def)
        then have tmt: "timerOk K [] t" using j(2) r(3-5) pn heap by (auto simp: timerOk_def)
        note it = inv_timerStep[OF st(2) step tmt]
        have same: "phaseOf t = phaseOf t1"
        proof -
          have "tmHeap t q = tmHeap t1 q" if "q \<in> set (timers t1)" for q using heap that pn by metis
          then show ?thesis using timerStep_fields(6,8,10,13)[OF step] connector_more_client(7)[of t t1] tms
            by (simp add: phaseOf_def split: option.split list.split)
        qed
        have vt: "clientViewOf K t = (clientViewOf K t1)\<lparr>v_reads := clockIx t\<rparr>"
          using it(2) tms same by (simp add: clientViewOf_def)
        have le: "clockIx t1 \<le> clockIx t" using r(7) by simp
        have "starts (clientViewOf K s1) (clientViewOf K t)"
        proof (cases "v_go (clientViewOf K s1)")
          case True
          then have "attempt (clientViewOf K s1) (clientViewOf K t1)" using st(3) by (simp add: starts_def)
          then have "attempt (clientViewOf K s1) (clientViewOf K t)" unfolding vt by (rule attempt_later) (simp add: le)
          then show ?thesis using True by (simp add: starts_def)
        next
          case False
          then have v: "clientViewOf K t1 = clientViewOf K s1" using st(3) by (simp add: starts_def)
          then have "phaseOf t1 = Idle" using v1 by (metis clientViewOf_simps(1) clientView.select_convs(1) clientView.surjective clientView.update_convs(1,9))
          then have "timers t1 = []" by (simp add: phaseOf_def split: option.splits list.splits)
          then have "t = ?t2" using r(1) by (simp add: rearm_def)
          then have "clockIx t = clockIx t1" by simp
          then have "clientViewOf K t = clientViewOf K t1" using vt by (simp add: clientViewOf_def)
          then show ?thesis using v False by (simp add: starts_def)
        qed
        then have "fires e (clientViewOf K s) (clientViewOf K t)"
          using v1 d(1) e now0 by (simp add: fires_def Let_def)
        then show thesis using fired[of t] eq r(1) it(1) tms by simp
      qed
    qed
  qed
qed

end
