(* ===== verification/ClientRun.thy ===== *)
theory ClientRun
  imports ClientEvents Examples Refinement
begin

text \<open>
  A client over its whole life, TcpClient.cpp with all it rests on: the task queue, the operations of its
  user, and any sequence of these with the events of ClientEvents. To its user it is the phase machine of
  \<open>clientSpec\<close>; the theory proves that the code implements that machine and, while the kernel is honest, neither leaks a
  socket nor closes one twice.
\<close>

section \<open>The task queue\<close>

text \<open>Whether a task may be queued can be read off the view.\<close>

definition viewTask :: "'t clientUse \<Rightarrow> 't clientTasks \<Rightarrow> clientView \<Rightarrow> 't \<Rightarrow> bool" where
  "viewTask U K A t \<longleftrightarrow> (\<exists>c. (isUp c A \<or> c \<in> v_gone A) \<and> (t \<in> u_user U c \<or> t = ct_forceClose (tk_conn K) c) \<or>
       c \<in> v_gone A \<and> t = tk_destroyed K c) \<or>
     t = cnt_stop (tk_connector K) \<and> \<not> v_want A \<and> \<not> v_go A"

lemma clientTask_view:
  assumes "clientInv U K d X s"
  shows "clientTask U K s t \<longleftrightarrow> viewTask U K (clientViewOf K s) t"
proof -
  have "connHeap s c \<noteq> None \<longleftrightarrow> isUp c (clientViewOf K s) \<or> c \<in> v_gone (clientViewOf K s)" for c
    using connsOkD(1)[OF clientInvD(4)[OF assms], of c] by (auto simp: isUp_view)
  moreover have "connHeap s c \<noteq> None \<and> cl_conn s \<noteq> Some c \<longleftrightarrow> c \<in> v_gone (clientViewOf K s)" for c by simp
  ultimately show ?thesis unfolding clientTask_def viewTask_def by auto
qed

lemma attempt_down: "attempt A B \<Longrightarrow> \<not> isUp c B"
  by (auto simp: attempt_def waits_def isUp_iff)

lemma lost_down: "lost c A B \<Longrightarrow> \<not> isUp e B"
  using attempt_down by (auto simp: lost_def Let_def isUp_iff split: if_splits)

lemma lost_fields:
  assumes "lost c A B"
  shows "v_want B = v_want A" "v_gone B = insert c (v_gone A)" "v_go B = v_go A \<or> v_want A" "v_stopping B = v_stopping A"
  using assms by (auto simp: lost_def attempt_def waits_def elsewhere_def Let_def split: if_splits)

lemma viewTask_lost:
  assumes "viewTask U K A t" "lost c A B" "isUp c A"
  shows "viewTask U K B t"
proof -
  have "isUp e A \<Longrightarrow> e = c" for e using assms(3) by (auto simp: isUp_iff)
  then show ?thesis using assms(1) lost_fields[OF assms(2)] unfolding viewTask_def by auto
qed

lemma gone_closed:
  assumes inv: "clientInv U K False [] s" and c: "c \<in> v_gone (clientViewOf K s)"
  obtains k where "connHeap s c = Some k" "k_status k = Disconnected"
  using connsOkD(5)[OF clientInvD(4)[OF inv], of c] c by auto

text \<open>One task: it leaves the view as it is, or is the forced close of the client's connection.\<close>

lemma client_task:
  fixes s :: "('t, 'z) client_scheme"
  assumes wu: "wellUsed exec U K" and inv: "clientInv U K False [] s" and t: "viewTask U K (clientViewOf K s) x"
    and ok: "honest (trace s) \<or> cl_conn s = None"
  obtains (fatal) "exec x s = Inl FatalLog"
  | (same) s' where "exec x s = Inr s'" "clientInv U K False [] s'" "clientViewOf K s' = clientViewOf K s"
  | (lost) c s' where "exec x s = Inr s'" "clientInv U K False [] s'" "isUp c (clientViewOf K s)"
      "lost c (clientViewOf K s) (clientViewOf K s')"
proof -
  note w = wellUsedD[OF wu] and i = clientInvD[OF inv]
  have loop: "curTid s = loopTid s" using i(1) by (simp add: setUp_def)
  consider (user) c where "isUp c (clientViewOf K s) \<or> c \<in> v_gone (clientViewOf K s)" "x \<in> u_user U c"
    | (force) c where "isUp c (clientViewOf K s) \<or> c \<in> v_gone (clientViewOf K s)" "x = ct_forceClose (tk_conn K) c"
    | (dead) c where "c \<in> v_gone (clientViewOf K s)" "x = tk_destroyed K c"
    | (stop) "x = cnt_stop (tk_connector K)" "\<not> cn_connFlag s"
    using t by (auto simp: viewTask_def simp del: clientViewOf_simps(6))
  then show thesis
  proof cases
    case (user c)
    have "v_honest (clientViewOf K s) \<and> isUp c (clientViewOf K s) \<or> c \<in> v_gone (clientViewOf K s)"
      using user(1) ok isUp_view[of c K s] by auto
    then show thesis by (rule keepsClientD[OF w(3)[OF user(2)] inv]) (rule same)
  next
    case (force c)
    obtain exec' where e: "exec (ct_forceClose (tk_conn K) c) = forceCloseInLoop exec' c" "closesClient exec' U K c"
      using w(7)[of c] by blast
    show thesis
    proof (cases "cl_conn s = Some c")
      case True
      then have h: "honest (trace s)" using ok by auto
      obtain k where k: "connHeap s c = Some k" "connUp c (k_sock k) s" by (rule client_up[OF inv h True]) blast
      then have eq: "exec x s = handleClose exec' c s"
        using force(2) e(1) loop by (auto simp: forceCloseInLoop_def assertInLoopThread_def assertThat_def withConn_def connUp_def)
      have u: "isUp c (clientViewOf K s)" using True by (simp add: isUp_view)
      show thesis by (cases rule: client_closes[OF e(2) w(11) inv h True]) (use eq fatal lost[OF _ _ u] in auto)
    next
      case False
      then have "c \<in> v_gone (clientViewOf K s)" using force(1) isUp_view[of c K s] by simp
      then obtain k where "connHeap s c = Some k" "k_status k = Disconnected" by (rule gone_closed[OF inv])
      then have "exec x s = Inr s"
        using force(2) e(1) loop by (simp add: forceCloseInLoop_def assertInLoopThread_def assertThat_def withConn_def)
      then show thesis using same[of s] inv by simp
    qed
  next
    case (dead c)
    obtain exec' where e: "exec (tk_destroyed K c) = connectionDestroyed exec' c" using w(8)[of c] by blast
    obtain k where "connHeap s c = Some k" "k_status k = Disconnected" by (rule gone_closed[OF inv dead(1)])
    then have "exec x s = Inr s"
      using dead(2) e loop by (simp add: connectionDestroyed_def assertInLoopThread_def assertThat_def withConn_def)
    then show thesis using same[of s] inv by simp
  next
    case stop
    then have "cn_status s \<noteq> NsConnecting" using i(3) by (auto simp: chanOk_def)
    then have "exec x s = Inr s"
      using stop(1) w(10) loop by (simp add: stopInLoop_def assertInLoopThread_def assertThat_def ifElse_def)
    then show thesis using same[of s] inv by simp
  qed
qed

lemma client_tasks:
  fixes s :: "('t, 'z) client_scheme"
  assumes wu: "wellUsed exec U K" and "clientInv U K False [] s" and "\<And>x. x \<in> set ts \<Longrightarrow> viewTask U K (clientViewOf K s) x"
    and "honest (trace s) \<or> cl_conn s = None"
  shows "block (map exec ts) s = Inl FatalLog \<or> (\<exists>s'. block (map exec ts) s = Inr s' \<and> clientInv U K False [] s' \<and>
    (clientViewOf K s' = clientViewOf K s \<or> (\<exists>c. isUp c (clientViewOf K s) \<and> lost c (clientViewOf K s) (clientViewOf K s'))))"
  using assms(2-4)
proof (induction ts arbitrary: s)
  case Nil
  then show ?case by simp
next
  case (Cons x ts)
  have x: "viewTask U K (clientViewOf K s) x" using Cons.prems(2) by simp
  show ?case
  proof (cases rule: client_task[OF wu Cons.prems(1) x Cons.prems(3)])
    case 1
    then show ?thesis by simp
  next
    case (2 s1)
    have "honest (trace s1) \<or> cl_conn s1 = None"
      using Cons.prems(3) arg_cong[OF 2(3), of v_honest] isUp_view[of _ K s1] isUp_view[of _ K s] 2(3)
      by (metis clientViewOf_simps(10) option.exhaust)
    then show ?thesis using Cons.IH[OF 2(2)] Cons.prems(2) 2(1,3) by simp
  next
    case (3 c s1)
    have down: "cl_conn s1 = None" using lost_down[OF 3(4)] isUp_view[of _ K s1] by (cases "cl_conn s1") auto
    have "viewTask U K (clientViewOf K s1) y" if "y \<in> set ts" for y
      by (rule viewTask_lost[OF _ 3(4,3)]) (use Cons.prems(2) that in simp)
    then have "block (map exec ts) s1 = Inl FatalLog \<or> (\<exists>s'. block (map exec ts) s1 = Inr s' \<and> clientInv U K False [] s' \<and>
      clientViewOf K s' = clientViewOf K s1)"
      using Cons.IH[OF 3(2)] down isUp_view[of _ K s1] by auto
    then show ?thesis using 3 by auto
  qed
qed

definition works :: "clientView \<Rightarrow> clientView \<Rightarrow> bool" where
  "works A B \<longleftrightarrow> (let A' = A\<lparr>v_stopping := False\<rparr> in B = A' \<or> (\<exists>c. isUp c A' \<and> lost c A' B))"

lemma inv_working:
  "clientInv U K d X (s\<lparr>workingFlag := b\<rparr>) = clientInv U K d X s" "clientViewOf K (s\<lparr>workingFlag := b\<rparr>) = clientViewOf K s"
proof -
  show "clientInv U K d X (s\<lparr>workingFlag := b\<rparr>) = clientInv U K d X s"
    by (simp add: clientInv_def setUp_def timerOk_def timerInv_def chanOk_def connsOk_def clientTask_def linked_def pollSynced_def
        connUp_def heldFds_def watchedFds_def)
  show "clientViewOf K (s\<lparr>workingFlag := b\<rparr>) = clientViewOf K s"
    using phaseOf_same[of "s\<lparr>workingFlag := b\<rparr>" s] by (simp add: clientViewOf_def)
qed

lemma client_works:
  fixes s :: "('t, 'z) client_scheme"
  assumes wu: "wellUsed exec U K" and inv: "clientInv U K False [] s" "honest (trace s)"
  obtains (fatal) "doTask exec s = Inl FatalLog"
  | (worked) t where "doTask exec s = Inr t" "clientInv U K False [] t" "works (clientViewOf K s) (clientViewOf K t)"
proof -
  let ?a = "s\<lparr>tasks := []\<rparr>" and ?s = "s\<lparr>tasks := [], workingFlag := True\<rparr>"
  have a: "clientInv U K False [] ?a" "clientViewOf K ?a = (clientViewOf K s)\<lparr>v_stopping := False\<rparr>"
    using inv_ioStep[OF inv(1) ioStep_tasks, of "[]"] by simp_all
  have b: "clientInv U K False [] ?s" "clientViewOf K ?s = (clientViewOf K s)\<lparr>v_stopping := False\<rparr>"
    using a unfolding inv_working by simp_all
  have "viewTask U K (clientViewOf K ?s) x" if "x \<in> set (tasks s)" for x
  proof -
    have "viewTask U K (clientViewOf K s) x" using clientInvD(5)[OF inv(1) that] clientTask_view[OF inv(1)] by simp
    then show ?thesis unfolding b(2) by (simp add: viewTask_def isUp_iff)
  qed
  then consider "block (map exec (tasks s)) ?s = Inl FatalLog" | s' where "block (map exec (tasks s)) ?s = Inr s'"
      "clientInv U K False [] s'" "works (clientViewOf K s) (clientViewOf K s')"
    using client_tasks[OF wu b(1), of "tasks s"] inv(2) unfolding b(2) works_def Let_def by auto
  moreover have swap: "s\<lparr>workingFlag := True, tasks := []\<rparr> = ?s" by simp
  ultimately show thesis
  proof cases
    case 1
    then show thesis using fatal swap by (simp add: doTask_def letIn_def upd_def)
  next
    case (2 s')
    then show thesis using worked[of "s'\<lparr>workingFlag := False\<rparr>"] swap
      by (simp add: doTask_def letIn_def upd_def inv_working)
  qed
qed

section \<open>The operations of the user\<close>

lemma stop_queued:
  assumes "clientInv U K d X s" "stopAlone U K" "cnt_stop (tk_connector K) \<in> set (tasks s)"
  shows "\<not> cl_connFlag s \<and> \<not> cn_connFlag s"
  using clientInvD(5)[OF assms(1,3)] assms(2) by (auto simp: clientTask_def stopAlone_def)

lemma inv_flags:
  fixes s :: "('t, 'z) client_scheme"
  assumes inv: "clientInv U K d X s" and b: "cn_chan s \<noteq> None \<Longrightarrow> b"
    and stop: "cnt_stop (tk_connector K) \<in> set (tasks s) \<Longrightarrow> \<not> a \<and> \<not> b"
  shows "clientInv U K d X (s\<lparr>cl_connFlag := a, cn_connFlag := b, cl_retry := c\<rparr>)"
    "clientViewOf K (s\<lparr>cl_connFlag := a, cn_connFlag := b, cl_retry := c\<rparr>) =
      (clientViewOf K s)\<lparr>v_want := a, v_go := b, v_retry := c\<rparr>"
proof -
  let ?t = "s\<lparr>cl_connFlag := a, cn_connFlag := b, cl_retry := c\<rparr>"
  note i = clientInvD[OF inv]
  have "setUp U K ?t" "timerOk K X ?t" "chanOk K ?t" "connsOk U K d ?t"
    using i(1-4) b by (simp_all add: setUp_def timerOk_def timerInv_def chanOk_def connsOk_def)
  moreover have "clientTask U K ?t x" if "x \<in> set (tasks ?t)" for x
    using i(5)[of x] that stop by (auto simp: clientTask_def)
  moreover have "linked d ?t" if "honest (trace ?t)"
    by (rule linked_frame[OF i(6)]) (use that in simp_all)
  ultimately show "clientInv U K d X ?t" unfolding clientInv_def by blast
  show "clientViewOf K ?t = (clientViewOf K s)\<lparr>v_want := a, v_go := b, v_retry := c\<rparr>"
    using phaseOf_same[of ?t s] by (simp add: clientViewOf_def)
qed

lemma client_calls:
  fixes s :: "('t, 'z) client_scheme"
  assumes inv: "clientInv U K False [] s" and st: "stopAlone U K" and ph: "phaseOf s = Idle"
    and ns: "cnt_stop (tk_connector K) \<notin> set (tasks s)"
  obtains (fatal) "TcpClient_connect K s = Inl FatalLog"
  | (called) t where "TcpClient_connect K s = Inr t" "clientInv U K False [] t"
      "attempt ((clientViewOf K s)\<lparr>v_want := True, v_go := True\<rparr>) (clientViewOf K t)"
proof -
  let ?s = "s\<lparr>cl_connFlag := True, cn_connFlag := True\<rparr>"
  have e: "?s = s\<lparr>cl_connFlag := True, cn_connFlag := True, cl_retry := cl_retry s\<rparr>" by simp
  have a: "clientInv U K False [] ?s" "clientViewOf K ?s = (clientViewOf K s)\<lparr>v_want := True, v_go := True\<rparr>"
    using inv_flags[OF inv, of True True "cl_retry s", folded e] ns by (simp_all add: clientViewOf_def)
  have r: "cl_conn ?s = None" "cn_chan ?s = None" "timers ?s = []"
    using ph by (auto simp: phaseOf_def split: option.splits list.splits)
  have eq: "TcpClient_connect K s = startInLoop (tk_connector K) ?s"
    using clientInvD(1)[OF inv]
    by (simp add: TcpClient_connect_def Connector_start_def upd_def runInLoop_def ifElse_def isInLoopThread_def setUp_def)
  show thesis
  proof (cases rule: start_inv[OF a(1) r])
    case 1
    then show thesis using fatal eq by simp
  next
    case (2 t)
    then show thesis using called[of t] eq a(2) by (simp add: starts_def)
  qed
qed

lemma client_disconnects:
  fixes s :: "('t, 'z) client_scheme"
  assumes inv: "clientInv U K False [] s" "honest (trace s)" and st: "stopAlone U K"
  obtains t where "TcpClient_disconnect K s = Inr t" "clientInv U K False [] t" "clientViewOf K t = (clientViewOf K s)\<lparr>v_want := False\<rparr>"
proof -
  let ?s = "s\<lparr>cl_connFlag := False\<rparr>"
  have e: "?s = s\<lparr>cl_connFlag := False, cn_connFlag := cn_connFlag s, cl_retry := cl_retry s\<rparr>" by simp
  have go: "cn_chan s \<noteq> None \<Longrightarrow> cn_connFlag s" using clientInvD(3)[OF inv(1)] by (auto simp: chanOk_def)
  have a: "clientInv U K False [] ?s" "clientViewOf K ?s = (clientViewOf K s)\<lparr>v_want := False\<rparr>"
    using inv_flags[OF inv(1) go, of False "cl_retry s", folded e] stop_queued[OF inv(1) st]
    by (simp_all add: clientViewOf_def)
  show thesis
  proof (cases "cl_conn s")
    case None
    then show thesis using that[of ?s] a by (simp add: TcpClient_disconnect_def upd_def letIn_def)
  next
    case (Some c)
    have c: "cl_conn ?s = Some c" "honest (trace ?s)" using Some inv(2) by simp_all
    obtain t where "shutdown (tk_conn K) c ?s = Inr t" "clientInv U K False [] t" "clientViewOf K t = clientViewOf K ?s"
      by (rule client_shuts[OF a(1) c(2,1) st])
    then show thesis using that[of t] a(2) Some by (simp add: TcpClient_disconnect_def upd_def letIn_def)
  qed
qed

lemma client_stops:
  fixes s :: "('t, 'z) client_scheme"
  assumes inv: "clientInv U K False [] s" and ph: "\<And>fd. phaseOf s \<noteq> Trying fd"
  obtains t where "TcpClient_stop K s = Inr t" "clientInv U K False [] t"
    "clientViewOf K t = (clientViewOf K s)\<lparr>v_want := False, v_go := False, v_stopping := True\<rparr>"
proof -
  let ?s = "s\<lparr>cl_connFlag := False, cn_connFlag := False\<rparr>"
  have e: "?s = s\<lparr>cl_connFlag := False, cn_connFlag := False, cl_retry := cl_retry s\<rparr>" by simp
  have none: "cn_chan s = None"
    using clientInvD(3)[OF inv] ph by (cases "cn_chan s") (auto simp: chanOk_def phaseOf_def)
  have a: "clientInv U K False [] ?s" "clientViewOf K ?s = (clientViewOf K s)\<lparr>v_want := False, v_go := False\<rparr>"
    using inv_flags[OF inv, of False False "cl_retry s", folded e] none by (simp_all add: clientViewOf_def)
  have "clientTask U K ?s (cnt_stop (tk_connector K))" by (simp add: clientTask_def)
  then obtain t where t: "queueInLoop (cnt_stop (tk_connector K)) ?s = Inr t" "clientInv U K False [] t"
    "clientViewOf K t = (clientViewOf K ?s)\<lparr>v_stopping := cnt_stop (tk_connector K) \<in> insert (cnt_stop (tk_connector K)) (set (tasks ?s))\<rparr>"
    by (rule inv_queue[OF a(1)])
  have "TcpClient_stop K s = Inr t" using t(1) by (simp add: TcpClient_stop_def Connector_stop_def upd_def)
  then show thesis using that[of t] t(2,3) a(2) by simp
qed

section \<open>The client refines the phase machine\<close>

text \<open>
  What can happen to a client: its user calls one of its operations, or forces the connection to close; the connector's socket becomes
  writable or has an error; the timer descriptor fires; the connection becomes readable or writable, has an error or is hung up;
  or the loop runs the tasks that are queued.
\<close>

datatype clientEvent = Connect | Disconnect | Stop | EnableRetry | ForceClose nat | Writable | SockError | TimerFires
  | ToRead nat | ToWrite nat | Failed nat | HungUp nat | Tasks

fun clientRun ::
  "('t \<Rightarrow> ('t, 'z) client_scheme stmt) \<Rightarrow> 't clientTasks \<Rightarrow> clientEvent \<Rightarrow> ('t, 'z) client_scheme stmt" where
  "clientRun exec K Connect = TcpClient_connect K"
| "clientRun exec K Disconnect = TcpClient_disconnect K"
| "clientRun exec K Stop = TcpClient_stop K"
| "clientRun exec K EnableRetry = enableRetry"
| "clientRun exec K (ForceClose c) = forceClose (tk_conn K) c"
| "clientRun exec K Writable = Connector_handleWrite exec (tk_connector K)"
| "clientRun exec K SockError = Connector_handleError"
| "clientRun exec K TimerFires = TimerQueue_handleRead exec"
| "clientRun exec K (ToRead c) = TcpConnection_handleRead exec c"
| "clientRun exec K (ToWrite c) = TcpConnection_handleWrite c"
| "clientRun exec K (Failed c) = TcpConnection_handleError c"
| "clientRun exec K (HungUp c) = handleClose exec c"
| "clientRun exec K Tasks = doTask exec"

text \<open>
  Events come for what is watched, the kernel has been honest so far, and the user connects only at rest and does not stop
  an attempt under way (Connector shows that these two lose a socket and close one twice).
\<close>

fun phaseValid :: "clientEvent \<Rightarrow> clientView \<Rightarrow> bool" where
  "phaseValid Connect A \<longleftrightarrow> v_phase A = Idle \<and> \<not> v_stopping A"
| "phaseValid Stop A \<longleftrightarrow> (case v_phase A of Trying fd \<Rightarrow> False | _ \<Rightarrow> True)"
| "phaseValid Writable A \<longleftrightarrow> (case v_phase A of Trying fd \<Rightarrow> True | _ \<Rightarrow> False)"
| "phaseValid SockError A \<longleftrightarrow> (case v_phase A of Trying fd \<Rightarrow> True | _ \<Rightarrow> False)"
| "phaseValid TimerFires A \<longleftrightarrow> (case v_phase A of Waiting e \<Rightarrow> True | _ \<Rightarrow> False)"
| "phaseValid (ForceClose c) A \<longleftrightarrow> isUp c A"
| "phaseValid (ToRead c) A \<longleftrightarrow> isUp c A"
| "phaseValid (ToWrite c) A \<longleftrightarrow> isUp c A"
| "phaseValid (Failed c) A \<longleftrightarrow> isUp c A"
| "phaseValid (HungUp c) A \<longleftrightarrow> isUp c A"
| "phaseValid ev A \<longleftrightarrow> True"

definition clientValid :: "clientEvent \<Rightarrow> clientView \<Rightarrow> bool" where
  "clientValid ev A \<longleftrightarrow> v_honest A \<and> phaseValid ev A"

fun clientSpec :: "clientEvent \<Rightarrow> clientView \<Rightarrow> clientView \<Rightarrow> bool" where
  "clientSpec Connect A B \<longleftrightarrow> attempt (A\<lparr>v_want := True, v_go := True\<rparr>) B"
| "clientSpec Disconnect A B \<longleftrightarrow> B = A\<lparr>v_want := False\<rparr>"
| "clientSpec Stop A B \<longleftrightarrow> B = A\<lparr>v_want := False, v_go := False, v_stopping := True\<rparr>"
| "clientSpec EnableRetry A B \<longleftrightarrow> B = A\<lparr>v_retry := True\<rparr>"
| "clientSpec Writable A B \<longleftrightarrow> (case v_phase A of Trying fd \<Rightarrow> answered fd A B | _ \<Rightarrow> False)"
| "clientSpec TimerFires A B \<longleftrightarrow> (case v_phase A of Waiting e \<Rightarrow> fires e A B | _ \<Rightarrow> False)"
| "clientSpec (ToRead c) A B \<longleftrightarrow> B = A \<or> lost c A B"
| "clientSpec (HungUp c) A B \<longleftrightarrow> lost c A B"
| "clientSpec Tasks A B \<longleftrightarrow> works A B"
| "clientSpec ev A B \<longleftrightarrow> B = A"

lemma client_step:
  fixes s :: "('t, 'z) client_scheme"
  assumes wu: "wellUsed exec U K" and inv: "clientInv U K False [] s" and v: "clientValid ev (clientViewOf K s)"
  shows "clientRun exec K ev s = Inl FatalLog \<or> (\<exists>s'. clientRun exec K ev s = Inr s' \<and> clientInv U K False [] s' \<and>
    clientSpec ev (clientViewOf K s) (clientViewOf K s'))"
proof -
  note w = wellUsedD[OF wu]
  have h: "honest (trace s)" and p: "phaseValid ev (clientViewOf K s)" using v by (simp_all add: clientValid_def)
  show ?thesis
  proof (cases ev)
    case Connect
    then have "phaseOf s = Idle" "cnt_stop (tk_connector K) \<notin> set (tasks s)" using p by simp_all
    then show ?thesis by (cases rule: client_calls[OF inv w(11)]) (use Connect in auto)
  next
    case Disconnect
    show ?thesis by (rule client_disconnects[OF inv h w(11)]) (use Disconnect in auto)
  next
    case Stop
    then have "phaseOf s \<noteq> Trying fd" for fd using p by (auto split: phase.splits)
    then show ?thesis by (rule client_stops[OF inv]) (use Stop in auto)
  next
    case EnableRetry
    let ?t = "s\<lparr>cl_retry := True\<rparr>"
    have e: "?t = s\<lparr>cl_connFlag := cl_connFlag s, cn_connFlag := cn_connFlag s, cl_retry := True\<rparr>" by simp
    have go: "cn_chan s \<noteq> None \<Longrightarrow> cn_connFlag s" using clientInvD(3)[OF inv] by (auto simp: chanOk_def)
    have "clientInv U K False [] ?t" "clientViewOf K ?t = (clientViewOf K s)\<lparr>v_retry := True\<rparr>"
      using inv_flags[OF inv go, of "cl_connFlag s" True, folded e] stop_queued[OF inv w(11)] by (simp_all add: clientViewOf_def)
    then show ?thesis using EnableRetry by (simp add: enableRetry_def upd_def)
  next
    case (ForceClose c)
    then have "cl_conn s = Some c" using p isUp_view[of c K s] by simp
    then show ?thesis by (rule client_forces[OF inv h _ w(11)]) (use ForceClose in auto)
  next
    case Writable
    then obtain fd where fd: "phaseOf s = Trying fd" using p by (auto split: phase.splits)
    show ?thesis by (cases rule: client_writable[OF wu inv h fd]) (use Writable fd in auto)
  next
    case SockError
    have "clientInv U K False [] (logged ERROR s)" "clientViewOf K (logged ERROR s) = clientViewOf K s" using inv by simp_all
    then show ?thesis using SockError by (simp add: Connector_handleError_def)
  next
    case TimerFires
    then obtain e where e: "phaseOf s = Waiting e" using p by (auto split: phase.splits)
    show ?thesis by (cases rule: client_fires[OF wu inv e]) (use TimerFires e in auto)
  next
    case (ToRead c)
    then have c: "cl_conn s = Some c" using p isUp_view[of c K s] by simp
    show ?thesis by (cases rule: client_reads[OF wu inv h c]) (use ToRead in auto)
  next
    case (ToWrite c)
    then have "cl_conn s = Some c" using p isUp_view[of c K s] by simp
    then show ?thesis by (rule client_writes[OF inv h _ w(11)]) (use ToWrite in auto)
  next
    case (Failed c)
    then have "cl_conn s = Some c" using p isUp_view[of c K s] by simp
    then show ?thesis by (rule client_errors[OF inv h]) (use Failed in auto)
  next
    case (HungUp c)
    then have c: "cl_conn s = Some c" using p isUp_view[of c K s] by simp
    show ?thesis by (cases rule: client_closes[OF w(5,11) inv h c]) (use HungUp in auto)
  next
    case Tasks
    show ?thesis by (cases rule: client_works[OF wu inv h]) (use Tasks in auto)
  qed
qed

interpretation cli: refinement "\<lambda>n s. wellUsed exec U K \<and> clientInv U K False [] s" "clientViewOf K" clientValid
  "clientRun exec K" clientSpec
  for exec :: "'t \<Rightarrow> ('t, 'z) client_scheme stmt" and U K
  by unfold_locales (use client_step in blast)


text \<open>A client with the default callbacks. Its tasks name the member function they stand for.\<close>

datatype callTask = Skip | OnConn nat bool | OnMsg nat | NewConn int | Remove nat | Destroyed nat | Force nat | Start | StopIt

definition callK :: "callTask clientTasks" where
  "callK = \<lparr>tk_conn = \<lparr>ct_read = (\<lambda>c. Skip), ct_write = (\<lambda>c. Skip), ct_close = (\<lambda>c. Skip), ct_error = (\<lambda>c. Skip),
       ct_forceClose = Force, ct_shutdown = (\<lambda>c. Skip), ct_send = (\<lambda>c xs. Skip), ct_chanClose = (\<lambda>c. Skip)\<rparr>,
     tk_connector = \<lparr>cnt_start = Start, cnt_stop = StopIt, cnt_write = Skip, cnt_error = Skip, cnt_addTimer = (\<lambda>_. Skip),
       cnt_chanClose = (\<lambda>_. Skip)\<rparr>,
     tk_newConn = NewConn, tk_removeByPeer = Remove, tk_remove = (\<lambda>c. Skip),
     tk_destroyed = Destroyed, tk_setClose = (\<lambda>c. Skip), tk_defaultConn = OnConn\<rparr>"

definition callU :: "callTask clientUse" where
  "callU = \<lparr>u_onConn = OnConn, u_onMsg = Some OnMsg, u_onWrite = None, u_user = (\<lambda>c. {})\<rparr>"

fun callBack :: "callTask \<Rightarrow> callTask client stmt" where
  "callBack (OnConn c up) = defaultConnectionCallback up"
| "callBack (Remove c) = removeConnectionByPeer callK c"
| "callBack t = Inr"

fun callExec :: "callTask \<Rightarrow> callTask client stmt" where
  "callExec (NewConn fd) = TcpClient_newConnection callBack callK (\<lambda>_. False) fd"
| "callExec (Destroyed c) = connectionDestroyed callBack c"
| "callExec (Force c) = forceCloseInLoop callBack c"
| "callExec Start = startInLoop (tk_connector callK)"
| "callExec StopIt = stopInLoop (tk_connector callK)"
| "callExec t = callBack t"

lemma callExec_wellUsed: "wellUsed callExec callU callK"
proof -
  have s: "u_onConn callU = OnConn" "u_onMsg callU = Some OnMsg" "u_onWrite callU = None" "u_user callU = (\<lambda>_. {})"
    "tk_newConn callK = NewConn" "tk_removeByPeer callK = Remove" "tk_destroyed callK = Destroyed" "ct_forceClose (tk_conn callK) = Force"
    "cnt_start (tk_connector callK) = Start" "cnt_stop (tk_connector callK) = StopIt"
    by (simp_all add: callU_def callK_def)
  have "keepsClient callU callK d P (defaultConnectionCallback up)" "keepsClient callU callK d P Inr" for d P up
    by (simp_all add: keepsClient_def ensures_def defaultConnectionCallback_def)
  then show ?thesis unfolding wellUsed_def userOk_def boundOk_def stopAlone_def closesClient_def s
    by auto
qed

definition freshClient :: "callTask client" where
  "freshClient = connector.extend (conns.extend (evloop.extend ((demoLoop [])
       \<lparr>env := (\<lambda>_. okAns\<lparr>a_err := ECONNREFUSED\<rparr>), clock := (\<lambda>i. (1 + int i, 0))\<rparr>)
       \<lparr>connHeap = Map.empty, nextConn = 0\<rparr>)
     \<lparr>cn_peer = mem_bytes AF_INET @ replicate 26 0, cn_connFlag = False, cn_status = NsDisconnected, cn_chan = None,
      cn_onNewConn = Some NewConn, cn_retryMs = 500\<rparr>)
     \<lparr>cl_alive = True, cl_retry = False, cl_connFlag = True, cl_onConn = Some OnConn, cl_onMsg = Some OnMsg,
      cl_onWrite = None, cl_conn = None\<rparr>"

lemmas freshClient_defs = freshClient_def connector.defs conns.defs evloop.defs demoLoop_defs

lemma freshClient_inv: "clientInv callU callK False [] freshClient"
  by (simp add: clientInv_def setUp_def timerOk_def timerInv_def chanOk_def connsOk_def linked_def pollSynced_def heldFds_def
      watchedFds_def freshClient_defs callU_def callK_def retryDelays_def level_order ordered_def)

text \<open>It connects, is refused, waits half a second and tries again.\<close>

lemma call_trace:
  "case clientRun callExec callK Connect freshClient of Inl _ \<Rightarrow> False | Inr a \<Rightarrow> honest (trace a) \<and> phaseOf a = Trying 0 \<and>
     (case clientRun callExec callK Writable a of Inl _ \<Rightarrow> False | Inr b \<Rightarrow> honest (trace b) \<and> phaseOf b = Waiting 1500000 \<and>
     (case clientRun callExec callK TimerFires b of Inl _ \<Rightarrow> False | Inr c \<Rightarrow> honest (trace c) \<and> phaseOf c = Trying 0 \<and>
        cn_retryMs c = 1000))"
  by code_simp


end
