(* ===== verification/Spec2Isabelle.thy ===== *)
theory Spec2Isabelle
  imports Prelude ByteOrder ByteQueue Process Logger LogLine ISocket Buffer Format Timestamp Channel Poller EPollPoller
    TaskQueue StdSet Timer EventLoop EndPoint TcpSocket TcpConnection ConnStream Acceptor Connector LoopPool
    TcpServer TcpClient ClientConnect LoopThread LoopThreads LoopProgress Teardown ConnFrame ConnStatus Examples
    EchoLoop EchoRun Refinement TimerSchedule ServerRun Attempt ClientState ClientEvents ClientRun
begin

text \<open>
  ssnet: a reactor-style network library, written in C++. One \<^verbatim>\<open>EventLoop\<close> per thread waits for events
  with an \<^verbatim>\<open>EPollPoller\<close>, dispatches them to the callbacks of \<^verbatim>\<open>Channel\<close> objects, runs expired timers
  (\<^verbatim>\<open>TimerQueue\<close>) and the tasks other threads queued. On it sit the listening socket (\<^verbatim>\<open>Acceptor\<close>), the
  active side (\<^verbatim>\<open>Connector\<close>), a connection with its two byte buffers (\<^verbatim>\<open>TcpConnection\<close>), and the two
  classes an application uses, \<^verbatim>\<open>TcpServer\<close> (with a pool of loops) and \<^verbatim>\<open>TcpClient\<close>.

  The state. A function of the program is a statement: it maps the state to an outcome, a new state
  or a fault (\<^verbatim>\<open>fault\<close> in Prelude: a failed assertion, an abort, an empty callback, a use after free).
  Assertions are live, since the root CMakeLists.txt replaces the release flags by \<^verbatim>\<open>-O3\<close> and does not
  define \<^verbatim>\<open>NDEBUG\<close>. States are records, each extending the one below it, and an operation works on
  every extension of the record it is written for:
    process (Process: trace of system calls, errno, log, clock, thread numbers),
    chanheap (Channel: the channels by address), poll (EPollPoller), taskq (TaskQueue: the queue and
    flags of one EventLoop), timerq (Timer: timers by address and their ordered set), evloop
    (EventLoop), conns (TcpConnection: connections by address); from there acceptor and server, or
    connector and client, or pingpong; and lsys from taskq, for several threads.
  The kernel is an arbitrary function from the number of the call to its answer, and every system
  call is appended to a trace; properties quantify over it. A freed object is missing from its heap.
  Closures are tokens: a callback in a field is a function from its arguments to a token, the records
  named ..Tasks name the tokens the code makes of member functions, and \<^verbatim>\<open>exec\<close> runs one. What a
  property needs of the tokens it states as hypotheses.

  Theories and sources, under src/ of the repository.
    Prelude, Process: outcomes, blocks, system calls, the clock; base/CurrentThread.cpp.
    Logger: base/Logger.h, with the text of a line in LogLine. Timestamp, Format: base/Timestamp.h and .cpp with binary64 arithmetic and
    the printing of numbers. ISocket: net/ISocket.cpp. ByteOrder, ByteQueue, Buffer: net/Buffer.h and
    .cpp; ByteQueue is the locale of a FIFO of bytes, the specification of the buffer.
    Channel, Poller, EPollPoller: net/Channel.*, Poller.h (the locale \<^verbatim>\<open>poller\<close>), EPollPoller.*.
    TaskQueue, EventLoop: net/EventLoop.*. StdSet, Timer: \<^verbatim>\<open>std::set\<close> over a comparator (a locale), and
    net/Timer.*; TimerSchedule: the timer queue as the implementation of a schedule, by the locale of
    Refinement (data refinement for a component with operations). EndPoint, TcpSocket: net/EndPoint.*, TcpSocket.*.
    TcpConnection: the class of net/TcpConnection.*; ConnStream: its byte stream and its closing;
    ConnFrame: what its operations may change and what they may not, as two locales (the laws of one
    operation; what follows for all of them); ConnStatus: its status, over all operations; Teardown: its
    destruction.
    Acceptor, Connector, LoopPool, TcpServer, TcpClient: the files of the same name under net/
    (LoopPool is net/EventLoopThreadPool.*). ClientConnect: a connection attempt through Connector,
    TcpClient and TcpConnection.
    LoopThreads: net/EventLoop.cpp under several threads, and LoopProgress: its fair runs. LoopThread: net/EventLoopThread.*.
    Examples: example/echo_test and example/pingpong_test. EchoLoop: one turn of the echo server's
    loop, through all the layers; EchoRun: any number of turns, whatever the kernel answers. ServerRun: a server
    on one loop with all its connections over its whole life, as the implementation of a set of open connections,
    by the locale total_refinement (a refinement in which the component never fails).
    Attempt, ClientState, ClientEvents, ClientRun: a client over its whole life. Attempt: one attempt of the connector and
    one firing of its timer, with all their outcomes. ClientState: what the user sees (the phase: at rest, trying, waiting,
    connected), the history of the sockets read off the trace (\<^verbatim>\<open>sockets\<close> of ISocket), and the invariant that ties
    client, connector, timer queue, channels and connections together. ClientEvents: the contract on the user's callbacks and
    the events of connection, connector and timer. ClientRun: the task queue, the user's calls, and the refinement.

  What is shown. Data: the buffer refines a FIFO queue and its integers survive a round trip; reading
  from a descriptor appends what the kernel delivered; time stamps and end points print faithfully.
  The loop: the flag of a channel and the registration in epoll agree; an event is dispatched to its
  callbacks; due timers run in order, once, and repeat unless cancelled, and the timer queue as a whole
  implements a table from handles to callbacks and times; no wake-up is lost, for the
  sequential loop and for any interleaving with other threads, and under weak fairness every queued
  task runs and a loop told to quit returns. Connections: all bytes sent go out in order or wait in the output buffer, which
  drains when the kernel takes bytes; a connection closes once, its status only moves forward; and a whole turn of the echo server's loop, from the
  wait to the reply, echoes; and any number of turns, with any answers of the kernel, never fails and
  loses, doubles or reorders no byte; and a server, through any sequence of events and with any answers of the
  kernel, never fails and keeps in its set exactly the connections that are open. A client, through any sequence of calls and
  events, ends with a fatal log line at worst, goes through its phases with the delays it should, and, while the kernel hands out free descriptors only,
  leaks no socket and closes none twice. The client and server classes: accepting hands over a registered,
  established connection; a connection attempt of a client ends in an established connection,
  in a retry with a delay that doubles up to half a minute, or closed, once. A third
  group of theorems shows where the code fails, and from which states: timers cancelled while they run, destructors that leave tasks behind, descriptors
  closed twice or not at all, \<^verbatim>\<open>peekInt16\<close>, and others.

  Bounds. The loops of \<^verbatim>\<open>EventLoop::loop\<close> are a partial function with the value \<^verbatim>\<open>None\<close> for not
  returning, and no fuel; all other recursions are over lists and numbers, with their termination
  proved. Machine integers are words where they can wrap (buffer sizes, counters, masks, ports), \<^verbatim>\<open>int\<close>
  where the code stays in range (descriptors, time in microseconds, times in milliseconds).

  Not modelled. Which text a function logs (and what is computed only for it); \<^verbatim>\<open>NonCopyable\<close>, a
  compile-time restriction; reference counts (whether something else owns a connection is an
  argument, and destructors are operations); the C++ memory model (threads interleave at critical
  sections, system calls and accesses to flags); what a loop in another thread does with a task of a
  server (the task is recorded for it); \<^verbatim>\<open>std::stoi\<close> on command lines (its results are arguments); the
  unit tests and start scripts.
\<close>

end
